(* ===== verification/Prelude.thy ===== *)
theory Prelude
  imports Main "HOL-Library.Word" "HOL-Library.Char_ord" "HOL-Library.List_Lexorder"
begin

text \<open>
  Shared base of the development: the lemma collections the component theories fill and
  use, the machine integer types, the list chunking that both the source cursor
  (pages) and the target writer (batches) amount to, and facts about byte-wise string
  order.
\<close>

section \<open>Collections and type names\<close>

named_theorems text_simps \<open>evaluation and inversion of the Go string routines\<close>
named_theorems lock_simps \<open>the locker operations on their state\<close>
named_theorems log_simps \<open>the run log operations, field by field\<close>
named_theorems wm_simps \<open>the watermark tracker\<close>

text \<open>Go's \<open>int\<close> and \<open>int64\<close> on a 64-bit platform, read with \<^const>\<open>sint\<close>; \<open>uint64\<close>.\<close>

type_synonym i64 = "64 word"
type_synonym u64 = "64 word"

section \<open>Chunking\<close>

text \<open>
  Cutting a list into consecutive pieces of \<open>n\<close> elements, the last one possibly shorter:
  the reference that the paging loop of \<open>Stream\<close> and the batching loop of \<open>RunTask\<close> are
  compared with.
\<close>

function chunks :: "nat \<Rightarrow> 'a list \<Rightarrow> 'a list list" where
  "chunks n xs = (if n = 0 \<or> xs = [] then [] else take n xs # chunks n (drop n xs))"
  by pat_completeness auto
termination
  by (relation "measure (\<lambda>(n, xs). length xs)") auto

declare chunks.simps [simp del]

lemma chunks_Nil [simp]: "chunks n [] = []"
  by (simp add: chunks.simps [of n "[]"])

lemma chunks_step: "0 < n \<Longrightarrow> xs \<noteq> [] \<Longrightarrow> chunks n xs = take n xs # chunks n (drop n xs)"
  by (simp add: chunks.simps [of n xs])

lemma chunks_short: "xs \<noteq> [] \<Longrightarrow> length xs \<le> n \<Longrightarrow> chunks n xs = [xs]"
proof -
  assume xs: "xs \<noteq> []" and len: "length xs \<le> n"
  then have "0 < n" by (cases xs) auto
  with xs len show ?thesis by (simp add: chunks_step)
qed

lemma chunks_full: "length xs = n \<Longrightarrow> 0 < n \<Longrightarrow> chunks n (xs @ ys) = xs # chunks n ys"
  by (subst chunks_step) auto

lemma concat_chunks [simp]: "0 < n \<Longrightarrow> concat (chunks n xs) = xs"
proof (induction n xs rule: chunks.induct)
  case (1 n xs)
  then show ?case by (cases "xs = []") (auto simp: chunks_step)
qed

lemma take_past: "length xs = n \<Longrightarrow> take (n + k) (xs @ ys) = xs @ take k ys"
  and drop_past: "length xs = n \<Longrightarrow> drop (n + k) (xs @ ys) = drop k ys"
  by auto

lemma chunks_bounds: "c \<in> set (chunks n xs) \<Longrightarrow> c \<noteq> [] \<and> length c \<le> n"
proof (induction n xs rule: chunks.induct)
  case (1 n xs)
  show ?case
  proof (cases "n = 0 \<or> xs = []")
    case True
    with "1.prems" show ?thesis by (simp add: chunks.simps [of n xs])
  next
    case False
    with "1.prems" "1.IH" show ?thesis by (auto simp: chunks_step)
  qed
qed

lemma chunks_all_full_but_last:
  "0 < n \<Longrightarrow> c \<in> set (butlast (chunks n xs)) \<Longrightarrow> length c = n"
proof (induction n xs rule: chunks.induct)
  case (1 n xs)
  show ?case
  proof (cases "xs = []")
    case True
    with "1.prems" show ?thesis by simp
  next
    case False
    with "1.prems" have c: "c \<in> set (butlast (take n xs # chunks n (drop n xs)))"
      by (simp add: chunks_step)
    show ?thesis
    proof (cases "drop n xs = []")
      case True
      with c show ?thesis by simp
    next
      case rest: False
      with "1.prems"(1) have "chunks n (drop n xs) \<noteq> []" by (simp add: chunks_step)
      with c have "c = take n xs \<or> c \<in> set (butlast (chunks n (drop n xs)))" by auto
      with rest "1.IH" "1.prems"(1) False show ?thesis by auto
    qed
  qed
qed

section \<open>Byte-wise order on strings\<close>

text \<open>
  \<open>HOL-Library.List_Lexorder\<close> over \<open>Char_ord\<close> orders strings as Go's \<open><\<close> and
  SQLite's BINARY collation do: lexicographically by byte value.
\<close>

lemma lex_append_eq_length:
  fixes a b c d :: "'a :: linorder list"
  assumes "length a = length b"
  shows "a @ c < b @ d \<longleftrightarrow> a < b \<or> (a = b \<and> c < d)"
  using assms by (induction a b rule: list_induct2) auto

lemma lex_same_prefix [simp]:
  fixes p c d :: "'a :: linorder list"
  shows "p @ c < p @ d \<longleftrightarrow> c < d"
  by (simp add: lex_append_eq_length)

lemma find_Some_set: "find P xs = Some x \<Longrightarrow> x \<in> set xs \<and> P x"
  by (induction xs) (auto split: if_splits)

end
