(* ===== verification/Gotext.thy ===== *)
theory Gotext
  imports Prelude
begin

text \<open>
  The parts of Go's \<open>strings\<close> and \<open>strconv\<close> packages the program calls, on byte strings
  (a Go string is a byte sequence; an Isabelle \<open>char\<close> is a byte): \<open>Contains\<close>,
  \<open>ReplaceAll\<close>, \<open>Split\<close>, \<open>Join\<close>, \<open>Itoa\<close>/\<open>FormatInt\<close>, \<open>ParseInt\<close> and the zero-padded decimals
  of time layouts, with the round trips and order facts the components rest on.
\<close>

section \<open>strings\<close>

fun contains :: "string \<Rightarrow> string \<Rightarrow> bool" where
  "contains [] sub = (sub = [])"
| "contains (c # cs) sub = (take (length sub) (c # cs) = sub \<or> contains cs sub)"

text \<open>\<open>ReplaceAll(s, old, new)\<close>; the program never passes an empty \<open>old\<close>, which here
  replaces nothing.\<close>

function replace_all :: "string \<Rightarrow> string \<Rightarrow> string \<Rightarrow> string" where
  "replace_all [] old new = []"
| "replace_all (c # cs) old new =
     (if old \<noteq> [] \<and> take (length old) (c # cs) = old
      then new @ replace_all (drop (length old) (c # cs)) old new
      else c # replace_all cs old new)"
  by pat_completeness auto
termination
proof (relation "measure (\<lambda>(s, old, new). length s)", goal_cases)
  case (2 c cs old new)
  then show ?case by (cases old) auto
qed auto

fun split_on :: "char \<Rightarrow> string \<Rightarrow> string list" where
  "split_on sep [] = [[]]"
| "split_on sep (c # cs) =
     (if c = sep then [] # split_on sep cs
      else (case split_on sep cs of [] \<Rightarrow> [[c]] | p # ps \<Rightarrow> (c # p) # ps))"

fun join :: "string \<Rightarrow> string list \<Rightarrow> string" where
  "join sep [] = []"
| "join sep [x] = x"
| "join sep (x # y # ys) = x @ sep @ join sep (y # ys)"

lemma contains_iff: "contains s sub \<longleftrightarrow> (\<exists>p q. s = p @ sub @ q)"
proof (induction s)
  case (Cons c cs)
  show ?case
  proof
    assume "contains (c # cs) sub"
    then consider "take (length sub) (c # cs) = sub" | "contains cs sub" by auto
    then show "\<exists>p q. c # cs = p @ sub @ q"
    proof cases
      case 1
      then have "c # cs = [] @ sub @ drop (length sub) (c # cs)"
        by (metis append_Nil append_take_drop_id)
      then show ?thesis by blast
    next
      case 2
      with Cons.IH obtain p q where "cs = p @ sub @ q" by auto
      then have "c # cs = (c # p) @ sub @ q" by simp
      then show ?thesis by blast
    qed
  next
    assume "\<exists>p q. c # cs = p @ sub @ q"
    then obtain p q where eq: "c # cs = p @ sub @ q" by blast
    show "contains (c # cs) sub"
    proof (cases p)
      case Nil
      with eq show ?thesis by (metis append_Nil append_eq_conv_conj contains.simps(2))
    next
      case (Cons a p')
      with eq have "cs = p' @ sub @ q" by simp
      with Cons.IH show ?thesis by auto
    qed
  qed
qed auto

lemma replace_all_absent: "\<not> contains s old \<Longrightarrow> replace_all s old new = s"
  by (induction s old new rule: replace_all.induct) auto

lemma replace_all_char [text_simps]:
  "replace_all s [c] new = concat (map (\<lambda>x. if x = c then new else [x]) s)"
  by (induction s) auto

lemma replace_all_first:
  assumes old: "old \<noteq> []" and first: "\<And>q r. p @ old = q @ old @ r \<Longrightarrow> r = []"
  shows "replace_all (p @ old @ s) old new = p @ new @ replace_all s old new"
  using first
proof (induction p)
  case Nil
  show ?case using old by (cases old) auto
next
  case (Cons c p)
  have no: "take (length old) (c # p @ old @ s) \<noteq> old"
  proof
    assume eq: "take (length old) (c # p @ old @ s) = old"
    have "take (length old) (c # p @ old) = old"
    proof -
      have "take (length old) (c # p @ old @ s) = take (length old) ((c # p @ old) @ s)" by simp
      also have "\<dots> = take (length old) (c # p @ old)" by (subst take_append) simp
      finally show ?thesis using eq by simp
    qed
    then have "(c # p) @ old = [] @ old @ drop (length old) (c # p @ old)"
      by (metis append_Cons append_Nil append_take_drop_id)
    then have "drop (length old) (c # p @ old) = []" by (rule Cons.prems)
    then show False by simp
  qed
  have "\<And>q r. p @ old = q @ old @ r \<Longrightarrow> r = []"
  proof -
    fix q r assume "p @ old = q @ old @ r"
    then have "(c # p) @ old = (c # q) @ old @ r" by simp
    then show "r = []" by (rule Cons.prems)
  qed
  then have "replace_all (p @ old @ s) old new = p @ new @ replace_all s old new"
    by (rule Cons.IH)
  with no show ?case by simp
qed

lemma split_on_nonempty [simp]: "split_on sep s \<noteq> []"
  by (induction s) (auto split: list.splits)

lemma split_on_no_sep: "p \<in> set (split_on sep s) \<Longrightarrow> sep \<notin> set p"
  by (induction s arbitrary: p) (fastforce split: list.splits if_splits)+

lemma join_Cons: "ys \<noteq> [] \<Longrightarrow> join sep (x # ys) = x @ sep @ join sep ys"
  by (cases ys) auto

lemma join_snoc: "xs \<noteq> [] \<Longrightarrow> join sep (xs @ [x]) = join sep xs @ sep @ x"
proof (induction xs)
  case (Cons y xs)
  then show ?case by (cases xs) (auto simp: join_Cons)
qed simp

lemma join_prepend: "join sep ((c # x) # xs) = c # join sep (x # xs)"
  by (cases xs) auto

lemma join_split_on [simp]: "join [sep] (split_on sep s) = s"
proof (induction s)
  case (Cons c cs)
  then show ?case
    by (cases "split_on sep cs") (auto simp: join_Cons join_prepend)
qed simp

lemma split_on_absent: "sep \<notin> set s \<Longrightarrow> split_on sep s = [s]"
  by (induction s) auto

lemma split_on_append: "sep \<notin> set p \<Longrightarrow> split_on sep (p @ sep # s) = p # split_on sep s"
  by (induction p) auto

lemma split_on_join:
  "ps \<noteq> [] \<Longrightarrow> \<forall>p \<in> set ps. sep \<notin> set p \<Longrightarrow> split_on sep (join [sep] ps) = ps"
proof (induction ps)
  case (Cons p ps)
  then show ?case
    by (cases ps) (auto simp: split_on_absent split_on_append)
qed simp

section \<open>strconv: decimal integers\<close>

definition digit :: "nat \<Rightarrow> char" where
  "digit d = char_of (48 + d)"

definition is_digit :: "char \<Rightarrow> bool" where
  "is_digit c \<longleftrightarrow> CHR ''0'' \<le> c \<and> c \<le> CHR ''9''"

definition digit_val :: "char \<Rightarrow> nat" where
  "digit_val c = of_char c - 48"

fun nat_str :: "nat \<Rightarrow> string" where
  "nat_str n = (if n < 10 then [digit n] else nat_str (n div 10) @ [digit (n mod 10)])"

declare nat_str.simps [simp del]

text \<open>\<open>strconv.Itoa\<close>, \<open>strconv.FormatInt(_, 10)\<close> and \<open>%d\<close>.\<close>

definition itoa :: "int \<Rightarrow> string" where
  "itoa i = (if i < 0 then CHR ''-'' # nat_str (nat (- i)) else nat_str (nat i))"

fun digits_val :: "nat \<Rightarrow> string \<Rightarrow> nat option" where
  "digits_val acc [] = Some acc"
| "digits_val acc (c # cs) = (if is_digit c then digits_val (10 * acc + digit_val c) cs else None)"

definition parse_nat :: "string \<Rightarrow> nat option" where
  "parse_nat s = (if s = [] then None else digits_val 0 s)"

text \<open>\<open>strconv.ParseInt(s, 10, 64)\<close>: an optional sign, decimal digits, and the int64 range;
  \<open>None\<close> is any of its errors.\<close>

definition int64_range :: "int \<Rightarrow> bool" where
  "int64_range i \<longleftrightarrow> - (2 ^ 63) \<le> i \<and> i < 2 ^ 63"

definition parse_int :: "string \<Rightarrow> int option" where
  "parse_int s =
     (case (case s of
              [] \<Rightarrow> None
            | c # cs \<Rightarrow>
                if c = CHR ''-'' then map_option (\<lambda>n. - int n) (parse_nat cs)
                else if c = CHR ''+'' then map_option int (parse_nat cs)
                else map_option int (parse_nat s)) of
        None \<Rightarrow> None
      | Some i \<Rightarrow> if int64_range i then Some i else None)"

lemma digit_facts [text_simps]:
  assumes "d < 10"
  shows "is_digit (digit d)" and "digit_val (digit d) = d" and "of_char (digit d) = 48 + d"
  using assms by (auto simp: digit_def is_digit_def digit_val_def less_eq_char_def)

lemma digit_less_iff: "d < 10 \<Longrightarrow> e < 10 \<Longrightarrow> digit d < digit e \<longleftrightarrow> d < e"
  by (simp add: less_char_def digit_facts)

lemma digit_inj: "d < 10 \<Longrightarrow> e < 10 \<Longrightarrow> digit d = digit e \<longleftrightarrow> d = e"
  by (metis digit_facts(2))

lemma digits_val_append:
  "digits_val acc (s @ t) = (case digits_val acc s of None \<Rightarrow> None | Some a \<Rightarrow> digits_val a t)"
  by (induction s arbitrary: acc) auto

lemma nat_str_digits: "c \<in> set (nat_str n) \<Longrightarrow> is_digit c"
proof (induction n rule: nat_str.induct)
  case (1 n)
  then show ?case
    by (cases "n < 10") (auto simp: nat_str.simps [of n] digit_facts)
qed

lemma nat_str_nonempty [simp]: "nat_str n \<noteq> []"
  by (simp add: nat_str.simps [of n])

lemma digits_val_nat_str: "digits_val 0 (nat_str n) = Some n"
proof (induction n rule: nat_str.induct)
  case (1 n)
  show ?case
  proof (cases "n < 10")
    case True
    then show ?thesis by (simp add: nat_str.simps [of n] digit_facts)
  next
    case False
    with 1 have "digits_val 0 (nat_str (n div 10)) = Some (n div 10)" by simp
    with False show ?thesis by (simp add: nat_str.simps [of n] digits_val_append digit_facts)
  qed
qed

lemma parse_nat_nat_str [simp]: "parse_nat (nat_str n) = Some n"
  by (simp add: parse_nat_def digits_val_nat_str)

lemma is_digit_not_sign: "is_digit c \<Longrightarrow> c \<noteq> CHR ''-'' \<and> c \<noteq> CHR ''+''"
  by (auto simp: is_digit_def less_eq_char_def)

lemma parse_int_nat_str:
  "int64_range (int n) \<Longrightarrow> parse_int (nat_str n) = Some (int n)"
proof -
  assume range: "int64_range (int n)"
  obtain c cs where s: "nat_str n = c # cs" by (cases "nat_str n") auto
  then have "is_digit c" using nat_str_digits [of c n] by simp
  with is_digit_not_sign have "c \<noteq> CHR ''-''" "c \<noteq> CHR ''+''" by auto
  moreover from s have "parse_nat (c # cs) = Some n" by (metis parse_nat_nat_str)
  ultimately show ?thesis using s range by (simp add: parse_int_def)
qed

lemma int64_range_sint: "int64_range (sint (x :: i64))"
  using sint_greater_eq [of x] sint_lt [of x] by (simp add: int64_range_def)

lemma parse_int_itoa: "int64_range i \<Longrightarrow> parse_int (itoa i) = Some i"
  using parse_int_nat_str [of "nat i"] by (auto simp: itoa_def parse_int_def)

lemma itoa_inj: "itoa i = itoa j \<Longrightarrow> i = j"
proof -
  have hd_neg: "hd (nat_str n) \<noteq> CHR ''-''" for n
    using nat_str_digits [of "hd (nat_str n)" n] is_digit_not_sign by auto
  have inj: "nat_str m = nat_str n \<Longrightarrow> m = n" for m n
    by (metis option.inject parse_nat_nat_str)
  assume "itoa i = itoa j"
  then show "i = j"
    using hd_neg [of "nat i"] hd_neg [of "nat j"]
    by (auto simp: itoa_def split: if_splits dest!: inj) (metis list.sel(1))+
qed

section \<open>Zero-padded decimals\<close>

text \<open>
  \<open>zero_pad w n\<close> is how the \<open>time\<close> package prints a field of width \<open>w\<close>: padded with zeros,
  longer when the number does not fit. \<open>dec w n\<close> is the fixed-width form it amounts to on
  numbers below \<open>10 ^ w\<close>, which the proofs use.
\<close>

definition zero_pad :: "nat \<Rightarrow> nat \<Rightarrow> string" where
  "zero_pad w n = replicate (w - length (nat_str n)) CHR ''0'' @ nat_str n"

fun dec :: "nat \<Rightarrow> nat \<Rightarrow> string" where
  "dec 0 n = []"
| "dec (Suc w) n = dec w (n div 10) @ [digit (n mod 10)]"

lemma length_dec [simp]: "length (dec w n) = w"
  by (induction w arbitrary: n) auto

lemma digit_0: "digit 0 = CHR ''0''"
  by code_simp

lemma dec_0: "dec w 0 = replicate w CHR ''0''"
  by (induction w) (auto simp: digit_0 replicate_append_same)

lemma digits_val_zeros: "digits_val 0 (replicate k CHR ''0'' @ s) = digits_val 0 s"
  by (induction k) (auto simp: is_digit_def digit_val_def less_eq_char_def)

lemma dec_eq_pad: "n < 10 ^ w \<Longrightarrow> 0 < w \<Longrightarrow> dec w n = zero_pad w n"
proof (induction w arbitrary: n)
  case (Suc w)
  show ?case
  proof (cases "n < 10")
    case True
    then show ?thesis by (simp add: dec_0 zero_pad_def nat_str.simps [of n])
  next
    case False
    with Suc.prems have "n div 10 < 10 ^ w" "0 < w" by (auto intro: gr0I)
    then have "dec w (n div 10) = zero_pad w (n div 10)" by (rule Suc.IH)
    with False show ?thesis by (simp add: zero_pad_def nat_str.simps [of n])
  qed
qed simp

lemma digits_val_dec: "digits_val a (dec w n) = Some (a * 10 ^ w + n mod 10 ^ w)"
proof (induction w arbitrary: n)
  case (Suc w)
  have "n mod 10 ^ Suc w = 10 * (n div 10 mod 10 ^ w) + n mod 10"
    by (simp add: mod_mult2_eq)
  with Suc show ?case
    by (simp add: digits_val_append digit_facts algebra_simps)
qed simp

lemma dec_digits: "c \<in> set (dec w n) \<Longrightarrow> is_digit c"
  by (induction w arbitrary: n) (auto simp: digit_facts)

lemma less_by_last_digit:
  fixes m n :: nat
  shows "m < n \<longleftrightarrow> m div 10 < n div 10 \<or> (m div 10 = n div 10 \<and> m mod 10 < n mod 10)"
proof -
  have "10 * a + b < 10 * c + d \<longleftrightarrow> a < c \<or> (a = c \<and> b < d)"
    if "b < 10" "d < 10" for a b c d :: nat
    using that by arith
  from this [of "m mod 10" "n mod 10" "m div 10" "n div 10"] show ?thesis by simp
qed

lemma dec_less_iff:
  "m < 10 ^ w \<Longrightarrow> n < 10 ^ w \<Longrightarrow> dec w m < dec w n \<longleftrightarrow> m < n"
proof (induction w arbitrary: m n)
  case (Suc w)
  have IH: "dec w (m div 10) < dec w (n div 10) \<longleftrightarrow> m div 10 < n div 10"
    using Suc by (simp add: less_mult_imp_div_less mult.commute)
  have inj: "dec w (m div 10) = dec w (n div 10) \<longleftrightarrow> m div 10 = n div 10"
  proof -
    have "m div 10 < 10 ^ w" "n div 10 < 10 ^ w"
      using Suc.prems by (simp_all add: less_mult_imp_div_less mult.commute)
    then show ?thesis
      using Suc.IH [of "m div 10" "n div 10"] Suc.IH [of "n div 10" "m div 10"]
      by (cases "m div 10" "n div 10" rule: linorder_cases) auto
  qed
  have "m < n \<longleftrightarrow> m div 10 < n div 10 \<or> (m div 10 = n div 10 \<and> m mod 10 < n mod 10)"
    by (rule less_by_last_digit)
  then show ?case
    by (simp add: lex_append_eq_length IH inj digit_less_iff)
qed simp

lemma dec_inj: "m < 10 ^ w \<Longrightarrow> n < 10 ^ w \<Longrightarrow> dec w m = dec w n \<longleftrightarrow> m = n"
  using dec_less_iff [of m w n] dec_less_iff [of n w m] by auto

end
