(* ===== verification/Gotime.thy ===== *)
theory Gotime
  imports Gotext "HOL-Library.Monad_Syntax"
begin

text \<open>
  The parts of Go's \<open>time\<close> package the program calls. An instant is a number of nanoseconds
  since 1970-01-01T00:00:00Z, a \<open>time.Time\<close> an instant with the offset of its location. The
  four layouts the program formats with, the RFC 3339 parser it reads its own timestamps
  back with, and the two facts the rest depends on: formatting is a right inverse of
  parsing, and the fixed-width lease layout is ordered like the instants.
\<close>

section \<open>Civil dates\<close>

text \<open>
  Days count from 1970-01-01. \<open>civil_of_days\<close> peels off 400-, 100-, 4- and 1-year cycles
  counted from the year 1, so that the leap day ends its cycle.
\<close>

definition is_leap :: "int \<Rightarrow> bool" where
  "is_leap y \<longleftrightarrow> y mod 4 = 0 \<and> (y mod 100 \<noteq> 0 \<or> y mod 400 = 0)"

definition month_lengths :: "int \<Rightarrow> int list" where
  "month_lengths y = [31, if is_leap y then 29 else 28, 31, 30, 31, 30, 31, 31, 30, 31, 30, 31]"

definition year_length :: "int \<Rightarrow> int" where
  "year_length y = (if is_leap y then 366 else 365)"

fun month_day :: "int list \<Rightarrow> int \<Rightarrow> int \<Rightarrow> int \<times> int" where
  "month_day [] m d = (m, d + 1)"
| "month_day (l # ls) m d = (if d < l then (m, d + 1) else month_day ls (m + 1) (d - l))"

definition year_yday :: "int \<Rightarrow> int \<times> int" where
  "year_yday n =
     (let a = n div 146097; r = n mod 146097;
          b = min 3 (r div 36524); r1 = r - 36524 * b;
          c = r1 div 1461; r2 = r1 - 1461 * c;
          d = min 3 (r2 div 365)
      in (400 * a + 100 * b + 4 * c + d + 1, r2 - 365 * d))"

definition unix_epoch_day :: int where
  "unix_epoch_day = 719162" \<comment> \<open>days from 0001-01-01 to 1970-01-01\<close>

definition civil_of_days :: "int \<Rightarrow> int \<times> int \<times> int" where
  "civil_of_days z =
     (let (y, yd) = year_yday (z + unix_epoch_day); (m, d) = month_day (month_lengths y) 1 yd
      in (y, m, d))"

definition days_before_year :: "int \<Rightarrow> int" where
  "days_before_year y = (let p = y - 1 in 365 * p + p div 4 - p div 100 + p div 400)"

definition days_of_civil :: "int \<Rightarrow> int \<Rightarrow> int \<Rightarrow> int" where
  "days_of_civil y m d =
     days_before_year y + sum_list (take (nat (m - 1)) (month_lengths y)) + (d - 1) - unix_epoch_day"

definition valid_civil :: "int \<Rightarrow> int \<Rightarrow> int \<Rightarrow> bool" where
  "valid_civil y m d \<longleftrightarrow> 1 \<le> m \<and> m \<le> 12 \<and> 1 \<le> d \<and> d \<le> month_lengths y ! nat (m - 1)"

lemma sum_month_lengths: "sum_list (month_lengths y) = year_length y"
  by (simp add: month_lengths_def year_length_def)

lemma length_month_lengths [simp]: "length (month_lengths y) = 12"
  by (simp add: month_lengths_def)

lemma year_cycles:
  fixes a b c d :: int
  assumes "0 \<le> b" "b \<le> 3" "0 \<le> c" "c \<le> 24" "0 \<le> d" "d \<le> 3"
  defines "y \<equiv> 400 * a + 100 * b + 4 * c + d + 1"
  shows "days_before_year y = 146097 * a + 36524 * b + 1461 * c + 365 * d"
    and "is_leap y \<longleftrightarrow> d = 3 \<and> (c \<noteq> 24 \<or> b = 3)"
proof -
  have 4: "(y - 1) div 4 = 100 * a + 25 * b + c"
    by (rule int_div_pos_eq [where r = d]) (use assms in auto)
  have 100: "(y - 1) div 100 = 4 * a + b"
    by (rule int_div_pos_eq [where r = "4 * c + d"]) (use assms in auto)
  have 400: "(y - 1) div 400 = a"
    by (rule int_div_pos_eq [where r = "100 * b + 4 * c + d"]) (use assms in auto)
  show "days_before_year y = 146097 * a + 36524 * b + 1461 * c + 365 * d"
    unfolding days_before_year_def Let_def 4 100 400 by (simp add: y_def)
  have m4: "y mod 4 = (if d = 3 then 0 else d + 1)"
  proof (cases "d = 3")
    case True
    then have "y = 4 * (100 * a + 25 * b + c + 1)" by (simp add: y_def)
    with True show ?thesis by simp
  next
    case False
    then show ?thesis
      by (simp, intro int_mod_pos_eq [where q = "100 * a + 25 * b + c"]) (use assms in auto)
  qed
  have m100: "y mod 100 = 0 \<longleftrightarrow> d = 3 \<and> c = 24"
  proof (cases "d = 3 \<and> c = 24")
    case True
    then have "y = 100 * (4 * a + b + 1)" by (simp add: y_def)
    with True show ?thesis by simp
  next
    case False
    with assms have "4 * c + d + 1 < 100" by auto
    then have "y mod 100 = 4 * c + d + 1"
      by (intro int_mod_pos_eq [where q = "4 * a + b"]) (use assms in auto)
    with False assms show ?thesis by auto
  qed
  have m400: "y mod 400 = 0 \<longleftrightarrow> d = 3 \<and> c = 24 \<and> b = 3"
  proof (cases "d = 3 \<and> c = 24 \<and> b = 3")
    case True
    then have "y = 400 * (a + 1)" by (simp add: y_def)
    with True show ?thesis by simp
  next
    case False
    with assms have "100 * b + 4 * c + d + 1 < 400" by auto
    then have "y mod 400 = 100 * b + 4 * c + d + 1"
      by (intro int_mod_pos_eq [where q = a]) (use assms in auto)
    with False assms show ?thesis by auto
  qed
  show "is_leap y \<longleftrightarrow> d = 3 \<and> (c \<noteq> 24 \<or> b = 3)"
    unfolding is_leap_def m4 m100 m400 using assms by auto
qed

lemma div_bounds:
  fixes k x :: int
  assumes "0 < k"
  shows "k * (x div k) \<le> x" and "x < k * (x div k) + k"
proof -
  have eq: "k * (x div k) + x mod k = x" by simp
  show "k * (x div k) \<le> x" using eq pos_mod_sign [OF assms, of x] by linarith
  show "x < k * (x div k) + k" using eq pos_mod_bound [OF assms, of x] by linarith
qed

lemma min_div_bounds:
  fixes k x n :: int
  assumes "0 \<le> x" "0 < k" "0 \<le> n"
  shows "0 \<le> min n (x div k)" and "min n (x div k) \<le> n" and "k * min n (x div k) \<le> x"
    and "min n (x div k) < n \<Longrightarrow> x < k * min n (x div k) + k"
proof -
  have q: "0 \<le> x div k" using assms by (simp add: pos_imp_zdiv_nonneg_iff)
  have "k * min n (x div k) \<le> k * (x div k)"
    using assms(2) by (intro mult_left_mono) auto
  with div_bounds(1) [OF assms(2), of x] show "k * min n (x div k) \<le> x" by linarith
  show "min n (x div k) < n \<Longrightarrow> x < k * min n (x div k) + k"
    using div_bounds(2) [OF assms(2)] by (simp add: min_def split: if_splits)
  show "0 \<le> min n (x div k)" "min n (x div k) \<le> n" using q assms(3) by auto
qed

lemma year_yday_correct:
  assumes "year_yday n = (y, yd)"
  shows "days_before_year y + yd = n" and "0 \<le> yd" and "yd < year_length y"
proof -
  define a r where "a = n div 146097" and "r = n mod 146097"
  define b where "b = min 3 (r div 36524)"
  define r1 where "r1 = r - 36524 * b"
  define c where "c = r1 div 1461"
  define r2 where "r2 = r1 - 1461 * c"
  define d where "d = min 3 (r2 div 365)"
  have "year_yday n = (400 * a + 100 * b + 4 * c + d + 1, r2 - 365 * d)"
    unfolding year_yday_def Let_def a_def r_def b_def r1_def c_def r2_def d_def by (rule refl)
  with assms have y: "y = 400 * a + 100 * b + 4 * c + d + 1" and yd: "yd = r2 - 365 * d"
    by simp_all
  have r: "0 \<le> r" "r < 146097" by (simp_all add: r_def)
  have b: "0 \<le> b" "b \<le> 3" and r1: "0 \<le> r1" "r1 \<le> 36524" and r1b: "b < 3 \<Longrightarrow> r1 < 36524"
    using min_div_bounds [of r 36524 3] r unfolding r1_def b_def by auto
  have c: "0 \<le> c" "c \<le> 24" and r2: "0 \<le> r2" "r2 \<le> 1460"
    using div_bounds [of 1461 r1] r1 unfolding r2_def c_def by auto
  have d: "0 \<le> d" "d \<le> 3" and yd0: "0 \<le> yd" and yd1: "yd \<le> 365"
    and yd2: "yd = 365 \<Longrightarrow> d = 3 \<and> r2 = 1460"
    using min_div_bounds [of r2 365 3] r2 unfolding yd d_def by auto
  note cyc = year_cycles [OF b c d, of a, folded y]
  have n: "n = 146097 * a + r" by (simp add: a_def r_def)
  show "days_before_year y + yd = n"
    unfolding cyc(1) yd n r2_def r1_def by simp
  show "0 \<le> yd" by (rule yd0)
  show "yd < year_length y"
  proof (cases "yd = 365")
    case True
    with yd2 have "d = 3" "r2 = 1460" by auto
    moreover have "c = 24 \<Longrightarrow> b = 3"
      using r1b b \<open>r2 = 1460\<close> unfolding r2_def by (cases "b < 3") auto
    ultimately have "is_leap y" by (auto simp: cyc(2))
    with True show ?thesis by (simp add: year_length_def)
  next
    case False
    with yd1 show ?thesis by (simp add: year_length_def)
  qed
qed

lemma month_day_correct:
  "0 \<le> d \<Longrightarrow> d < sum_list ls \<Longrightarrow> month_day ls m d = (m', d') \<Longrightarrow>
   m \<le> m' \<and> m' < m + int (length ls) \<and> 1 \<le> d' \<and> d' \<le> ls ! nat (m' - m) \<and>
   sum_list (take (nat (m' - m)) ls) + (d' - 1) = d"
proof (induction ls m d rule: month_day.induct)
  case (2 l ls m d)
  show ?case
  proof (cases "d < l")
    case True
    with "2.prems" show ?thesis by auto
  next
    case False
    with "2.IH" "2.prems" have
      IH: "m + 1 \<le> m'" "m' < m + 1 + int (length ls)" "1 \<le> d'" "d' \<le> ls ! nat (m' - (m + 1))"
        "sum_list (take (nat (m' - (m + 1))) ls) + (d' - 1) = d - l"
      by auto
    then have "nat (m' - m) = Suc (nat (m' - (m + 1)))" by linarith
    with IH show ?thesis by simp
  qed
qed simp

lemma civil_of_days_correct:
  assumes "civil_of_days z = (y, m, d)"
  shows "valid_civil y m d" and "days_of_civil y m d = z"
proof -
  obtain yd where yd: "year_yday (z + unix_epoch_day) = (y, yd)"
    and md: "month_day (month_lengths y) 1 yd = (m, d)"
    using assms by (auto simp: civil_of_days_def Let_def split: prod.splits)
  note yy = year_yday_correct [OF yd]
  have "1 \<le> m \<and> m < 1 + int (length (month_lengths y)) \<and> 1 \<le> d \<and>
      d \<le> month_lengths y ! nat (m - 1) \<and>
      sum_list (take (nat (m - 1)) (month_lengths y)) + (d - 1) = yd"
    by (rule month_day_correct [OF _ _ md]) (use yy in \<open>simp_all add: sum_month_lengths\<close>)
  with yy(1) show "valid_civil y m d" "days_of_civil y m d = z"
    by (auto simp: valid_civil_def days_of_civil_def)
qed

section \<open>Dates are ordered like days\<close>

definition date_less :: "int \<times> int \<times> int \<Rightarrow> int \<times> int \<times> int \<Rightarrow> bool" where
  "date_less = (\<lambda>(y, m, d) (y', m', d').
     y < y' \<or> (y = y' \<and> (m < m' \<or> (m = m' \<and> d < d'))))"

lemma div_pred:
  fixes y k :: int
  assumes "0 < k"
  shows "y div k = (y - 1) div k + (if y mod k = 0 then 1 else 0)"
proof -
  have y: "y = k * (y div k) + y mod k" by simp
  have r: "0 \<le> y mod k" "y mod k < k" using assms by simp_all
  show ?thesis
  proof (cases "y mod k = 0")
    case True
    with y have "y - 1 = k * (y div k - 1) + (k - 1)" by (simp add: algebra_simps)
    then have "(y - 1) div k = y div k - 1"
      by (rule int_div_pos_eq) (use assms in auto)
    with True show ?thesis by simp
  next
    case False
    from y have "y - 1 = k * (y div k) + (y mod k - 1)" by simp
    then have "(y - 1) div k = y div k"
      by (rule int_div_pos_eq) (use r False in auto)
    with False show ?thesis by simp
  qed
qed

lemma days_before_next_year: "days_before_year (y + 1) = days_before_year y + year_length y"
proof -
  have gen: "365 * y + (a + (if p then 1 else 0)) - (b + (if q then 1 else 0)) +
      (c + (if r then 1 else 0)) =
      365 * (y - 1) + a - b + c + (if p \<and> (\<not> q \<or> r) then 366 else 365)"
    if "r \<Longrightarrow> q" "q \<Longrightarrow> p" for a b c :: int and p q r
    using that by (cases p; cases q; cases r) simp_all
  have "y mod 400 = 0 \<Longrightarrow> y mod 100 = 0" "y mod 100 = 0 \<Longrightarrow> y mod 4 = 0"
    by (erule mod_eq_0_iff_dvd [THEN iffD1, THEN dvd_trans [rotated], THEN mod_eq_0_iff_dvd [THEN iffD2]],
        simp)+
  from gen [OF this, where a = "(y - 1) div 4" and b = "(y - 1) div 100" and c = "(y - 1) div 400"]
  show ?thesis
    unfolding days_before_year_def year_length_def is_leap_def Let_def add_diff_cancel_right'
    unfolding div_pred [OF zero_less_numeral, where y = y] .
qed

lemma year_length_pos: "0 < year_length y"
  by (simp add: year_length_def)

lemma days_before_year_mono: "y \<le> y' \<Longrightarrow> days_before_year y \<le> days_before_year y'"
proof (induction y' rule: int_ge_induct)
  case (step i)
  then show ?case using year_length_pos [of i] by (simp add: days_before_next_year)
qed simp

lemma month_lengths_bounds: "l \<in> set (month_lengths y) \<Longrightarrow> 28 \<le> l \<and> l \<le> 31"
  by (auto simp: month_lengths_def split: if_splits)

lemma sum_take_mono:
  fixes ls :: "int list"
  assumes "i \<le> j" and "\<forall>l \<in> set ls. 0 \<le> l"
  shows "sum_list (take i ls) \<le> sum_list (take j ls)"
proof -
  have "take j ls = take i ls @ take (j - i) (drop i ls)"
    using assms(1) by (metis le_add_diff_inverse take_add)
  moreover have "0 \<le> sum_list (take (j - i) (drop i ls))"
    using assms(2) by (intro sum_list_nonneg) (meson in_set_dropD in_set_takeD)
  ultimately show ?thesis by simp
qed

lemma yday_before_later_month:
  assumes "valid_civil y m d" and "nat (m - 1) < k"
  shows "sum_list (take (nat (m - 1)) (month_lengths y)) + d \<le> sum_list (take k (month_lengths y))"
proof -
  let ?i = "nat (m - 1)"
  have i: "?i < length (month_lengths y)" and d: "d \<le> month_lengths y ! ?i"
    using assms(1) by (auto simp: valid_civil_def)
  have "sum_list (take ?i (month_lengths y)) + d \<le> sum_list (take (Suc ?i) (month_lengths y))"
    using d by (simp add: take_Suc_conv_app_nth [OF i])
  also have "\<dots> \<le> sum_list (take k (month_lengths y))"
    using assms(2) month_lengths_bounds by (intro sum_take_mono) (auto, force)
  finally show ?thesis .
qed

lemma days_of_civil_mono:
  assumes v: "valid_civil y m d" "valid_civil y' m' d'" and less: "date_less (y, m, d) (y', m', d')"
  shows "days_of_civil y m d < days_of_civil y' m' d'"
proof -
  consider "y < y'" | "y = y'" "m < m'" | "y = y'" "m = m'" "d < d'"
    using less by (auto simp: date_less_def)
  then show ?thesis
  proof cases
    case 1
    have "sum_list (take (nat (m - 1)) (month_lengths y)) + d \<le> year_length y"
      using yday_before_later_month [OF v(1), of 12] v(1)
      by (auto simp: valid_civil_def sum_month_lengths)
    moreover have "days_before_year y + year_length y \<le> days_before_year y'"
      using days_before_year_mono [of "y + 1" y'] 1 by (simp add: days_before_next_year)
    moreover have "0 \<le> sum_list (take (nat (m' - 1)) (month_lengths y'))"
      using month_lengths_bounds by (intro sum_list_nonneg) (force dest: in_set_takeD)
    ultimately show ?thesis using v(2) by (auto simp: days_of_civil_def valid_civil_def)
  next
    case 2
    then show ?thesis
      using yday_before_later_month [OF v(1), of "nat (m' - 1)"] v
      by (auto simp: days_of_civil_def valid_civil_def)
  next
    case 3
    then show ?thesis by (simp add: days_of_civil_def)
  qed
qed

lemma civil_of_days_mono:
  assumes "z < z'"
  shows "date_less (civil_of_days z) (civil_of_days z')"
proof -
  obtain y m d y' m' d' where c: "civil_of_days z = (y, m, d)" "civil_of_days z' = (y', m', d')"
    by (metis prod.exhaust)
  note f = civil_of_days_correct [OF c(1)] civil_of_days_correct [OF c(2)]
  have "\<not> date_less (y', m', d') (y, m, d)" "(y, m, d) \<noteq> (y', m', d')"
    using days_of_civil_mono [OF f(3) f(1)] f(2,4) assms by auto
  then show ?thesis unfolding c by (auto simp: date_less_def)
qed

section \<open>time.Time\<close>

datatype gotime = GoTime (inst: int) (zone: int)
  \<comment> \<open>nanoseconds since the Unix epoch; seconds east of UTC of its location\<close>

instantiation gotime :: preorder
begin

definition less_eq_gotime :: "gotime \<Rightarrow> gotime \<Rightarrow> bool" where
  "t \<le> u \<longleftrightarrow> inst t \<le> inst u"

definition less_gotime :: "gotime \<Rightarrow> gotime \<Rightarrow> bool" where
  "t < u \<longleftrightarrow> inst t < inst u"

instance
  by standard (auto simp: less_eq_gotime_def less_gotime_def)

end

text \<open>\<open>t.UTC()\<close>, \<open>t.Add(d)\<close> and \<open>t.After(u)\<close>: the location does not take part in
  comparisons.\<close>

definition utc :: "gotime \<Rightarrow> gotime" where
  "utc t = GoTime (inst t) 0"

definition add_time :: "gotime \<Rightarrow> int \<Rightarrow> gotime" where
  "add_time t d = GoTime (inst t + d) (zone t)"

definition after :: "gotime \<Rightarrow> gotime \<Rightarrow> bool" where
  "after t u \<longleftrightarrow> u < t"

lemma after_iff [simp]: "after t u \<longleftrightarrow> inst u < inst t"
  by (simp add: after_def less_gotime_def)

definition second_ns :: int where "second_ns = 1000000000"
definition day_ns :: int where "day_ns = 86400 * 1000000000"

definition local_ns :: "gotime \<Rightarrow> int" where
  "local_ns t = inst t + zone t * second_ns"

definition t_date :: "gotime \<Rightarrow> int \<times> int \<times> int" where
  "t_date t = civil_of_days (local_ns t div day_ns)"

definition t_sod :: "gotime \<Rightarrow> nat" where
  "t_sod t = nat (local_ns t mod day_ns div second_ns)"

definition t_nano :: "gotime \<Rightarrow> nat" where
  "t_nano t = nat (local_ns t mod second_ns)"

section \<open>Layouts\<close>

definition pad_int :: "nat \<Rightarrow> int \<Rightarrow> string" where
  "pad_int w i = (if i < 0 then CHR ''-'' # zero_pad w (nat (- i)) else zero_pad w (nat i))"

definition fmt_ymd :: "gotime \<Rightarrow> string" where
  "fmt_ymd t =
     (let (y, m, d) = t_date t in pad_int 4 y @ ''-'' @ pad_int 2 m @ ''-'' @ pad_int 2 d)"

definition fmt_hms :: "gotime \<Rightarrow> string" where
  "fmt_hms t =
     zero_pad 2 (t_sod t div 3600) @ '':'' @ zero_pad 2 (t_sod t div 60 mod 60) @ '':'' @
     zero_pad 2 (t_sod t mod 60)"

definition trim_zeros :: "string \<Rightarrow> string" where
  "trim_zeros s = rev (dropWhile (\<lambda>c. c = CHR ''0'') (rev s))"

text \<open>The \<open>.999...\<close> of a layout: \<open>w\<close> digits, trailing zeros and then a bare point dropped.\<close>

definition frac :: "nat \<Rightarrow> nat \<Rightarrow> string" where
  "frac w ns = (let ds = trim_zeros (take w (zero_pad 9 ns)) in if ds = [] then [] else CHR ''.'' # ds)"

definition fmt_zone :: "gotime \<Rightarrow> string" where
  "fmt_zone t =
     (let mins = \<bar>zone t\<bar> div 60
      in if zone t = 0 then ''Z''
         else (if zone t < 0 then ''-'' else ''+'') @ pad_int 2 (mins div 60) @ '':'' @ pad_int 2 (mins mod 60))"

text \<open>\<open>2006-01-02 15:04:05.000000000\<close> (lease), \<open>2006-01-02 15:04:05.999999\<close> (watermark
  literal), \<open>time.RFC3339\<close> (run log) and \<open>time.RFC3339Nano\<close> (stored watermark).\<close>

definition fmt_lease :: "gotime \<Rightarrow> string" where
  "fmt_lease t = fmt_ymd t @ '' '' @ fmt_hms t @ ''.'' @ zero_pad 9 (t_nano t)"

definition fmt_micro :: "gotime \<Rightarrow> string" where
  "fmt_micro t = fmt_ymd t @ '' '' @ fmt_hms t @ frac 6 (t_nano t)"

definition fmt_rfc3339 :: "gotime \<Rightarrow> string" where
  "fmt_rfc3339 t = fmt_ymd t @ ''T'' @ fmt_hms t @ fmt_zone t"

definition fmt_rfc3339nano :: "gotime \<Rightarrow> string" where
  "fmt_rfc3339nano t = fmt_ymd t @ ''T'' @ fmt_hms t @ frac 9 (t_nano t) @ fmt_zone t"

section \<open>Fields of an instant\<close>

lemma second_ns_pos [simp]: "0 < second_ns"
  by (simp add: second_ns_def)

lemma day_ns_seconds: "day_ns = second_ns * 86400"
  by (simp add: day_ns_def second_ns_def)

lemma t_sod_bound: "t_sod t < 86400" and t_sod_int: "int (t_sod t) = local_ns t div second_ns mod 86400"
proof -
  have "local_ns t mod day_ns = second_ns * (local_ns t div second_ns mod 86400) + local_ns t mod second_ns"
    unfolding day_ns_seconds by (rule zmod_zmult2_eq) simp
  then have eq: "local_ns t mod day_ns div second_ns = local_ns t div second_ns mod 86400"
    by (simp add: div_add1_eq)
  have bound: "0 \<le> local_ns t div second_ns mod 86400" "local_ns t div second_ns mod 86400 < 86400"
    by simp_all
  show "t_sod t < 86400"
    unfolding t_sod_def eq using bound(2) nat_less_iff [OF bound(1), of 86400] by simp
  show "int (t_sod t) = local_ns t div second_ns mod 86400"
    unfolding t_sod_def eq using bound(1) by simp
qed

lemma t_nano_bound: "t_nano t < 1000000000" and t_nano_int: "int (t_nano t) = local_ns t mod second_ns"
  using pos_mod_bound [OF second_ns_pos, of "local_ns t"] pos_mod_sign [OF second_ns_pos, of "local_ns t"]
  by (simp_all add: t_nano_def second_ns_def)

lemma local_ns_parts:
  "local_ns t = (local_ns t div day_ns * 86400 + int (t_sod t)) * second_ns + int (t_nano t)"
proof -
  have "local_ns t div day_ns = local_ns t div second_ns div 86400"
    unfolding day_ns_seconds by (rule zdiv_zmult2_eq) simp
  then have "local_ns t div day_ns * 86400 + int (t_sod t) = local_ns t div second_ns"
    unfolding t_sod_int by simp
  then show ?thesis unfolding t_nano_int by simp
qed

lemma t_date_valid: "t_date t = (y, m, d) \<Longrightarrow> valid_civil y m d"
  and t_date_days: "t_date t = (y, m, d) \<Longrightarrow> days_of_civil y m d = local_ns t div day_ns"
  by (simp_all add: t_date_def civil_of_days_correct)

text \<open>The years 0 to 9999, which four digits and RFC 3339 can express.\<close>

definition year_ok :: "gotime \<Rightarrow> bool" where
  "year_ok t \<longleftrightarrow> 0 \<le> fst (t_date t) \<and> fst (t_date t) \<le> 9999"

section \<open>The lease layout is ordered like the instants\<close>

lemma less_by_div:
  fixes m n k :: nat
  assumes "0 < k"
  shows "m < n \<longleftrightarrow> m div k < n div k \<or> (m div k = n div k \<and> m mod k < n mod k)"
proof (cases "m div k" "n div k" rule: linorder_cases)
  case less
  then show ?thesis by (metis div_le_mono leD leI)
next
  case equal
  have "m = k * (m div k) + m mod k" "n = k * (n div k) + n mod k" by simp_all
  with equal show ?thesis by (metis nat_add_left_cancel_less less_irrefl)
next
  case greater
  then show ?thesis by (metis div_le_mono leD leI less_asym nat_neq_iff)
qed

definition hms_dec :: "nat \<Rightarrow> string" where
  "hms_dec s = dec 2 (s div 3600) @ '':'' @ dec 2 (s div 60 mod 60) @ '':'' @ dec 2 (s mod 60)"

definition ymd_dec :: "int \<times> int \<times> int \<Rightarrow> string" where
  "ymd_dec = (\<lambda>(y, m, d). dec 4 (nat y) @ ''-'' @ dec 2 (nat m) @ ''-'' @ dec 2 (nat d))"

lemma length_hms_dec [simp]: "length (hms_dec s) = 8"
  by (simp add: hms_dec_def)

lemma length_ymd_dec [simp]: "length (ymd_dec c) = 10"
  by (simp add: ymd_dec_def split: prod.splits)

lemma hms_fields:
  assumes "s < 86400"
  shows "s div 3600 < 10 ^ 2" and "s div 60 mod 60 < 10 ^ 2" and "s mod 60 < (10 ^ 2 :: nat)"
proof -
  have "s div 3600 < 24" using assms by (simp add: less_mult_imp_div_less)
  then show "s div 3600 < 10 ^ 2" by simp
  have "s div 60 mod 60 < 60" "s mod 60 < 60" by simp_all
  then show "s div 60 mod 60 < 10 ^ 2" "s mod 60 < 10 ^ 2" by simp_all
qed

lemma fmt_hms_dec: "fmt_hms t = hms_dec (t_sod t)"
  using hms_fields [OF t_sod_bound, of t]
  by (simp add: fmt_hms_def hms_dec_def flip: dec_eq_pad)

lemma month_length_le: "valid_civil y m d \<Longrightarrow> d \<le> 31"
proof -
  assume v: "valid_civil y m d"
  then have "month_lengths y ! nat (m - 1) \<in> set (month_lengths y)"
    by (intro nth_mem) (auto simp: valid_civil_def)
  with month_lengths_bounds v show "d \<le> 31" by (force simp: valid_civil_def)
qed

lemma fmt_ymd_dec:
  assumes "year_ok t"
  shows "fmt_ymd t = ymd_dec (t_date t)"
proof -
  obtain y m d where c: "t_date t = (y, m, d)" by (metis prod.exhaust)
  have v: "valid_civil y m d" using c by (rule t_date_valid)
  have "0 \<le> y" "nat y < 10 ^ 4" "0 \<le> m" "nat m < 10 ^ 2" "0 \<le> d" "nat d < 10 ^ 2"
    using assms v month_length_le [OF v] by (auto simp: year_ok_def c valid_civil_def)
  then show ?thesis
    by (simp add: fmt_ymd_def c ymd_dec_def pad_int_def flip: dec_eq_pad)
qed

lemma hms_dec_less:
  assumes "s < 86400" "u < 86400"
  shows "hms_dec s < hms_dec u \<longleftrightarrow> s < u"
proof -
  have div: "n div 3600 = n div 60 div 60" for n :: nat by (simp add: div_mult2_eq)
  have "hms_dec s < hms_dec u \<longleftrightarrow>
      s div 3600 < u div 3600 \<or> (s div 3600 = u div 3600 \<and>
        (s div 60 mod 60 < u div 60 mod 60 \<or> (s div 60 mod 60 = u div 60 mod 60 \<and> s mod 60 < u mod 60)))"
    using hms_fields [OF assms(1)] hms_fields [OF assms(2)]
    by (simp add: hms_dec_def lex_append_eq_length dec_less_iff dec_inj)
  also have "\<dots> \<longleftrightarrow> s div 60 < u div 60 \<or> (s div 60 = u div 60 \<and> s mod 60 < u mod 60)"
    unfolding div less_by_div [of 60 "s div 60" "u div 60", simplified]
    by (metis div_mult_mod_eq)
  also have "\<dots> \<longleftrightarrow> s < u" using less_by_div [of 60 s u] by simp
  finally show ?thesis .
qed

lemma ymd_dec_less:
  assumes "valid_civil y m d" "valid_civil y' m' d'" "0 \<le> y" "y \<le> 9999" "0 \<le> y'" "y' \<le> 9999"
  shows "ymd_dec (y, m, d) < ymd_dec (y', m', d') \<longleftrightarrow> date_less (y, m, d) (y', m', d')"
    and "ymd_dec (y, m, d) = ymd_dec (y', m', d') \<longleftrightarrow> (y, m, d) = (y', m', d')"
proof -
  have "nat y < 10 ^ 4" "nat y' < 10 ^ 4" "nat m < 10 ^ 2" "nat m' < 10 ^ 2" "nat d < 10 ^ 2"
    "nat d' < 10 ^ 2" "0 \<le> m" "0 \<le> m'" "0 \<le> d" "0 \<le> d'"
    using assms month_length_le [OF assms(1)] month_length_le [OF assms(2)]
    by (auto simp: valid_civil_def)
  then show "ymd_dec (y, m, d) < ymd_dec (y', m', d') \<longleftrightarrow> date_less (y, m, d) (y', m', d')"
    and "ymd_dec (y, m, d) = ymd_dec (y', m', d') \<longleftrightarrow> (y, m, d) = (y', m', d')"
    using assms(3-6)
    by (auto simp: ymd_dec_def date_less_def lex_append_eq_length dec_less_iff dec_inj
        nat_less_eq_zless eq_nat_nat_iff)
qed

lemma civil_of_days_less_iff: "date_less (civil_of_days z) (civil_of_days z') \<longleftrightarrow> z < z'"
  and civil_of_days_inj: "civil_of_days z = civil_of_days z' \<longleftrightarrow> z = z'"
proof -
  have irrefl: "\<not> date_less c c" and asym: "date_less c c' \<Longrightarrow> \<not> date_less c' c" for c c'
    by (auto simp: date_less_def)
  show "date_less (civil_of_days z) (civil_of_days z') \<longleftrightarrow> z < z'"
    and "civil_of_days z = civil_of_days z' \<longleftrightarrow> z = z'"
    using civil_of_days_mono [of z z'] civil_of_days_mono [of z' z] irrefl asym
    by (cases z z' rule: linorder_cases; metis)+
qed

lemma lex_parts_less:
  fixes z z' s s' n n' :: int
  assumes "0 \<le> s" "s < 86400" "0 \<le> s'" "s' < 86400"
    and "0 \<le> n" "n < 1000000000" "0 \<le> n'" "n' < 1000000000"
  shows "(z * 86400 + s) * 1000000000 + n < (z' * 86400 + s') * 1000000000 + n' \<longleftrightarrow>
    z < z' \<or> (z = z' \<and> (s < s' \<or> (s = s' \<and> n < n')))"
proof -
  have 1: "z * 86400 + s < z' * 86400 + s' \<longleftrightarrow> z < z' \<or> (z = z' \<and> s < s')"
    and 3: "z' * 86400 + s' < z * 86400 + s \<longleftrightarrow> z' < z \<or> (z' = z \<and> s' < s)"
    using assms(1-4) by linarith+
  from 1 3 have 2: "z * 86400 + s = z' * 86400 + s' \<longleftrightarrow> z = z' \<and> s = s'"
    by (metis linorder_neqE_linordered_idom less_irrefl)
  have 4: "p * 1000000000 + n < q * 1000000000 + n' \<longleftrightarrow> p < q \<or> (p = q \<and> n < n')" for p q
    using assms(5-8) by linarith
  show ?thesis unfolding 4 1 2 by blast
qed

lemma fmt_lease_dec:
  "year_ok t \<Longrightarrow> fmt_lease t = ymd_dec (t_date t) @ '' '' @ hms_dec (t_sod t) @ ''.'' @ dec 9 (t_nano t)"
  using t_nano_bound [of t] by (simp add: fmt_lease_def fmt_ymd_dec fmt_hms_dec flip: dec_eq_pad)

lemma fmt_lease_less_iff:
  assumes ok: "year_ok a" "year_ok b" and z: "zone a = 0" "zone b = 0"
  shows "fmt_lease a < fmt_lease b \<longleftrightarrow> inst a < inst b"
proof -
  obtain y m d y' m' d' where c: "t_date a = (y, m, d)" "t_date b = (y', m', d')"
    by (metis prod.exhaust)
  have ymd: "ymd_dec (t_date a) < ymd_dec (t_date b) \<longleftrightarrow> local_ns a div day_ns < local_ns b div day_ns"
    "ymd_dec (t_date a) = ymd_dec (t_date b) \<longleftrightarrow> local_ns a div day_ns = local_ns b div day_ns"
    using ymd_dec_less [OF t_date_valid [OF c(1)] t_date_valid [OF c(2)]] ok
      civil_of_days_less_iff [of "local_ns a div day_ns" "local_ns b div day_ns"]
      civil_of_days_inj [of "local_ns a div day_ns" "local_ns b div day_ns"]
    unfolding year_ok_def t_date_def [symmetric] c by simp_all
  have hms: "hms_dec (t_sod a) = hms_dec (t_sod b) \<longleftrightarrow> t_sod a = t_sod b"
    using hms_dec_less [OF t_sod_bound t_sod_bound, of a b]
      hms_dec_less [OF t_sod_bound t_sod_bound, of b a]
    by (cases "t_sod a" "t_sod b" rule: linorder_cases) auto
  have "t_nano a < 10 ^ 9" "t_nano b < 10 ^ 9" using t_nano_bound by simp_all
  then have "fmt_lease a < fmt_lease b \<longleftrightarrow>
      local_ns a div day_ns < local_ns b div day_ns \<or> (local_ns a div day_ns = local_ns b div day_ns \<and>
        (t_sod a < t_sod b \<or> (t_sod a = t_sod b \<and> t_nano a < t_nano b)))"
    unfolding fmt_lease_dec [OF ok(1)] fmt_lease_dec [OF ok(2)]
    by (simp add: lex_append_eq_length ymd hms hms_dec_less [OF t_sod_bound t_sod_bound] dec_less_iff)
  also have "\<dots> \<longleftrightarrow> local_ns a < local_ns b"
    using lex_parts_less [of "int (t_sod a)" "int (t_sod b)" "int (t_nano a)" "int (t_nano b)"
        "local_ns a div day_ns" "local_ns b div day_ns"]
      t_sod_bound [of a] t_sod_bound [of b] t_nano_bound [of a] t_nano_bound [of b]
    unfolding local_ns_parts [of a, unfolded second_ns_def, symmetric]
      local_ns_parts [of b, unfolded second_ns_def, symmetric]
    by simp
  finally show ?thesis using z by (simp add: local_ns_def)
qed

section \<open>Parsing RFC 3339\<close>

text \<open>
  \<open>time.Parse\<close> with \<open>time.RFC3339\<close> or \<open>time.RFC3339Nano\<close>: in both, a fraction of a second is
  optional in the input. Digits beyond the ninth are dropped, as the package does.
\<close>

definition take_num :: "nat \<Rightarrow> string \<Rightarrow> (nat \<times> string) option" where
  "take_num k s =
     (if length s < k then None
      else case digits_val 0 (take k s) of None \<Rightarrow> None | Some v \<Rightarrow> Some (v, drop k s))"

fun expect :: "char \<Rightarrow> string \<Rightarrow> string option" where
  "expect c [] = None"
| "expect c (x # xs) = (if x = c then Some xs else None)"

definition parse_frac :: "string \<Rightarrow> nat \<times> string" where
  "parse_frac s =
     (case s of
        [] \<Rightarrow> (0, s)
      | c # ds \<Rightarrow>
          (let f = take 9 (takeWhile is_digit ds)
           in if c \<noteq> CHR ''.'' \<or> f = [] then (0, s)
              else (the (digits_val 0 f) * 10 ^ (9 - length f), dropWhile is_digit ds)))"

definition parse_zone :: "string \<Rightarrow> int option" where
  "parse_zone s =
     (case s of
        [] \<Rightarrow> None
      | c # r \<Rightarrow>
          if c = CHR ''Z'' then (if r = [] then Some 0 else None)
          else if c = CHR ''+'' \<or> c = CHR ''-'' then
            do { (h, r) \<leftarrow> take_num 2 r; r \<leftarrow> expect CHR '':'' r; (m, r) \<leftarrow> take_num 2 r;
                 if h \<le> 23 \<and> m \<le> 59 \<and> r = []
                 then Some ((if c = CHR ''-'' then -1 else 1) * int (h * 3600 + m * 60)) else None }
          else None)"

definition parse_rfc3339 :: "string \<Rightarrow> gotime option" where
  "parse_rfc3339 s =
     do { (y, r) \<leftarrow> take_num 4 s; r \<leftarrow> expect CHR ''-'' r;
          (m, r) \<leftarrow> take_num 2 r; r \<leftarrow> expect CHR ''-'' r;
          (d, r) \<leftarrow> take_num 2 r; r \<leftarrow> expect CHR ''T'' r;
          (hh, r) \<leftarrow> take_num 2 r; r \<leftarrow> expect CHR '':'' r;
          (mm, r) \<leftarrow> take_num 2 r; r \<leftarrow> expect CHR '':'' r;
          (ss, r) \<leftarrow> take_num 2 r;
          let (ns, r) = parse_frac r in
          do { off \<leftarrow> parse_zone r;
               if valid_civil (int y) (int m) (int d) \<and> hh \<le> 23 \<and> mm \<le> 59 \<and> ss \<le> 59
               then Some (GoTime
                 ((days_of_civil (int y) (int m) (int d) * 86400 + int (hh * 3600 + mm * 60 + ss) - off)
                    * second_ns + int ns) off)
               else None } }"

section \<open>Parsing what was formatted\<close>

lemma take_num_dec: "n < 10 ^ w \<Longrightarrow> take_num w (dec w n @ r) = Some (n, r)"
  by (simp add: take_num_def digits_val_dec)

lemma take_dec: "take w (dec (w + k) n) = dec w (n div 10 ^ k)"
  by (induction k arbitrary: n) (simp_all add: div_mult2_eq)

lemma trim_zeros_append: "\<exists>k. s = trim_zeros s @ replicate k CHR ''0''"
proof -
  let ?z = "takeWhile (\<lambda>c. c = CHR ''0'') (rev s)"
  have "s = trim_zeros s @ rev ?z"
    unfolding trim_zeros_def by (metis rev_append rev_rev_ident takeWhile_dropWhile_id)
  moreover have "\<forall>c \<in> set ?z. c = CHR ''0''" by (auto dest: set_takeWhileD)
  then have "?z = replicate (length ?z) CHR ''0''" by (simp add: replicate_length_same)
  then have "rev ?z = replicate (length ?z) CHR ''0''" by (metis rev_replicate)
  ultimately show ?thesis by metis
qed

lemma digits_val_replicate_0: "digits_val a (replicate k CHR ''0'') = Some (a * 10 ^ k)"
  by (induction k arbitrary: a) (auto simp: is_digit_def digit_val_def less_eq_char_def)

lemma takeWhile_stop:
  "\<forall>c \<in> set x. p c \<Longrightarrow> \<not> p d \<Longrightarrow> takeWhile p (x @ d # r) = x \<and> dropWhile p (x @ d # r) = d # r"
  by (induction x) auto

lemma parse_frac_frac:
  assumes ns: "ns < 1000000000" and w: "w \<le> 9" and c: "\<not> is_digit c" "c \<noteq> CHR ''.''"
  shows "parse_frac (frac w ns @ c # r) = (ns div 10 ^ (9 - w) * 10 ^ (9 - w), c # r)"
proof -
  define v where "v = ns div 10 ^ (9 - w)"
  define x where "x = trim_zeros (dec w v)"
  have "v < 10 ^ w"
  proof -
    have "ns < 10 ^ w * 10 ^ (9 - w)" using ns w by (simp flip: power_add)
    then show ?thesis unfolding v_def by (simp add: less_mult_imp_div_less)
  qed
  then have v: "digits_val 0 (dec w v) = Some v" by (simp add: digits_val_dec)
  have "take w (zero_pad 9 ns) = dec w v"
    using take_dec [of w "9 - w" ns] w ns dec_eq_pad [of ns 9] by (simp add: v_def)
  then have f: "frac w ns = (if x = [] then [] else CHR ''.'' # x)"
    by (simp add: frac_def x_def Let_def)
  obtain k where k: "dec w v = x @ replicate k CHR ''0''"
    using trim_zeros_append unfolding x_def by blast
  obtain u where u: "digits_val 0 x = Some u" "v = u * 10 ^ k"
    using v by (auto simp: k digits_val_append digits_val_replicate_0 split: option.splits)
  have xw: "length x + k = w" using arg_cong [OF k, of length] by simp
  have dig: "\<forall>d \<in> set x. is_digit d" using dec_digits [of _ w v] by (simp add: k)
  show ?thesis
  proof (cases "x = []")
    case True
    with u have "v = 0" by simp
    with True c show ?thesis by (simp add: f parse_frac_def Let_def flip: v_def)
  next
    case False
    have "9 - length x = k + (9 - w)" using xw w by simp
    then have "u * 10 ^ (9 - length x) = v * 10 ^ (9 - w)" by (simp add: u power_add)
    with False show ?thesis
      using takeWhile_stop [of x is_digit c r] dig c(1) u xw w
      by (simp add: f parse_frac_def Let_def flip: v_def)
  qed
qed

lemma parse_formatted:
  assumes ok: "year_ok t" and z: "zone t = 0" and w: "w \<le> 9"
  shows "parse_rfc3339 (fmt_ymd t @ ''T'' @ fmt_hms t @ frac w (t_nano t) @ ''Z'') =
    Some (GoTime (inst t div 10 ^ (9 - w) * 10 ^ (9 - w)) 0)"
proof -
  obtain y m d where c: "t_date t = (y, m, d)" by (metis prod.exhaust)
  have v: "valid_civil y m d" using c by (rule t_date_valid)
  have b: "0 \<le> y" "nat y < 10 ^ 4" "0 \<le> m" "nat m < 10 ^ 2" "0 \<le> d" "nat d < 10 ^ 2"
    using ok v month_length_le [OF v] by (auto simp: year_ok_def c valid_civil_def)
  define s where "s = t_sod t"
  have h: "s div 3600 < 10 ^ 2" "s div 60 mod 60 < 10 ^ 2" "s mod 60 < (10 ^ 2 :: nat)"
    "s div 3600 \<le> 23" "s div 60 mod 60 \<le> 59" "s mod 60 \<le> 59"
    using hms_fields [OF t_sod_bound, of t] less_mult_imp_div_less [of s 24 3600] t_sod_bound [of t]
    by (auto simp: s_def less_Suc_eq_le [symmetric])
  have "s div 60 div 60 * 60 + s div 60 mod 60 = s div 60" by (rule div_mult_mod_eq)
  then have "s div 3600 * 60 + s div 60 mod 60 = s div 60" by (simp flip: div_mult2_eq)
  moreover have "s div 60 * 60 + s mod 60 = s" by (rule div_mult_mod_eq)
  moreover have "s div 3600 * 3600 + s div 60 mod 60 * 60 = (s div 3600 * 60 + s div 60 mod 60) * 60"
    by (simp add: algebra_simps)
  ultimately have h7: "s div 3600 * 3600 + s div 60 mod 60 * 60 + s mod 60 = s" by metis
  define j where "j = 9 - w"
  have fr: "parse_frac (frac w (t_nano t) @ ''Z'') = (t_nano t div 10 ^ j * 10 ^ j, ''Z'')"
    unfolding j_def by (rule parse_frac_frac [OF t_nano_bound w]) (auto simp: is_digit_def less_eq_char_def)
  have sod: "int (s div 3600 * 3600 + s div 60 mod 60 * 60 + s mod 60) = int s" using h7 by simp
  have "parse_rfc3339 (fmt_ymd t @ ''T'' @ fmt_hms t @ frac w (t_nano t) @ ''Z'') =
      Some (GoTime ((days_of_civil y m d * 86400 + int s) * second_ns + int (t_nano t div 10 ^ j * 10 ^ j)) 0)"
    unfolding fmt_ymd_dec [OF ok] fmt_hms_dec c ymd_dec_def hms_dec_def parse_rfc3339_def
    using b h v fr sod
    by (simp add: take_num_dec parse_zone_def flip: s_def del: of_nat_add of_nat_mult)
  also have "(days_of_civil y m d * 86400 + int s) * second_ns + int (t_nano t div 10 ^ j * 10 ^ j) =
      inst t div 10 ^ j * 10 ^ j"
  proof -
    have "(10 :: int) ^ 9 = 10 ^ w * 10 ^ j" using w by (simp add: j_def flip: power_add)
    then have sec: "second_ns = 10 ^ w * 10 ^ j" by (simp add: second_ns_def)
    let ?A = "days_of_civil y m d * 86400 + int s"
    have i: "inst t = (?A * 10 ^ w) * 10 ^ j + int (t_nano t)"
      using local_ns_parts [of t] z unfolding t_date_days [OF c] local_ns_def s_def sec by simp
    then have "inst t div 10 ^ j = ?A * 10 ^ w + int (t_nano t) div 10 ^ j" by simp
    then show ?thesis unfolding sec by (simp add: distrib_right mult.assoc zdiv_int)
  qed
  finally show ?thesis unfolding j_def .
qed

text \<open>
  The stored watermark and the run log's own timestamps: \<open>RFC3339Nano\<close> keeps the instant,
  \<open>RFC3339\<close> its second.
\<close>

lemma parse_rfc3339nano:
  assumes "year_ok t" "zone t = 0"
  shows "parse_rfc3339 (fmt_rfc3339nano t) = Some t"
  using parse_formatted [OF assms, of 9] assms(2)
  by (cases t) (simp add: fmt_rfc3339nano_def fmt_zone_def)

lemma parse_rfc3339_second:
  assumes "year_ok t" "zone t = 0"
  shows "parse_rfc3339 (fmt_rfc3339 t) = Some (GoTime (inst t div second_ns * second_ns) 0)"
  using parse_formatted [OF assms, of 0] assms(2)
  by (simp add: fmt_rfc3339_def fmt_zone_def frac_def trim_zeros_def second_ns_def)

end
