(* ===== verification/Model.thy ===== *)
theory Model
  imports Gotime "HOL-Library.AList"
begin

text \<open>
  \<open>internal/model/model.go\<close> and the Go values that flow through the program: dynamic values
  of a row (\<open>any\<close>), \<open>float64\<close> with its IEEE 754 comparison, error values with their wrapping,
  rows, run states, run results and persisted runs.
\<close>

section \<open>float64\<close>

text \<open>
  A \<open>float64\<close> is its bit pattern. The order of finite values and infinities is that of the
  sign-and-magnitude integer of the pattern (both zeros are 0); a NaN compares with nothing.
\<close>

datatype f64 = F64 (f64_bits: u64)

definition f64_mag :: "f64 \<Rightarrow> int" where
  "f64_mag x = uint (f64_bits x) mod 2 ^ 63"

definition f64_neg :: "f64 \<Rightarrow> bool" where
  "f64_neg x \<longleftrightarrow> 2 ^ 63 \<le> uint (f64_bits x)"

definition f64_nan :: "f64 \<Rightarrow> bool" where
  "f64_nan x \<longleftrightarrow> 0x7FF0000000000000 < f64_mag x"

definition f64_key :: "f64 \<Rightarrow> int" where
  "f64_key x = (if f64_neg x then - f64_mag x else f64_mag x)"

instantiation f64 :: ord
begin

definition less_f64 :: "f64 \<Rightarrow> f64 \<Rightarrow> bool" where
  "x < y \<longleftrightarrow> \<not> f64_nan x \<and> \<not> f64_nan y \<and> f64_key x < f64_key y"

definition less_eq_f64 :: "f64 \<Rightarrow> f64 \<Rightarrow> bool" where
  "x \<le> y \<longleftrightarrow> \<not> f64_nan x \<and> \<not> f64_nan y \<and> f64_key x \<le> f64_key y"

instance ..

end

lemma f64_less_irrefl [simp]: "\<not> x < (x :: f64)"
  by (simp add: less_f64_def)

lemma f64_less_trans: "x < y \<Longrightarrow> y < z \<Longrightarrow> x < (z :: f64)"
  by (simp add: less_f64_def)

text \<open>\<open>float64(i)\<close> for an \<open>int64\<close>: round to nearest, ties to even, on 53 significant bits.\<close>

fun bit_length :: "nat \<Rightarrow> nat" where
  "bit_length n = (if n = 0 then 0 else Suc (bit_length (n div 2)))"

declare bit_length.simps [simp del]

definition f64_of_nat :: "nat \<Rightarrow> nat" where
  "f64_of_nat n =
     (if n = 0 then 0
      else let e = bit_length n - 1;
               sig = (if e \<le> 52 then n * 2 ^ (52 - e)
                      else let sh = e - 52; q = n div 2 ^ sh; r = n mod 2 ^ sh; half = 2 ^ (sh - 1)
                           in if half < r \<or> (r = half \<and> odd q) then q + 1 else q)
           in (e + 1023) * 2 ^ 52 + sig - 2 ^ 52)"

definition f64_of_int :: "int \<Rightarrow> f64" where
  "f64_of_int i =
     F64 (word_of_int (if i < 0 then 2 ^ 63 + int (f64_of_nat (nat (- i))) else int (f64_of_nat (nat i))))"

section \<open>Dynamic values and rows\<close>

datatype go_value =
    VNil
  | VInt i64            \<comment> \<open>\<open>int\<close>\<close>
  | VInt64 i64          \<comment> \<open>\<open>int64\<close>\<close>
  | VFloat f64          \<comment> \<open>\<open>float64\<close>\<close>
  | VStr string
  | VBytes string       \<comment> \<open>\<open>[]byte\<close>\<close>
  | VBool bool
  | VTime gotime
  | VOther string       \<comment> \<open>any other dynamic type, by name\<close>

text \<open>A row is a Go map from column names: at most one entry per name, no order.\<close>

type_synonym row = "(string \<times> go_value) list"

definition row_ok :: "row \<Rightarrow> bool" where
  "row_ok r \<longleftrightarrow> distinct (map fst r)"

definition row_get :: "row \<Rightarrow> string \<Rightarrow> go_value" where
  "row_get r c = (case map_of r c of None \<Rightarrow> VNil | Some v \<Rightarrow> v)"

definition row_has :: "row \<Rightarrow> string \<Rightarrow> bool" where
  "row_has r c \<longleftrightarrow> map_of r c \<noteq> None"

definition row_put :: "string \<Rightarrow> go_value \<Rightarrow> row \<Rightarrow> row" where
  "row_put c v r = AList.update c v r"

lemma row_ok_put [simp]: "row_ok r \<Longrightarrow> row_ok (row_put c v r)"
  by (simp add: row_ok_def row_put_def distinct_update)

lemma row_get_put [simp]: "row_get (row_put c v r) c' = (if c = c' then v else row_get r c')"
  by (simp add: row_get_def row_put_def update_conv)

lemma row_has_iff: "row_has r c \<longleftrightarrow> c \<in> fst ` set r"
  by (auto simp: row_has_def map_of_eq_None_iff)

section \<open>Errors\<close>

text \<open>
  An error value keeps the format string and the arguments of the call that made it:
  \<open>Errorf\<close> for \<open>errors.New\<close>, \<open>fmt.Errorf\<close> and \<open>fmt.Sprintf\<close>, \<open>Wrapf\<close> for a \<open>%w\<close>.
  \<open>External\<close> is an error of a driver, the operating system or a library.
\<close>

datatype arg =
    AStr string
  | AInt int
  | AStrs "string list"
  | AVal go_value
  | AErr error
and error =
    Errorf string "arg list"
  | Wrapf string "arg list" error
  | External string

fun errors_is :: "error \<Rightarrow> error \<Rightarrow> bool" where
  "errors_is (Wrapf f as e) target = (Wrapf f as e = target \<or> errors_is e target)"
| "errors_is e target = (e = target)"

section \<open>Runs\<close>

text \<open>\<open>model.RunStatus\<close>; \<open>NoStatus\<close> is the zero value of the string type.\<close>

datatype RunStatus = NoStatus | Running | Succeeded | Failed | Skipped | Interrupted

fun status_text :: "RunStatus \<Rightarrow> string" where
  "status_text NoStatus = ''''"
| "status_text Running = ''running''"
| "status_text Succeeded = ''succeeded''"
| "status_text Failed = ''failed''"
| "status_text Skipped = ''skipped''"
| "status_text Interrupted = ''interrupted''"

lemma status_text_inj: "status_text s = status_text s' \<longleftrightarrow> s = s'"
  by (cases s; cases s') simp_all

text \<open>\<open>model.RunResult\<close>; \<open>rr_Err = None\<close> is the empty string. Row counts are far from the
  bounds of \<open>int64\<close> and kept as integers.\<close>

record RunResult =
  rr_Task :: string
  rr_Trigger :: string
  rr_Status :: RunStatus
  rr_TotalRows :: int
  rr_OKRows :: int
  rr_FailRows :: int
  rr_Duration :: int
  rr_Err :: "error option"
  rr_Samples :: "error list"

text \<open>\<open>model.Run\<close>.\<close>

record Run =
  run_ID :: int
  run_Task :: string
  run_Trigger :: string
  run_Status :: RunStatus
  run_TotalRows :: int
  run_OKRows :: int
  run_FailRows :: int
  run_Error :: string
  run_Samples :: "string list"
  run_StartedAt :: "gotime option"
  run_FinishedAt :: "gotime option"

end
