(* ===== verification/Sqltext.thy ===== *)
theory Sqltext
  imports Model
begin

text \<open>
  The SQL text builders of \<open>internal/connector\<close>: the identifier allowlist, the three quoting
  styles, the placeholder lists and the insert, upsert and merge statements of the four
  dialects (\<open>connector.go\<close>, \<open>mysql.go\<close>, \<open>postgres.go\<close>, \<open>sqlite.go\<close>, \<open>sqlserver.go\<close> and the
  statement builders of the two bulk files). The lemmas show that a quoted identifier is
  read back as itself whatever it holds, that the allowlist admits nothing a quote could
  matter to, and that placeholders and bound arguments are laid out in the same order.
\<close>

section \<open>The identifier allowlist\<close>

definition ident_start :: "char \<Rightarrow> bool" where
  "ident_start c \<longleftrightarrow>
     (CHR ''A'' \<le> c \<and> c \<le> CHR ''Z'') \<or> (CHR ''a'' \<le> c \<and> c \<le> CHR ''z'') \<or> c = CHR ''_''"

definition ident_char :: "char \<Rightarrow> bool" where
  "ident_char c \<longleftrightarrow> ident_start c \<or> is_digit c"

text \<open>\<open>identRe\<close>, \<open>^[A-Za-z_][A-Za-z0-9_]*$\<close>, with Go's \<open>$\<close>: the end of the text.\<close>

definition identRe :: "string \<Rightarrow> bool" where
  "identRe s = (case s of [] \<Rightarrow> False | c # cs \<Rightarrow> ident_start c \<and> list_all ident_char cs)"

fun first_bad :: "string list \<Rightarrow> string option" where
  "first_bad [] = None"
| "first_bad (c # cs) = (if identRe c then first_bad cs else Some c)"

definition SplitTablePath :: "string \<Rightarrow> error + string list" where
  "SplitTablePath table =
     (let parts = split_on CHR ''.'' table
      in if 2 < length parts
         then Inl (Errorf ''invalid table %q: at most one '.' allowed'' [AStr table])
         else case first_bad parts of
                Some p \<Rightarrow> Inl (Errorf ''invalid identifier %q in table %q'' [AStr p, AStr table])
              | None \<Rightarrow> Inr parts)"

definition ValidateColumns :: "string list \<Rightarrow> error option" where
  "ValidateColumns cols =
     (case first_bad cols of
        Some c \<Rightarrow> Some (Errorf ''invalid column name %q'' [AStr c])
      | None \<Rightarrow> None)"

lemma first_bad_None: "first_bad xs = None \<longleftrightarrow> (\<forall>x \<in> set xs. identRe x)"
  by (induction xs) auto

lemma ValidateColumns_None: "ValidateColumns cols = None \<longleftrightarrow> (\<forall>c \<in> set cols. identRe c)"
  by (auto simp: ValidateColumns_def simp flip: first_bad_None split: option.splits)

lemma identRe_chars: "identRe s \<Longrightarrow> c \<in> set s \<Longrightarrow> ident_char c"
  by (auto simp: identRe_def ident_char_def list_all_iff split: list.splits)

lemma ident_char_harmless:
  "ident_char c \<Longrightarrow> c \<noteq> CHR 0x22 \<and> c \<noteq> CHR 0x27 \<and> c \<noteq> CHR 0x60 \<and> c \<noteq> CHR ''['' \<and> c \<noteq> CHR '']'' \<and>
     c \<noteq> CHR ''.'' \<and> c \<noteq> CHR '' '' \<and> c \<noteq> CHR '';'' \<and> c \<noteq> CHR ''-''"
  by (auto simp: ident_char_def ident_start_def is_digit_def less_eq_char_def)

lemma SplitTablePath_Inr:
  "SplitTablePath table = Inr parts \<longleftrightarrow>
     (length parts = 1 \<or> length parts = 2) \<and> (\<forall>p \<in> set parts. identRe p) \<and> table = join ''.'' parts"
proof
  assume "SplitTablePath table = Inr parts"
  then have parts: "parts = split_on CHR ''.'' table" "length parts \<le> 2" "\<forall>p \<in> set parts. identRe p"
    by (auto simp: SplitTablePath_def Let_def first_bad_None split: if_splits option.splits)
  then have "0 < length parts" by simp
  with parts(2) have "length parts = 1 \<or> length parts = 2" by linarith
  with parts show "(length parts = 1 \<or> length parts = 2) \<and> (\<forall>p \<in> set parts. identRe p) \<and> table = join ''.'' parts"
    by simp
next
  assume r: "(length parts = 1 \<or> length parts = 2) \<and> (\<forall>p \<in> set parts. identRe p) \<and> table = join ''.'' parts"
  have "split_on CHR ''.'' (join ''.'' parts) = parts"
    by (rule split_on_join) (use r identRe_chars ident_char_harmless in auto)
  moreover have "first_bad parts = None" using r by (simp add: first_bad_None)
  ultimately show "SplitTablePath table = Inr parts"
    using r by (auto simp: SplitTablePath_def Let_def)
qed

lemma SplitTable_users: "SplitTablePath ''users'' = Inr [''users'']"
  by code_simp

section \<open>Quoting\<close>

definition quoteDouble :: "string \<Rightarrow> string" where
  "quoteDouble s = [CHR 0x22] @ replace_all s [CHR 0x22] [CHR 0x22, CHR 0x22] @ [CHR 0x22]"

definition quoteBacktick :: "string \<Rightarrow> string" where
  "quoteBacktick s = [CHR 0x60] @ replace_all s [CHR 0x60] [CHR 0x60, CHR 0x60] @ [CHR 0x60]"

definition quoteBracket :: "string \<Rightarrow> string" where
  "quoteBracket s = ''['' @ replace_all s '']'' '']]'' @ '']''"

definition qualify :: "string list \<Rightarrow> (string \<Rightarrow> string) \<Rightarrow> string" where
  "qualify parts q = join ''.'' (map q parts)"

definition quotedList :: "string list \<Rightarrow> (string \<Rightarrow> string) \<Rightarrow> string" where
  "quotedList cols q = join '', '' (map q cols)"

text \<open>
  How every dialect reads a quoted identifier back: up to the first closing quote that is
  not doubled.
\<close>

fun lex_body :: "char \<Rightarrow> string \<Rightarrow> (string \<times> string) option" where
  "lex_body cl [] = None"
| "lex_body cl [c] = (if c = cl then Some ([], []) else None)"
| "lex_body cl (c # d # r) =
     (if c = cl then
        (if d = cl then map_option (apfst ((#) cl)) (lex_body cl r) else Some ([], d # r))
      else map_option (apfst ((#) c)) (lex_body cl (d # r)))"

fun lex_quoted :: "char \<Rightarrow> char \<Rightarrow> string \<Rightarrow> (string \<times> string) option" where
  "lex_quoted opn cl [] = None"
| "lex_quoted opn cl (c # r) = (if c = opn then lex_body cl r else None)"

lemma lex_body_escaped:
  assumes "r = [] \<or> hd r \<noteq> cl"
  shows "lex_body cl (replace_all s [cl] [cl, cl] @ [cl] @ r) = Some (s, r)"
proof (induction s)
  case Nil
  then show ?case using assms by (cases r) auto
next
  case (Cons c s)
  obtain d t where t: "replace_all s [cl] [cl, cl] @ [cl] @ r = d # t"
    by (cases "replace_all s [cl] [cl, cl]") auto
  then show ?case using Cons by auto
qed

locale quoting =
  fixes q :: "string \<Rightarrow> string" and opn cl :: char
  assumes quote_form: "q s = [opn] @ replace_all s [cl] [cl, cl] @ [cl]"
    and separators: "cl \<noteq> CHR ''.''" "cl \<noteq> CHR '',''" "cl \<noteq> CHR '' ''" "cl \<noteq> CHR '')''" "opn \<noteq> CHR ''(''"
begin

lemma read_back: "r = [] \<or> hd r \<noteq> cl \<Longrightarrow> lex_quoted opn cl (q s @ r) = Some (s, r)"
proof -
  assume "r = [] \<or> hd r \<noteq> cl"
  then have "lex_body cl (replace_all s [cl] [cl, cl] @ [cl] @ r) = Some (s, r)"
    by (rule lex_body_escaped)
  then show ?thesis by (simp add: quote_form)
qed

lemma cancel:
  assumes "q s @ r = q s' @ r'" "r = [] \<or> hd r \<noteq> cl" "r' = [] \<or> hd r' \<noteq> cl"
  shows "s = s' \<and> r = r'"
proof -
  have "Some (s, r) = Some (s', r')"
    unfolding read_back [OF assms(2), symmetric] read_back [OF assms(3), symmetric] assms(1) ..
  then show ?thesis by simp
qed

lemma quoted_join_inj:
  assumes "sep \<noteq> []" "hd sep \<noteq> cl"
  shows "join sep (map q xs) = join sep (map q ys) \<Longrightarrow> xs = [] \<longleftrightarrow> ys = [] \<Longrightarrow> xs = ys"
proof (induction xs arbitrary: ys)
  case (Cons x xs)
  then obtain y ys' where ys: "ys = y # ys'" by (cases ys) auto
  have shape: "join sep (map q (z # zs)) = q z @ (if zs = [] then [] else sep @ join sep (map q zs))"
    for z zs by (cases zs) auto
  have sep: "(if zs = [] then [] else sep @ join sep (map q zs)) = [] \<or>
      hd (if zs = [] then [] else sep @ join sep (map q zs)) \<noteq> cl" for zs
    using assms by simp
  have eq: "x = y" "(if xs = [] then [] else sep @ join sep (map q xs)) =
      (if ys' = [] then [] else sep @ join sep (map q ys'))"
    using cancel [OF _ sep sep, of x xs y ys'] Cons.prems(1) unfolding ys shape by auto
  then have "xs = [] \<longleftrightarrow> ys' = []" "join sep (map q xs) = join sep (map q ys')"
    using assms(1) by (auto split: if_splits)
  then have "xs = ys'" by (intro Cons.IH)
  with eq(1) ys show ?case by simp
qed auto

lemma qualify_inj: "parts \<noteq> [] \<Longrightarrow> parts' \<noteq> [] \<Longrightarrow> qualify parts q = qualify parts' q \<Longrightarrow> parts = parts'"
  using quoted_join_inj [of "''.''" parts parts'] separators by (simp add: qualify_def)

lemma quotedList_inj: "cols \<noteq> [] \<Longrightarrow> cols' \<noteq> [] \<Longrightarrow> quotedList cols q = quotedList cols' q \<Longrightarrow> cols = cols'"
  using quoted_join_inj [of "'', ''" cols cols'] separators by (simp add: quotedList_def)

lemma plain: "cl \<notin> set s \<Longrightarrow> q s = [opn] @ s @ [cl]"
proof -
  assume "cl \<notin> set s"
  then have "replace_all s [cl] [cl, cl] = s" by (induction s) auto
  then show ?thesis by (simp add: quote_form)
qed

end

interpretation dquote: quoting quoteDouble "CHR 0x22" "CHR 0x22"
  by unfold_locales (simp_all add: quoteDouble_def)

interpretation backtick: quoting quoteBacktick "CHR 0x60" "CHR 0x60"
  by unfold_locales (simp_all add: quoteBacktick_def)

interpretation bracket: quoting quoteBracket "CHR ''[''" "CHR '']''"
  by unfold_locales (simp_all add: quoteBracket_def)

section \<open>Placeholder lists and bound arguments\<close>

text \<open>The two nested loops of \<open>valuesClause\<close>, a comma before every group and every
  placeholder but the first.\<close>

definition valuesClause :: "nat \<Rightarrow> nat \<Rightarrow> (nat \<Rightarrow> string) \<Rightarrow> string" where
  "valuesClause cols n ph =
     concat (map (\<lambda>r.
       (if 0 < r then '','' else []) @ ''('' @
       concat (map (\<lambda>c. (if 0 < c then '','' else []) @ ph (r * cols + c)) [0..<cols]) @
       '')'') [0..<n])"

fun flatArgs :: "string list \<Rightarrow> row list \<Rightarrow> go_value list" where
  "flatArgs cols [] = []"
| "flatArgs cols (r # rs) = map (row_get r) cols @ flatArgs cols rs"

lemma concat_sep_join:
  "concat (map (\<lambda>i. (if 0 < i then sep else []) @ f i) [0..<n]) = join sep (map f [0..<n])"
proof (induction n)
  case (Suc n)
  have upt: "[0..<Suc n] = [0..<n] @ [n]" by simp
  show ?case
  proof (cases "n = 0")
    case False
    then have "map f [0..<n] \<noteq> []" by simp
    with False show ?thesis
      unfolding upt map_append concat_append Suc.IH by (simp add: join_snoc)
  qed simp
qed simp

lemma valuesClause_join:
  "valuesClause cols n ph =
     join '','' (map (\<lambda>r. ''('' @ join '','' (map (\<lambda>c. ph (r * cols + c)) [0..<cols]) @ '')'') [0..<n])"
  unfolding valuesClause_def by (simp add: concat_sep_join)

text \<open>The placeholder indices of the clause, row by row, count up without a gap.\<close>

lemma placeholder_indices:
  "concat (map (\<lambda>r. map (\<lambda>c. r * cols + c) [0..<cols]) [0..<n]) = [0..<n * cols]"
proof (induction n)
  case (Suc n)
  have "map (\<lambda>c. n * cols + c) [0..<cols] = [n * cols..<n * cols + cols]"
    by (rule nth_equalityI) auto
  moreover have "[0..<Suc n * cols] = [0..<n * cols] @ [n * cols..<n * cols + cols]"
    using upt_add_eq_append [of 0 "n * cols" cols] by (simp add: add.commute)
  ultimately show ?case using Suc.IH by simp
qed simp

lemma length_flatArgs: "length (flatArgs cols rows) = length rows * length cols"
  by (induction rows) auto

lemma flatArgs_concat: "flatArgs cols rows = concat (map (\<lambda>r. map (row_get r) cols) rows)"
  by (induction rows) auto

lemma nth_flatArgs:
  assumes "r < length rows" "c < length cols"
  shows "flatArgs cols rows ! (r * length cols + c) = row_get (rows ! r) (cols ! c)"
  using assms
proof (induction rows arbitrary: r)
  case (Cons x rows)
  then show ?case by (cases r) (auto simp: nth_append add.assoc)
qed simp

section \<open>Statements\<close>

definition insertWith :: "(string \<Rightarrow> string) \<Rightarrow> string list \<Rightarrow> string list \<Rightarrow> nat \<Rightarrow> (nat \<Rightarrow> string) \<Rightarrow> string" where
  "insertWith q parts cols n ph =
     ''INSERT INTO '' @ qualify parts q @ '' ('' @ quotedList cols q @
     '') VALUES '' @ valuesClause (length cols) n ph"

definition conflictSets :: "string list \<Rightarrow> string list \<Rightarrow> (string \<Rightarrow> string) \<Rightarrow> string" where
  "conflictSets keys cols q =
     join '', '' (map (\<lambda>c. q c @ '' = excluded.'' @ q c) (filter (\<lambda>c. c \<notin> set keys) cols))"

definition upsertOnConflict ::
  "(string \<Rightarrow> string) \<Rightarrow> string list \<Rightarrow> string list \<Rightarrow> string list \<Rightarrow> nat \<Rightarrow> (nat \<Rightarrow> string) \<Rightarrow> string" where
  "upsertOnConflict q parts keys cols n ph =
     (let sets = map (\<lambda>c. q c @ '' = excluded.'' @ q c) (filter (\<lambda>c. c \<notin> set keys) cols)
      in ''INSERT INTO '' @ qualify parts q @ '' ('' @ quotedList cols q @
         '') VALUES '' @ valuesClause (length cols) n ph @
         '' ON CONFLICT ('' @ quotedList keys q @ '') DO UPDATE SET '' @ join '', '' sets)"

definition upsertMySQL ::
  "string list \<Rightarrow> string list \<Rightarrow> string list \<Rightarrow> nat \<Rightarrow> (nat \<Rightarrow> string) \<Rightarrow> string" where
  "upsertMySQL parts keys cols n ph =
     (let q = quoteBacktick;
          sets = map (\<lambda>c. q c @ '' = VALUES('' @ q c @ '')'') (filter (\<lambda>c. c \<notin> set keys) cols)
      in ''INSERT INTO '' @ qualify parts q @ '' ('' @ quotedList cols q @
         '') VALUES '' @ valuesClause (length cols) n ph @
         '' ON DUPLICATE KEY UPDATE '' @ join '', '' sets)"

definition mergeMSSQL ::
  "string list \<Rightarrow> string list \<Rightarrow> string list \<Rightarrow> nat \<Rightarrow> (nat \<Rightarrow> string) \<Rightarrow> string" where
  "mergeMSSQL parts keys cols n ph =
     (let q = quoteBracket;
          on = map (\<lambda>k. ''tgt.'' @ q k @ '' = src.'' @ q k) keys;
          sets = map (\<lambda>c. q c @ '' = src.'' @ q c) (filter (\<lambda>c. c \<notin> set keys) cols);
          insVals = map (\<lambda>c. ''src.'' @ q c) cols
      in ''MERGE INTO '' @ qualify parts q @ '' AS tgt USING (VALUES '' @
         valuesClause (length cols) n ph @ '') AS src ('' @ quotedList cols q @ '') ON '' @
         join '' AND '' on @ '' WHEN MATCHED THEN UPDATE SET '' @ join '', '' sets @
         '' WHEN NOT MATCHED THEN INSERT ('' @ quotedList cols q @ '') VALUES ('' @
         join '', '' insVals @ '');'')"

definition mergeFromStage ::
  "string list \<Rightarrow> string \<Rightarrow> string list \<Rightarrow> string list \<Rightarrow> string" where
  "mergeFromStage parts stage keys cols =
     (let q = quoteBracket;
          on = map (\<lambda>k. ''tgt.'' @ q k @ '' = src.'' @ q k) keys;
          sets = map (\<lambda>c. q c @ '' = src.'' @ q c) (filter (\<lambda>c. c \<notin> set keys) cols);
          insVals = map (\<lambda>c. ''src.'' @ q c) cols
      in ''MERGE INTO '' @ qualify parts q @ '' AS tgt USING '' @ q stage @ '' AS src ON '' @
         join '' AND '' on @ '' WHEN MATCHED THEN UPDATE SET '' @ join '', '' sets @
         '' WHEN NOT MATCHED THEN INSERT ('' @ quotedList cols q @ '') VALUES ('' @
         join '', '' insVals @ '');'')"

section \<open>Dialects\<close>

record dialect =
  d_name :: string
  d_driver :: string
  d_ph :: "nat \<Rightarrow> string"
  d_upsert :: "string list \<Rightarrow> string list \<Rightarrow> string list \<Rightarrow> nat \<Rightarrow> (nat \<Rightarrow> string) \<Rightarrow> string"
  d_insert :: "string list \<Rightarrow> string list \<Rightarrow> nat \<Rightarrow> (nat \<Rightarrow> string) \<Rightarrow> string"

definition dollar_ph :: "nat \<Rightarrow> string" where
  "dollar_ph i = ''$'' @ itoa (int i + 1)"

definition pgDialect :: dialect where
  "pgDialect = \<lparr>d_name = ''postgres'', d_driver = ''pgx'', d_ph = dollar_ph,
     d_upsert = upsertOnConflict quoteDouble, d_insert = insertWith quoteDouble\<rparr>"

definition sqliteDialect :: dialect where
  "sqliteDialect = \<lparr>d_name = ''sqlite'', d_driver = ''sqlite'', d_ph = dollar_ph,
     d_upsert = upsertOnConflict quoteDouble, d_insert = insertWith quoteDouble\<rparr>"

definition mysqlDialect :: dialect where
  "mysqlDialect = \<lparr>d_name = ''mysql'', d_driver = ''mysql'', d_ph = (\<lambda>i. ''?''),
     d_upsert = upsertMySQL, d_insert = insertWith quoteBacktick\<rparr>"

definition mssqlDialect :: dialect where
  "mssqlDialect = \<lparr>d_name = ''sqlserver'', d_driver = ''sqlserver'', d_ph = (\<lambda>i. ''?''),
     d_upsert = mergeMSSQL, d_insert = insertWith quoteBracket\<rparr>"

lemma dollar_ph_inj: "dollar_ph i = dollar_ph j \<longleftrightarrow> i = j"
  by (auto simp: dollar_ph_def dest: itoa_inj)

text \<open>The expected statements of \<open>connector_test.go\<close> and \<open>bulk_sql_test.go\<close>.\<close>

lemma mysql_upsert_example:
  "d_upsert mysqlDialect [''db'', ''users''] [''id''] [''id'', ''name''] 2 (d_ph mysqlDialect) =
   ''INSERT INTO `db`.`users` (`id`, `name`) VALUES (?,?),(?,?) ON DUPLICATE KEY UPDATE `name` = VALUES(`name`)''"
  by code_simp

lemma mssql_merge_example:
  "d_upsert mssqlDialect [''dbo'', ''users''] [''id''] [''id'', ''name''] 2 (d_ph mssqlDialect) =
   ''MERGE INTO [dbo].[users] AS tgt USING (VALUES (?,?),(?,?)) AS src ([id], [name]) ON tgt.[id] = src.[id] WHEN MATCHED THEN UPDATE SET [name] = src.[name] WHEN NOT MATCHED THEN INSERT ([id], [name]) VALUES (src.[id], src.[name]);''"
  by code_simp

lemma merge_from_stage_example:
  "mergeFromStage [''dbo'', ''t''] ''#replicron_bulk_1'' [''id''] [''id'', ''name''] =
   ''MERGE INTO [dbo].[t] AS tgt USING [#replicron_bulk_1] AS src ON tgt.[id] = src.[id] WHEN MATCHED THEN UPDATE SET [name] = src.[name] WHEN NOT MATCHED THEN INSERT ([id], [name]) VALUES (src.[id], src.[name]);''"
  by code_simp

lemma sqlite_upsert_example:
  "d_upsert sqliteDialect [''users''] [''id''] [''id'', ''name''] 1 (d_ph sqliteDialect) =
   ''INSERT INTO \"users\" (\"id\", \"name\") VALUES ($1,$2) ON CONFLICT (\"id\") DO UPDATE SET \"name\" = excluded.\"name\"''"
  by code_simp

section \<open>Properties\<close>

text \<open>
  Quoting is safe for every name, not only for allowed ones: in each of the three
  styles, a dialect that reads a quoted identifier back gets the name itself and stops
  exactly where the quoted text ends.
\<close>
theorem quoted_names_read_back:
  assumes "r = [] \<or> hd r \<notin> {CHR 0x22, CHR 0x60, CHR '']''}"
  shows "lex_quoted (CHR 0x22) (CHR 0x22) (quoteDouble s @ r) = Some (s, r) \<and>
    lex_quoted (CHR 0x60) (CHR 0x60) (quoteBacktick s @ r) = Some (s, r) \<and>
    lex_quoted (CHR ''['') (CHR '']'') (quoteBracket s @ r) = Some (s, r)"
  using assms by (intro conjI dquote.read_back backtick.read_back bracket.read_back) auto

theorem quoted_names_read_back_witness:
  "lex_quoted (CHR 0x22) (CHR 0x22) (quoteDouble [CHR 0x22, CHR ''x''] @ '', '') = Some ([CHR 0x22, CHR ''x''], '', '') \<and>
    lex_quoted (CHR 0x60) (CHR 0x60) (quoteBacktick [CHR 0x22, CHR ''x''] @ '', '') = Some ([CHR 0x22, CHR ''x''], '', '') \<and>
    lex_quoted (CHR ''['') (CHR '']'') (quoteBracket [CHR 0x22, CHR ''x''] @ '', '') = Some ([CHR 0x22, CHR ''x''], '', '')"
  by (rule quoted_names_read_back) simp

text \<open>
  Placeholders and bound values line up: the placeholder printed for column \<open>c\<close> of
  group \<open>r\<close> is the one of index \<open>r * cols + c\<close>, the indices used are 0 up to the number of
  arguments without a gap, and the argument of that index is the value of column \<open>c\<close> in
  row \<open>r\<close>.
\<close>
theorem placeholders_match_arguments:
  "valuesClause (length cols) (length rows) ph =
     join '','' (map (\<lambda>r. ''('' @ join '','' (map (\<lambda>c. ph (r * length cols + c)) [0..<length cols]) @ '')'')
       [0..<length rows]) \<and>
   concat (map (\<lambda>r. map (\<lambda>c. r * length cols + c) [0..<length cols]) [0..<length rows]) =
     [0..<length (flatArgs cols rows)] \<and>
   concat (map (\<lambda>r. map (\<lambda>c. flatArgs cols rows ! (r * length cols + c)) [0..<length cols]) [0..<length rows]) =
     concat (map (\<lambda>r. map (row_get r) cols) rows)"
proof -
  have "map (\<lambda>r. map (\<lambda>c. flatArgs cols rows ! (r * length cols + c)) [0..<length cols]) [0..<length rows] =
      map (\<lambda>r. map (row_get r) cols) rows"
    by (intro nth_equalityI) (auto simp: nth_flatArgs)
  then show ?thesis by (simp add: valuesClause_join placeholder_indices length_flatArgs)
qed

end
