(* ===== verification/Gofmt.thy ===== *)
theory Gofmt
  imports Model
begin

text \<open>
  Texts of values: UTF-8 as Go decodes it, \<open>strconv.Quote\<close>, the verbs of \<open>fmt\<close> the program
  uses, the text \<open>Error()\<close> of an error value, and the JSON form of strings as
  \<open>encoding/json\<close> writes and reads it.
\<close>

section \<open>UTF-8\<close>

definition byte_in :: "nat \<Rightarrow> nat \<Rightarrow> char \<Rightarrow> bool" where
  "byte_in lo hi c \<longleftrightarrow> lo \<le> of_char c \<and> of_char c \<le> hi"

text \<open>The well-formed sequences, as ranges of their bytes (table 3-7 of the Unicode standard).\<close>

abbreviation cont :: "nat \<times> nat" where "cont \<equiv> (0x80, 0xBF)"

definition utf8_table :: "(nat \<times> nat) list list" where
  "utf8_table =
     [[(0x00, 0x7F)],
      [(0xC2, 0xDF), cont],
      [(0xE0, 0xE0), (0xA0, 0xBF), cont],
      [(0xE1, 0xEC), cont, cont],
      [(0xED, 0xED), (0x80, 0x9F), cont],
      [(0xEE, 0xEF), cont, cont],
      [(0xF0, 0xF0), (0x90, 0xBF), cont, cont],
      [(0xF1, 0xF3), cont, cont, cont],
      [(0xF4, 0xF4), (0x80, 0x8F), cont, cont]]"

fun in_ranges :: "(nat \<times> nat) list \<Rightarrow> string \<Rightarrow> bool" where
  "in_ranges [] s = True"
| "in_ranges (r # rs) [] = False"
| "in_ranges (r # rs) (c # cs) = (byte_in (fst r) (snd r) c \<and> in_ranges rs cs)"

text \<open>The length of the valid encoding a byte string begins with, 0 when there is none.\<close>

definition rune_len :: "string \<Rightarrow> nat" where
  "rune_len s = (case find (\<lambda>rs. in_ranges rs s) utf8_table of None \<Rightarrow> 0 | Some rs \<Rightarrow> length rs)"

text \<open>A string as its valid encodings and the bytes that belong to none.\<close>

datatype rune = Rune string | Bad char

function runes :: "string \<Rightarrow> rune list" where
  "runes [] = []"
| "runes (c # cs) =
     (let n = rune_len (c # cs) in
      if n = 0 then Bad c # runes cs else Rune (take n (c # cs)) # runes (drop n (c # cs)))"
  by pat_completeness auto
termination
  by (relation "measure length") auto

text \<open>The code point of a valid encoding.\<close>

definition rune_val :: "string \<Rightarrow> nat" where
  "rune_val bs =
     (case map of_char bs of
        [b] \<Rightarrow> b
      | [b, b1] \<Rightarrow> (b mod 0x20) * 0x40 + b1 mod 0x40
      | [b, b1, b2] \<Rightarrow> (b mod 0x10) * 0x1000 + (b1 mod 0x40) * 0x40 + b2 mod 0x40
      | [b, b1, b2, b3] \<Rightarrow> (b mod 8) * 0x40000 + (b1 mod 0x40) * 0x1000 + (b2 mod 0x40) * 0x40 + b3 mod 0x40
      | _ \<Rightarrow> 0xFFFD)"

text \<open>The encoding of a code point; a surrogate becomes the replacement character.\<close>

definition rune_enc :: "nat \<Rightarrow> string" where
  "rune_enc r = map char_of
     (if r < 0x80 then [r]
      else if r < 0x800 then [0xC0 + r div 0x40, 0x80 + r mod 0x40]
      else if (0xD800 \<le> r \<and> r < 0xE000) \<or> 0x10FFFF < r then [0xEF, 0xBF, 0xBD]
      else if r < 0x10000 then [0xE0 + r div 0x1000, 0x80 + r div 0x40 mod 0x40, 0x80 + r mod 0x40]
      else [0xF0 + r div 0x40000, 0x80 + r div 0x1000 mod 0x40, 0x80 + r div 0x40 mod 0x40, 0x80 + r mod 0x40])"

fun rune_bytes :: "rune \<Rightarrow> string" where
  "rune_bytes (Rune bs) = bs"
| "rune_bytes (Bad c) = [c]"

text \<open>Each byte of no valid encoding replaced by U+FFFD.\<close>

fun rune_fixed :: "rune \<Rightarrow> string" where
  "rune_fixed (Rune bs) = bs"
| "rune_fixed (Bad c) = [CHR 0xEF, CHR 0xBF, CHR 0xBD]"

definition to_valid :: "string \<Rightarrow> string" where
  "to_valid s = concat (map rune_fixed (runes s))"

definition valid_utf8 :: "string \<Rightarrow> bool" where
  "valid_utf8 s \<longleftrightarrow> list_all (\<lambda>r. case r of Rune _ \<Rightarrow> True | Bad _ \<Rightarrow> False) (runes s)"

lemma runes_bytes: "concat (map rune_bytes (runes s)) = s"
proof (induction s rule: runes.induct)
  case (2 c cs)
  then show ?case by (cases "rune_len (c # cs) = 0") (simp_all add: Let_def)
qed simp

lemma to_valid_id: "valid_utf8 s \<Longrightarrow> to_valid s = s"
proof -
  assume "valid_utf8 s"
  then have "rune_fixed r = rune_bytes r" if "r \<in> set (runes s)" for r
    using that by (cases r) (auto simp: valid_utf8_def list_all_iff)
  then have "map rune_fixed (runes s) = map rune_bytes (runes s)" by simp
  then show "to_valid s = s" unfolding to_valid_def by (simp only: runes_bytes)
qed

lemma runes_ascii: "\<forall>c \<in> set s. of_char c < (0x80 :: nat) \<Longrightarrow> runes s = map (\<lambda>c. Rune [c]) s"
proof (induction s)
  case (Cons c cs)
  then have "rune_len (c # cs) = 1" by (simp add: rune_len_def utf8_table_def byte_in_def)
  with Cons show ?case by simp
qed simp

lemma ascii_valid: "\<forall>c \<in> set s. of_char c < (0x80 :: nat) \<Longrightarrow> valid_utf8 s"
  by (simp add: valid_utf8_def runes_ascii list_all_iff)

text \<open>What a run of \<open>runes\<close> can hold.\<close>

definition rune_shape :: "string \<Rightarrow> bool" where
  "rune_shape bs \<longleftrightarrow> (\<exists>c. bs = [c] \<and> of_char c < (0x80 :: nat)) \<or> (bs \<noteq> [] \<and> (\<forall>c \<in> set bs. (0x80 :: nat) \<le> of_char c))"

lemma in_ranges_take: "in_ranges rs s \<Longrightarrow> list_all2 (\<lambda>r c. byte_in (fst r) (snd r) c) rs (take (length rs) s)"
  by (induction rs s rule: in_ranges.induct) auto

lemma ranges_low:
  "list_all2 (\<lambda>r c. byte_in (fst r) (snd r) c) rs cs \<Longrightarrow> \<forall>r \<in> set rs. lo \<le> fst r \<Longrightarrow> \<forall>c \<in> set cs. lo \<le> of_char c"
  by (induction rule: list_all2_induct) (auto simp: byte_in_def)

lemma utf8_table_shape: "rs \<in> set utf8_table \<Longrightarrow> rs = [(0, 0x7F)] \<or> rs \<noteq> [] \<and> (\<forall>r \<in> set rs. 0x80 \<le> fst r)"
  by (auto simp: utf8_table_def)

lemma rune_len_shape:
  assumes "0 < rune_len s"
  shows "rune_shape (take (rune_len s) s)"
proof -
  obtain rs where rs: "find (\<lambda>rs. in_ranges rs s) utf8_table = Some rs" "rune_len s = length rs"
    using assms by (auto simp: rune_len_def split: option.splits)
  then have tab: "rs \<in> set utf8_table" and r: "list_all2 (\<lambda>r c. byte_in (fst r) (snd r) c) rs (take (length rs) s)"
    by (auto simp: find_Some_iff intro!: in_ranges_take)
  from utf8_table_shape [OF tab] show ?thesis
  proof
    assume a: "rs = [(0, 0x7F)]"
    with r obtain c where "take (length rs) s = [c]" "of_char c \<le> (0x7F :: nat)"
      by (auto simp: byte_in_def list_all2_Cons1)
    then show ?thesis by (simp add: rs(2) rune_shape_def)
  next
    assume a: "rs \<noteq> [] \<and> (\<forall>r \<in> set rs. 0x80 \<le> fst r)"
    then have "0x80 \<le> (of_char c :: nat)" if "c \<in> set (take (length rs) s)" for c
      using ranges_low [OF r] that by blast
    moreover have "take (length rs) s \<noteq> []" using a r by auto
    ultimately show ?thesis by (simp add: rs(2) rune_shape_def)
  qed
qed

lemma runes_shape: "Rune bs \<in> set (runes s) \<Longrightarrow> rune_shape bs"
proof (induction s rule: runes.induct)
  case (2 c cs)
  then show ?case
    using rune_len_shape [of "c # cs"] by (cases "rune_len (c # cs) = 0") (auto simp: Let_def)
qed simp

section \<open>strconv.Quote\<close>

definition hex_digit :: "nat \<Rightarrow> char" where
  "hex_digit d = char_of (if d < 10 then 48 + d else 87 + d)"

fun hex :: "nat \<Rightarrow> nat \<Rightarrow> string" where
  "hex 0 n = []"
| "hex (Suc w) n = hex w (n div 16) @ [hex_digit (n mod 16)]"

text \<open>The library's texts that are parameters: a \<open>float64\<close>'s shortest decimal text and its
  parser, \<open>%v\<close> of a float, a time or a value of another type, and which code points beyond
  ASCII are printable. What the code relies on is that the shortest text parses back.\<close>

record float_text =
  ft_format :: "f64 \<Rightarrow> string"
  ft_parse :: "string \<Rightarrow> f64 option"
  ft_show :: "go_value \<Rightarrow> string"
  ft_print :: "nat \<Rightarrow> bool"

text \<open>The short escapes of control characters.\<close>

definition quote_short :: "nat \<Rightarrow> string option" where
  "quote_short b = map_option (\<lambda>c. [CHR 0x5C, c]) (map_of
     [(7, CHR ''a''), (8, CHR ''b''), (12, CHR ''f''), (10, CHR 0x6E), (13, CHR ''r''), (9, CHR ''t''), (11, CHR ''v'')] b)"

definition quote_rune :: "float_text \<Rightarrow> rune \<Rightarrow> string" where
  "quote_rune F r =
     (case r of
        Bad c \<Rightarrow> [CHR 0x5C, CHR ''x''] @ hex 2 (of_char c)
      | Rune bs \<Rightarrow>
          let v = rune_val bs in
          if bs = [CHR 0x22] \<or> bs = [CHR 0x5C] then CHR 0x5C # bs
          else if v < 0x80 then
            (if 0x20 \<le> v \<and> v < 0x7F then bs
             else case quote_short v of Some e \<Rightarrow> e | None \<Rightarrow> [CHR 0x5C, CHR ''x''] @ hex 2 v)
          else if ft_print F v then bs
          else if v < 0x10000 then [CHR 0x5C, CHR ''u''] @ hex 4 v
          else [CHR 0x5C, CHR ''U''] @ hex 8 v)"

definition quote :: "float_text \<Rightarrow> string \<Rightarrow> string" where
  "quote F s = [CHR 0x22] @ concat (map (quote_rune F) (runes s)) @ [CHR 0x22]"

section \<open>fmt\<close>

text \<open>\<open>%v\<close> of a dynamic value.\<close>

fun show_value :: "float_text \<Rightarrow> go_value \<Rightarrow> string" where
  "show_value F VNil = ''<nil>''"
| "show_value F (VInt i) = itoa (sint i)"
| "show_value F (VInt64 i) = itoa (sint i)"
| "show_value F (VStr s) = s"
| "show_value F (VBytes s) = ''['' @ join '' '' (map (\<lambda>c. nat_str (of_char c)) s) @ '']''"
| "show_value F (VBool b) = (if b then ''true'' else ''false'')"
| "show_value F v = ft_show F v"

text \<open>A format with its arguments, each given as its text per verb; \<open>%w\<close> takes the wrapped
  error's.\<close>

fun sprintf :: "string \<Rightarrow> (char \<Rightarrow> string) list \<Rightarrow> string \<Rightarrow> string" where
  "sprintf [] as w = []"
| "sprintf [c] as w = (if c = CHR ''%'' then ''%!(NOVERB)'' else [c])"
| "sprintf (c # v # cs) as w =
     (if c \<noteq> CHR ''%'' then c # sprintf (v # cs) as w
      else if v = CHR ''w'' then w @ sprintf cs as w
      else case as of
             [] \<Rightarrow> ''%!'' @ [v] @ ''(MISSING)'' @ sprintf cs [] w
           | a # as \<Rightarrow> a v @ sprintf cs as w)"

text \<open>The text of an argument under a verb, and of an error value.\<close>

fun arg_text :: "float_text \<Rightarrow> arg \<Rightarrow> char \<Rightarrow> string"
  and err_text :: "float_text \<Rightarrow> error \<Rightarrow> string" where
  "arg_text F (AStr s) = (\<lambda>v. if v = CHR ''q'' then quote F s else s)"
| "arg_text F (AInt i) = (\<lambda>v. itoa i)"
| "arg_text F (AStrs ss) = (\<lambda>v. ''['' @ join '' '' ss @ '']'')"
| "arg_text F (AVal x) = (\<lambda>v. show_value F x)"
| "arg_text F (AErr e) = (\<lambda>v. err_text F e)"
| "err_text F (External s) = s"
| "err_text F (Errorf f as) = sprintf f (map (arg_text F) as) []"
| "err_text F (Wrapf f as e) = sprintf f (map (arg_text F) as) (err_text F e)"

text \<open>A result's error as the string field holds it.\<close>

definition opt_text :: "float_text \<Rightarrow> error option \<Rightarrow> string" where
  "opt_text F e = (case e of None \<Rightarrow> [] | Some e \<Rightarrow> err_text F e)"

section \<open>encoding/json: strings\<close>

text \<open>What \<open>Marshal\<close> writes for one code point or stray byte: \<open>"\<close>, \<open>\\<close>, control characters, the
  three characters of HTML and the two line separators are escaped.\<close>

definition json_byte :: "char \<Rightarrow> string" where
  "json_byte c =
     (if c = CHR 0x22 \<or> c = CHR 0x5C then [CHR 0x5C, c]
      else if of_char c < (0x20 :: nat) then
        (case map_of [(CHR 0x08, CHR ''b''), (CHR 0x0C, CHR ''f''), (CHR 0x0A, CHR 0x6E), (CHR 0x0D, CHR ''r''), (CHR 0x09, CHR ''t'')] c of
           Some e \<Rightarrow> [CHR 0x5C, e]
         | None \<Rightarrow> [CHR 0x5C, CHR ''u''] @ hex 4 (of_char c))
      else if c = CHR ''<'' \<or> c = CHR ''>'' \<or> c = CHR ''&'' then [CHR 0x5C, CHR ''u''] @ hex 4 (of_char c)
      else [c])"

definition json_rune :: "rune \<Rightarrow> string" where
  "json_rune r =
     (case r of
        Bad c \<Rightarrow> [CHR 0x5C, CHR ''u''] @ hex 4 0xFFFD
      | Rune [c] \<Rightarrow> json_byte c
      | Rune bs \<Rightarrow>
          if bs = rune_enc 0x2028 \<or> bs = rune_enc 0x2029 then [CHR 0x5C, CHR ''u''] @ hex 4 (rune_val bs) else bs)"

definition json_string :: "string \<Rightarrow> string" where
  "json_string s = [CHR 0x22] @ concat (map json_rune (runes s)) @ [CHR 0x22]"

definition json_strings :: "string list \<Rightarrow> string" where
  "json_strings ss = ''['' @ join '','' (map json_string ss) @ '']''"

text \<open>Reading: an escape sequence after \<open>\u\<close> (a surrogate pair is one code point), a string up to its
  closing quote, and an array of strings. It reads the texts \<open>Marshal\<close> writes, which are valid
  UTF-8 without white space between the tokens.\<close>

definition hex_value :: "char \<Rightarrow> nat option" where
  "hex_value c =
     (let b = of_char c in
      if 48 \<le> b \<and> b \<le> 57 then Some (b - 48)
      else if 97 \<le> b \<and> b \<le> 102 then Some (b - 87)
      else if 65 \<le> b \<and> b \<le> 70 then Some (b - 55)
      else None)"

fun hex4 :: "string \<Rightarrow> (nat \<times> string) option" where
  "hex4 (a # b # c # d # s) =
     (case (hex_value a, hex_value b, hex_value c, hex_value d) of
        (Some x, Some y, Some z, Some w) \<Rightarrow> Some (((x * 16 + y) * 16 + z) * 16 + w, s)
      | _ \<Rightarrow> None)"
| "hex4 _ = None"

definition json_escape :: "string \<Rightarrow> (string \<times> string) option" where
  "json_escape s =
     (case hex4 s of
        None \<Rightarrow> None
      | Some (v, s1) \<Rightarrow>
          if 0xD800 \<le> v \<and> v < 0xDC00 \<and> take 2 s1 = [CHR 0x5C, CHR ''u''] then
            (case hex4 (drop 2 s1) of
               None \<Rightarrow> Some (rune_enc v, s1)
             | Some (w, s2) \<Rightarrow>
                 if 0xDC00 \<le> w \<and> w < 0xE000
                 then Some (rune_enc (0x10000 + (v - 0xD800) * 0x400 + (w - 0xDC00)), s2)
                 else Some (rune_enc v, s1))
          else Some (rune_enc v, s1))"

lemma hex4_shorter: "hex4 s = Some (v, r) \<Longrightarrow> length r < length s"
  by (cases s rule: hex4.cases) (auto split: option.splits)

lemma json_escape_shorter [termination_simp]: "json_escape s = Some (bs, r) \<Longrightarrow> length r < length s"
  by (auto simp: json_escape_def split: option.splits if_splits dest!: hex4_shorter)

definition json_short :: "char \<Rightarrow> char option" where
  "json_short = map_of
     [(CHR 0x22, CHR 0x22), (CHR 0x5C, CHR 0x5C), (CHR ''/'', CHR ''/''), (CHR ''b'', CHR 0x08),
      (CHR ''f'', CHR 0x0C), (CHR 0x6E, CHR 0x0A), (CHR ''r'', CHR 0x0D), (CHR ''t'', CHR 0x09)]"

text \<open>One character of a string, escaped or as it is.\<close>

definition json_token :: "string \<Rightarrow> (string \<times> string) option" where
  "json_token s =
     (case s of
        [] \<Rightarrow> None
      | c # s1 \<Rightarrow>
          if c = CHR 0x5C then
            (case s1 of
               [] \<Rightarrow> None
             | e # s2 \<Rightarrow>
                 if e = CHR ''u'' then json_escape s2
                 else map_option (\<lambda>x. ([x], s2)) (json_short e))
          else if of_char c < (0x20 :: nat) then None
          else Some ([c], s1))"

lemma json_token_shorter [termination_simp]: "json_token s = Some (bs, r) \<Longrightarrow> length r < length s"
  by (auto simp: json_token_def split: list.splits if_splits dest!: json_escape_shorter)

definition prepend :: "string \<Rightarrow> (string \<times> string) option \<Rightarrow> (string \<times> string) option" where
  "prepend bs z = map_option (\<lambda>(x, r). (bs @ x, r)) z"

function json_chars :: "string \<Rightarrow> (string \<times> string) option" where
  "json_chars s =
     (if s \<noteq> [] \<and> hd s = CHR 0x22 then Some ([], tl s)
      else case json_token s of
             None \<Rightarrow> None
           | Some (bs, r) \<Rightarrow> prepend bs (json_chars r))"
  by pat_completeness auto
termination
  by (relation "measure length") (auto dest: json_token_shorter)

declare json_chars.simps [simp del]

lemma json_chars_shorter: "json_chars s = Some (x, r) \<Longrightarrow> length r < length s"
proof (induction s arbitrary: x r rule: json_chars.induct)
  case (1 s)
  show ?case
  proof (cases "s \<noteq> [] \<and> hd s = CHR 0x22")
    case True
    with "1.prems" show ?thesis by (subst (asm) json_chars.simps) (cases s, auto)
  next
    case False
    with "1.prems" obtain bs r1 x1 where t: "json_token s = Some (bs, r1)" "json_chars r1 = Some (x1, r)"
      by (subst (asm) json_chars.simps) (auto simp: prepend_def split: option.splits)
    have "length r < length r1" using "1.IH" [OF _ t(1) refl t(2)] False by auto
    with json_token_shorter [OF t(1)] show ?thesis by simp
  qed
qed

function json_items :: "string \<Rightarrow> string list option" where
  "json_items s =
     (if s = [] \<or> hd s \<noteq> CHR 0x22 then None
      else case json_chars (tl s) of
             None \<Rightarrow> None
           | Some (x, r) \<Rightarrow>
               if r = '']'' then Some [x]
               else if r \<noteq> [] \<and> hd r = CHR '','' then map_option (Cons x) (json_items (tl r))
               else None)"
  by pat_completeness auto
termination
proof (relation "measure length", goal_cases)
  case (2 s p x r)
  then have "length r < length (tl s)" using json_chars_shorter by blast
  then show ?case by simp
qed simp

declare json_items.simps [simp del]

definition json_read :: "string \<Rightarrow> string list option" where
  "json_read s = (if s = ''[]'' then Some [] else if s \<noteq> [] \<and> hd s = CHR ''['' then json_items (tl s) else None)"

section \<open>Reading what was written\<close>

lemma json_chars_quote: "json_chars (CHR 0x22 # t) = Some ([], t)"
  by (subst json_chars.simps) simp

lemma json_chars_token:
  "s = [] \<or> hd s \<noteq> CHR 0x22 \<Longrightarrow> json_token s = Some (bs, t) \<Longrightarrow> json_chars s = prepend bs (json_chars t)"
  by (subst json_chars.simps) auto

lemma prepend_simps [simp]:
  "prepend [] z = z" "prepend bs (Some (x, r)) = Some (bs @ x, r)" "prepend bs z = Some y \<longleftrightarrow> (\<exists>x r. z = Some (x, r) \<and> y = (bs @ x, r))"
  by (cases z; auto simp: prepend_def)+

lemma prepend_twice: "prepend xs (prepend ys z) = prepend (xs @ ys) z"
  by (cases z) (auto simp: prepend_def)

lemma json_chars_high:
  "\<forall>c \<in> set bs. (0x80 :: nat) \<le> of_char c \<Longrightarrow> json_chars (bs @ t) = prepend bs (json_chars t)"
proof (induction bs)
  case (Cons c bs)
  then have c: "(0x80 :: nat) \<le> of_char c" by simp
  then have n: "c \<noteq> CHR 0x22" "c \<noteq> CHR 0x5C" by auto
  have "json_token ((c # bs) @ t) = Some ([c], bs @ t)" using n c by (simp add: json_token_def)
  then have "json_chars ((c # bs) @ t) = prepend [c] (json_chars (bs @ t))"
    using n by (intro json_chars_token) simp_all
  with Cons show ?case by (simp add: prepend_twice)
qed simp

lemma hex_value_digit: "d < 16 \<Longrightarrow> hex_value (hex_digit d) = Some d"
proof -
  assume d: "d < 16"
  then have "of_char (hex_digit d) = (if d < 10 then 48 + d else 87 + d)" by (simp add: hex_digit_def)
  with d show "hex_value (hex_digit d) = Some d" by (simp add: hex_value_def Let_def)
qed

lemma hex4_hex:
  assumes "v < 0x10000"
  shows "hex4 (hex 4 v @ t) = Some (v, t)"
proof -
  define a b c where "a = v div 16" and "b = a div 16" and "c = b div 16"
  have h: "hex 4 v = [hex_digit (c mod 16), hex_digit (b mod 16), hex_digit (a mod 16), hex_digit (v mod 16)]"
  proof -
    have "(4 :: nat) = Suc (Suc (Suc (Suc 0)))" by simp
    then show ?thesis by (simp only: hex.simps a_def b_def c_def append.simps)
  qed
  have "c < 16" using assms by (simp add: a_def b_def c_def less_mult_imp_div_less)
  then have "((c mod 16 * 16 + b mod 16) * 16 + a mod 16) * 16 + v mod 16 = v"
    using div_mult_mod_eq [of v 16] div_mult_mod_eq [of a 16] div_mult_mod_eq [of b 16]
    by (simp only: a_def [symmetric] b_def [symmetric] c_def [symmetric]) simp
  then show ?thesis by (simp add: h hex_value_digit)
qed

lemma json_chars_escape:
  assumes "v < 0x10000" "\<not> (0xD800 \<le> v \<and> v < 0xE000)"
  shows "json_chars ([CHR 0x5C, CHR ''u''] @ hex 4 v @ t) = prepend (rune_enc v) (json_chars t)"
proof (rule json_chars_token)
  show "json_token ([CHR 0x5C, CHR ''u''] @ hex 4 v @ t) = Some (rune_enc v, t)"
    using assms by (auto simp: json_token_def json_escape_def hex4_hex)
qed simp

lemma json_chars_short:
  assumes "json_short e = Some x" "e \<noteq> CHR ''u''"
  shows "json_chars (CHR 0x5C # e # t) = prepend [x] (json_chars t)"
  by (rule json_chars_token) (use assms in \<open>simp_all add: json_token_def\<close>)

lemma rune_enc_ascii: "of_char c < (0x80 :: nat) \<Longrightarrow> rune_enc (of_char c) = [c]"
  by (simp add: rune_enc_def)

lemma rune_val_byte: "rune_val [c] = of_char c"
  by (simp add: rune_val_def)

lemma json_chars_ascii:
  assumes c: "of_char c < (0x80 :: nat)"
  shows "json_chars (json_byte c @ t) = prepend [c] (json_chars t)"
proof (cases "c = CHR 0x22 \<or> c = CHR 0x5C")
  case True
  then have "json_short c = Some c" "c \<noteq> CHR ''u''" by (auto simp: json_short_def)
  then show ?thesis using True json_chars_short [of c c t] by (simp add: json_byte_def)
next
  case plain: False
  have esc: "json_chars (([CHR 0x5C, CHR ''u''] @ hex 4 (of_char c)) @ t) = prepend [c] (json_chars t)"
    using json_chars_escape [of "of_char c" t] c by (simp add: rune_enc_ascii)
  let ?m = "map_of [(CHR 0x08, CHR ''b''), (CHR 0x0C, CHR ''f''), (CHR 0x0A, CHR 0x6E), (CHR 0x0D, CHR ''r''), (CHR 0x09, CHR ''t'')] c"
  have jb: "json_byte c = (if of_char c < (0x20 :: nat) then
      (case ?m of Some e \<Rightarrow> [CHR 0x5C, e] | None \<Rightarrow> [CHR 0x5C, CHR ''u''] @ hex 4 (of_char c))
      else if c = CHR ''<'' \<or> c = CHR ''>'' \<or> c = CHR ''&'' then [CHR 0x5C, CHR ''u''] @ hex 4 (of_char c) else [c])"
    unfolding json_byte_def by (simp only: plain if_False)
  consider (short) e where "of_char c < (0x20 :: nat)" "?m = Some e" "json_byte c = [CHR 0x5C, e]"
    | (hex) "json_byte c = [CHR 0x5C, CHR ''u''] @ hex 4 (of_char c)"
    | (raw) "\<not> of_char c < (0x20 :: nat)" "json_byte c = [c]"
    unfolding jb by (cases "of_char c < (0x20 :: nat)"; cases ?m; simp only: if_True if_False option.case) (meson | blast)+
  then show ?thesis
  proof cases
    case short
    have "json_short e = Some c" "e \<noteq> CHR ''u''" using short(2) by (auto simp: json_short_def split: if_splits)
    then show ?thesis using json_chars_short [of e c t] short(3) by simp
  next
    case hex
    with esc show ?thesis by simp
  next
    case raw
    then have "json_token (c # t) = Some ([c], t)" using plain by (simp add: json_token_def)
    then show ?thesis using plain raw(2) by (simp add: json_chars_token)
  qed
qed

lemma json_chars_rune:
  assumes "case r of Rune bs \<Rightarrow> rune_shape bs | Bad c \<Rightarrow> True"
  shows "json_chars (json_rune r @ t) = prepend (rune_fixed r) (json_chars t)"
proof (cases r)
  case (Bad c)
  have "rune_enc 0xFFFD = [CHR 0xEF, CHR 0xBF, CHR 0xBD]" by (simp add: rune_enc_def char_of_def bit_0)
  with Bad show ?thesis using json_chars_escape [of "0xFFFD" t] by (simp add: json_rune_def)
next
  case (Rune bs)
  have sep: "json_chars (json_rune (Rune (rune_enc v)) @ t) = prepend (rune_enc v) (json_chars t)"
    if "v = 0x2028 \<or> v = 0x2029" for v
  proof -
    have "rune_enc 0x2028 = [CHR 0xE2, CHR 0x80, CHR 0xA8]" "rune_enc 0x2029 = [CHR 0xE2, CHR 0x80, CHR 0xA9]"
      "rune_val [CHR 0xE2, CHR 0x80, CHR 0xA8] = 0x2028" "rune_val [CHR 0xE2, CHR 0x80, CHR 0xA9] = 0x2029"
      by (simp_all add: rune_enc_def rune_val_def char_of_def bit_0)
    with that have "json_rune (Rune (rune_enc v)) = [CHR 0x5C, CHR ''u''] @ hex 4 v" by (auto simp: json_rune_def)
    with that show ?thesis using json_chars_escape [of v t] by auto
  qed
  from Rune assms consider (low) c where "bs = [c]" "of_char c < (0x80 :: nat)"
    | (high) "bs \<noteq> []" "\<forall>c \<in> set bs. (0x80 :: nat) \<le> of_char c"
    by (auto simp: rune_shape_def)
  then show ?thesis
  proof cases
    case low
    with Rune json_chars_ascii show ?thesis by (simp add: json_rune_def)
  next
    case high
    show ?thesis
    proof (cases "bs = rune_enc 0x2028 \<or> bs = rune_enc 0x2029")
      case True
      with sep Rune show ?thesis by auto
    next
      case False
      have "json_byte c = [c]" if "(0x80 :: nat) \<le> of_char c" for c
        using that by (auto simp: json_byte_def)
      with False high Rune have "json_rune r = bs" by (auto simp: json_rune_def split: list.split)
      with high Rune json_chars_high show ?thesis by simp
    qed
  qed
qed

lemma json_chars_runes:
  "\<forall>r \<in> set rs. case r of Rune bs \<Rightarrow> rune_shape bs | Bad c \<Rightarrow> True \<Longrightarrow>
    json_chars (concat (map json_rune rs) @ CHR 0x22 # t) = Some (concat (map rune_fixed rs), t)"
proof (induction rs)
  case (Cons r rs)
  then have "json_chars (json_rune r @ concat (map json_rune rs) @ CHR 0x22 # t) =
      prepend (rune_fixed r) (Some (concat (map rune_fixed rs), t))"
    by (subst json_chars_rune) simp_all
  then show ?case by simp
qed (simp add: json_chars_quote)

lemma json_chars_string: "json_chars (tl (json_string s) @ t) = Some (to_valid s, t)"
proof -
  have "\<forall>r \<in> set (runes s). case r of Rune bs \<Rightarrow> rune_shape bs | Bad c \<Rightarrow> True"
    using runes_shape by (auto split: rune.split)
  from json_chars_runes [OF this, of t] show ?thesis by (simp add: json_string_def to_valid_def)
qed

lemma json_items_join: "ss \<noteq> [] \<Longrightarrow> json_items (join '','' (map json_string ss) @ '']'') = Some (map to_valid ss)"
proof (induction ss)
  case (Cons s ss)
  have hd: "json_string s @ t \<noteq> []" "hd (json_string s @ t) = CHR 0x22" "tl (json_string s @ t) = tl (json_string s) @ t" for t
    by (simp_all add: json_string_def)
  show ?case
  proof (cases ss)
    case Nil
    then show ?thesis by (subst json_items.simps) (simp add: hd json_chars_string)
  next
    case (Cons s2 ss2)
    then have "join '','' (map json_string (s # ss)) @ '']'' = json_string s @ '','' @ join '','' (map json_string ss) @ '']''"
      by (simp add: join_Cons)
    then show ?thesis using Cons.IH Cons
      by (subst json_items.simps) (simp add: hd json_chars_string)
  qed
qed simp

text \<open>An array of strings reads back, but for bytes that are not UTF-8, which come back as U+FFFD.\<close>

lemma json_read_strings: "json_read (json_strings ss) = Some (map to_valid ss)"
proof (cases ss)
  case (Cons s ss')
  have "join '','' (map json_string ss) @ '']'' \<noteq> '']''"
    using Cons by (cases ss') (simp_all add: json_string_def)
  with json_items_join [of ss] Cons show ?thesis by (simp add: json_read_def json_strings_def)
qed (simp add: json_read_def json_strings_def)

end
