(* ===== verification/Runlog.thy ===== *)
theory Runlog
  imports Gofmt
begin

text \<open>
  \<open>internal/runlog/runlog.go\<close>: the run log, its events and the stored watermarks, as the
  tables of one SQLite file.

  A store is the contents of the three tables with the two AUTOINCREMENT counters. Each SQL
  statement draws its outcome from the store's fault list (empty: no faults); a statement
  that fails changes nothing. A nullable text column whose readers do not distinguish NULL
  from the empty text is an \<open>option\<close>. Columns hold the texts the code writes, JSON included. The current time is an argument of the operations that read it.
\<close>

section \<open>Tables\<close>

record run_row =
  rw_id :: int
  rw_task :: string
  rw_trigger_kind :: string
  rw_status :: RunStatus
  rw_total_rows :: int
  rw_ok_rows :: int
  rw_fail_rows :: int
  rw_error :: "string option"
  rw_samples :: "string option"
  rw_started_at :: string
  rw_finished_at :: "string option"

text \<open>The three payloads the engine writes.\<close>

datatype payload =
    PProgress int int int          \<comment> \<open>seen, ok, fail\<close>
  | PHeld string int               \<comment> \<open>reason, count\<close>
  | PValue string

text \<open>Their JSON; \<open>Marshal\<close> sorts the keys of a map and cannot fail on these.\<close>

fun payload_json :: "payload \<Rightarrow> string" where
  "payload_json (PProgress seen ok fail) =
     ''{\"fail\":'' @ itoa fail @ '',\"ok\":'' @ itoa ok @ '',\"seen\":'' @ itoa seen @ ''}''"
| "payload_json (PHeld reason count) =
     ''{\"count\":'' @ itoa count @ '',\"reason\":'' @ json_string reason @ ''}''"
| "payload_json (PValue v) = ''{\"value\":'' @ json_string v @ ''}''"

record event_row =
  ev_id :: int
  ev_run_id :: int
  ev_kind :: string
  ev_payload :: string
  ev_ts :: string

record Store =
  st_runs :: "run_row list"
  st_run_seq :: int
  st_events :: "event_row list"
  st_event_seq :: int
  st_state :: "string \<rightharpoonup> string \<times> string"   \<comment> \<open>task, to kind and value\<close>
  st_faults :: "error option list"

definition new_store :: Store where
  "new_store = \<lparr>st_runs = [], st_run_seq = 0, st_events = [], st_event_seq = 0, st_state = Map.empty, st_faults = []\<rparr>"

definition nowUTC :: "gotime \<Rightarrow> string" where
  "nowUTC now = fmt_rfc3339 (utc now)"

definition sql :: "Store \<Rightarrow> error option \<times> Store" where
  "sql S = (case st_faults S of [] \<Rightarrow> (None, S) | f # fs \<Rightarrow> (f, S\<lparr>st_faults := fs\<rparr>))"

section \<open>Opening\<close>

fun migrate_stmts :: "nat \<Rightarrow> Store \<Rightarrow> error option \<times> Store" where
  "migrate_stmts 0 S = (None, S)"
| "migrate_stmts (Suc n) S =
     (case sql S of
        (Some e, S) \<Rightarrow> (Some (Wrapf ''migrate: %w'' [] e), S)
      | (None, S) \<Rightarrow> migrate_stmts n S)"

text \<open>\<open>migrate\<close>: five statements, each \<open>IF NOT EXISTS\<close>, so they keep existing tables.\<close>

definition migrate :: "Store \<Rightarrow> error option \<times> Store" where
  "migrate S = migrate_stmts 5 S"

definition sweep_row :: "gotime \<Rightarrow> run_row \<Rightarrow> run_row" where
  "sweep_row now r =
     (if rw_status r = Running
      then r\<lparr>rw_status := Interrupted, rw_finished_at := Some (nowUTC now),
             rw_error := (case rw_error r of
                            None \<Rightarrow> Some ''run interrupted by process restart''
                          | Some e \<Rightarrow> Some (if e = [] then ''run interrupted by process restart'' else e))\<rparr>
      else r)"

definition sweepInterrupted :: "gotime \<Rightarrow> Store \<Rightarrow> error option \<times> Store" where
  "sweepInterrupted now S =
     (case sql S of
        (Some e, S) \<Rightarrow> (Some (Wrapf ''sweep interrupted runs: %w'' [] e), S)
      | (None, S) \<Rightarrow> (None, S\<lparr>st_runs := map (sweep_row now) (st_runs S)\<rparr>))"

text \<open>\<open>Open\<close>: the outcomes of \<open>os.MkdirAll\<close> and \<open>sql.Open\<close> are arguments; the store that is
  returned is the file's contents.\<close>

definition Open :: "string \<Rightarrow> error option \<Rightarrow> error option \<Rightarrow> gotime \<Rightarrow> Store \<Rightarrow> error option \<times> Store" where
  "Open path mkdir_err open_err now S =
     (case (if path \<noteq> '':memory:'' then mkdir_err else None) of
        Some e \<Rightarrow> (Some (Wrapf ''create run log directory: %w'' [] e), S)
      | None \<Rightarrow>
          (case open_err of
             Some e \<Rightarrow> (Some e, S)
           | None \<Rightarrow>
               (case migrate S of
                  (Some e, S) \<Rightarrow> (Some e, S)
                | (None, S) \<Rightarrow> sweepInterrupted now S)))"

section \<open>Runs\<close>

definition started_row :: "gotime \<Rightarrow> string \<Rightarrow> string \<Rightarrow> int \<Rightarrow> run_row" where
  "started_row now task trigger i =
     \<lparr>rw_id = i, rw_task = task, rw_trigger_kind = trigger, rw_status = Running,
      rw_total_rows = 0, rw_ok_rows = 0, rw_fail_rows = 0, rw_error = None,
      rw_samples = None, rw_started_at = nowUTC now, rw_finished_at = None\<rparr>"

text \<open>The second draw is the outcome of \<open>res.LastInsertId()\<close>.\<close>

definition StartRun :: "gotime \<Rightarrow> string \<Rightarrow> string \<Rightarrow> Store \<Rightarrow> (error + int) \<times> Store" where
  "StartRun now task trigger S =
     (case sql S of
        (Some e, S) \<Rightarrow> (Inl e, S)
      | (None, S) \<Rightarrow>
          let i = st_run_seq S + 1
          in case sql (S\<lparr>st_runs := st_runs S @ [started_row now task trigger i], st_run_seq := i\<rparr>) of
               (Some e, S) \<Rightarrow> (Inl e, S)
             | (None, S) \<Rightarrow> (Inr i, S))"

definition samples_text :: "float_text \<Rightarrow> error list \<Rightarrow> string" where
  "samples_text F es = (if es = [] then ''[]'' else json_strings (map (err_text F) es))"

definition finish_row :: "float_text \<Rightarrow> gotime \<Rightarrow> RunResult \<Rightarrow> run_row \<Rightarrow> run_row" where
  "finish_row F now r row =
     row\<lparr>rw_status := rr_Status r, rw_total_rows := rr_TotalRows r, rw_ok_rows := rr_OKRows r,
         rw_fail_rows := rr_FailRows r, rw_error := Some (opt_text F (rr_Err r)),
         rw_samples := Some (samples_text F (rr_Samples r)),
         rw_finished_at := Some (nowUTC now)\<rparr>"

definition FinishRun :: "float_text \<Rightarrow> gotime \<Rightarrow> int \<Rightarrow> RunResult \<Rightarrow> Store \<Rightarrow> error option \<times> Store" where
  "FinishRun F now i r S =
     (case sql S of
        (Some e, S) \<Rightarrow> (Some e, S)
      | (None, S) \<Rightarrow>
          (None, S\<lparr>st_runs := map (\<lambda>row. if rw_id row = i then finish_row F now r row else row) (st_runs S)\<rparr>))"

definition scanRun :: "run_row \<Rightarrow> Run" where
  "scanRun row =
     \<lparr>run_ID = rw_id row, run_Task = rw_task row, run_Trigger = rw_trigger_kind row,
      run_Status = rw_status row, run_TotalRows = rw_total_rows row, run_OKRows = rw_ok_rows row,
      run_FailRows = rw_fail_rows row, run_Error = (case rw_error row of None \<Rightarrow> [] | Some s \<Rightarrow> s),
      run_Samples = (case rw_samples row of
                       None \<Rightarrow> []
                     | Some s \<Rightarrow> if s = [] then [] else case json_read s of None \<Rightarrow> [] | Some xs \<Rightarrow> xs),
      run_StartedAt = parse_rfc3339 (rw_started_at row),
      run_FinishedAt = (case rw_finished_at row of None \<Rightarrow> None | Some s \<Rightarrow> parse_rfc3339 s)\<rparr>"

definition GetRun :: "int \<Rightarrow> Store \<Rightarrow> (error + Run option) \<times> Store" where
  "GetRun i S =
     (case sql S of
        (Some e, S) \<Rightarrow> (Inl e, S)
      | (None, S) \<Rightarrow> (Inr (map_option scanRun (find (\<lambda>r. rw_id r = i) (st_runs S))), S))"

text \<open>\<open>ORDER BY id DESC\<close> on the runs.\<close>

definition newest_first :: "run_row list \<Rightarrow> run_row list" where
  "newest_first rows = rev (sort_key rw_id rows)"

text \<open>The second draw is \<open>rows.Err()\<close>: with it, the rows read come back beside the error.\<close>

definition List :: "string \<Rightarrow> int \<Rightarrow> Store \<Rightarrow> (Run list \<times> error option) \<times> Store" where
  "List task n S =
     (let n = (if n \<le> 0 then 20 else nat n) in
      case sql S of
        (Some e, S) \<Rightarrow> (([], Some e), S)
      | (None, S) \<Rightarrow>
          let out = map scanRun
            (take n (newest_first (filter (\<lambda>r. task = '''' \<or> rw_task r = task) (st_runs S))))
          in case sql S of (e, S) \<Rightarrow> ((out, e), S))"

definition Prune :: "int \<Rightarrow> Store \<Rightarrow> error option \<times> Store" where
  "Prune keep S =
     (let keep = (if keep \<le> 0 then 10000 else nat keep) in
      case sql S of
        (Some e, S) \<Rightarrow> (Some e, S)
      | (None, S) \<Rightarrow>
          let S = S\<lparr>st_events := filter (\<lambda>e. ev_run_id e \<notin>
                set (map rw_id (drop keep (newest_first (st_runs S))))) (st_events S)\<rparr>
          in case sql S of
               (Some e, S) \<Rightarrow> (Some e, S)
             | (None, S) \<Rightarrow>
                 (None, S\<lparr>st_runs := filter (\<lambda>r. rw_id r \<in>
                    set (map rw_id (take keep (newest_first (st_runs S))))) (st_runs S)\<rparr>))"

section \<open>Events\<close>

definition Event :: "gotime \<Rightarrow> int \<Rightarrow> string \<Rightarrow> payload \<Rightarrow> Store \<Rightarrow> error option \<times> Store" where
  "Event now run_id kind p S =
     (case sql S of
        (Some e, S) \<Rightarrow> (Some e, S)
      | (None, S) \<Rightarrow>
          (let i = st_event_seq S + 1;
               row = \<lparr>ev_id = i, ev_run_id = run_id, ev_kind = kind, ev_payload = payload_json p, ev_ts = nowUTC now\<rparr>
           in (None, S\<lparr>st_events := st_events S @ [row], st_event_seq := i\<rparr>)))"

definition EventsCount :: "int \<Rightarrow> Store \<Rightarrow> (int \<times> error option) \<times> Store" where
  "EventsCount run_id S =
     (case sql S of
        (Some e, S) \<Rightarrow> ((0, Some e), S)
      | (None, S) \<Rightarrow> ((int (length (filter (\<lambda>e. ev_run_id e = run_id) (st_events S))), None), S))"

record RunEvent =
  re_ID :: int
  re_Kind :: string
  re_Payload :: string
  re_TS :: "gotime option"

definition ListEvents :: "int \<Rightarrow> int \<Rightarrow> Store \<Rightarrow> (RunEvent list \<times> error option) \<times> Store" where
  "ListEvents run_id limit S =
     (let limit = (if limit \<le> 0 then 500 else nat limit) in
      case sql S of
        (Some e, S) \<Rightarrow> (([], Some e), S)
      | (None, S) \<Rightarrow>
          let out = map (\<lambda>e. \<lparr>re_ID = ev_id e, re_Kind = ev_kind e, re_Payload = ev_payload e,
                                re_TS = parse_rfc3339 (ev_ts e)\<rparr>)
            (take limit (sort_key ev_id (filter (\<lambda>e. ev_run_id e = run_id) (st_events S))))
          in case sql S of (e, S) \<Rightarrow> ((out, e), S))"

section \<open>Watermarks\<close>

fun type_name :: "go_value \<Rightarrow> string" where
  "type_name VNil = ''<nil>''"
| "type_name (VInt _) = ''int''"
| "type_name (VInt64 _) = ''int64''"
| "type_name (VFloat _) = ''float64''"
| "type_name (VStr _) = ''string''"
| "type_name (VBytes _) = ''[]uint8''"
| "type_name (VBool _) = ''bool''"
| "type_name (VTime _) = ''time.Time''"
| "type_name (VOther t) = t"

fun encodeWatermark :: "float_text \<Rightarrow> go_value \<Rightarrow> error + string \<times> string" where
  "encodeWatermark F (VTime x) = Inr (''time'', fmt_rfc3339nano (utc x))"
| "encodeWatermark F (VInt64 x) = Inr (''int'', itoa (sint x))"
| "encodeWatermark F (VInt x) = Inr (''int'', itoa (sint x))"
| "encodeWatermark F (VFloat x) = Inr (''float'', ft_format F x)"
| "encodeWatermark F (VStr x) = Inr (''string'', x)"
| "encodeWatermark F v = Inl (Errorf ''unsupported watermark value type %T'' [AStr (type_name v)])"

definition decodeWatermark :: "float_text \<Rightarrow> string \<Rightarrow> string \<Rightarrow> error + go_value" where
  "decodeWatermark F kind raw =
     (if kind = ''time'' then
        (case parse_rfc3339 raw of None \<Rightarrow> Inl (External ''time.Parse'') | Some t \<Rightarrow> Inr (VTime t))
      else if kind = ''int'' then
        (case parse_int raw of None \<Rightarrow> Inl (External ''strconv.ParseInt'') | Some i \<Rightarrow> Inr (VInt64 (word_of_int i)))
      else if kind = ''float'' then
        (case ft_parse F raw of None \<Rightarrow> Inl (External ''strconv.ParseFloat'') | Some x \<Rightarrow> Inr (VFloat x))
      else if kind = ''string'' then Inr (VStr raw)
      else Inl (Errorf ''unknown watermark kind %q'' [AStr kind]))"

text \<open>\<open>VNil\<close> is the nil of a task without a stored watermark.\<close>

definition GetWatermark :: "float_text \<Rightarrow> string \<Rightarrow> Store \<Rightarrow> (error + go_value) \<times> Store" where
  "GetWatermark F task S =
     (case sql S of
        (Some e, S) \<Rightarrow> (Inl e, S)
      | (None, S) \<Rightarrow>
          (case st_state S task of
             None \<Rightarrow> (Inr VNil, S)
           | Some (kind, raw) \<Rightarrow> (decodeWatermark F kind raw, S)))"

definition SetWatermark :: "float_text \<Rightarrow> string \<Rightarrow> go_value \<Rightarrow> Store \<Rightarrow> error option \<times> Store" where
  "SetWatermark F task v S =
     (case encodeWatermark F v of
        Inl e \<Rightarrow> (Some e, S)
      | Inr (kind, raw) \<Rightarrow>
          (case sql S of
             (Some e, S) \<Rightarrow> (Some e, S)
           | (None, S) \<Rightarrow> (None, S\<lparr>st_state := (st_state S)(task \<mapsto> (kind, raw))\<rparr>)))"

section \<open>Invariant\<close>

text \<open>Identifiers grow in table order and never exceed the counter.\<close>

definition store_ok :: "Store \<Rightarrow> bool" where
  "store_ok S \<longleftrightarrow>
     sorted_wrt (<) (map rw_id (st_runs S)) \<and> (\<forall>r \<in> set (st_runs S). 0 < rw_id r \<and> rw_id r \<le> st_run_seq S) \<and>
     sorted_wrt (<) (map ev_id (st_events S)) \<and> (\<forall>e \<in> set (st_events S). 0 < ev_id e \<and> ev_id e \<le> st_event_seq S) \<and>
     0 \<le> st_run_seq S \<and> 0 \<le> st_event_seq S"

lemma sql_cases:
  assumes "sql S = (f, S')"
  obtains fs where "S' = S\<lparr>st_faults := fs\<rparr>"
proof -
  have "S' = S\<lparr>st_faults := st_faults S'\<rparr>"
    using assms by (auto simp: sql_def split: list.splits)
  then show thesis by (rule that)
qed

lemma sql_none [log_simps]: "st_faults S = [] \<Longrightarrow> sql S = (None, S)"
  by (simp add: sql_def)

lemma store_ok_faults [simp]: "store_ok (S\<lparr>st_faults := fs\<rparr>) = store_ok S"
  by (simp add: store_ok_def)

lemma migrate_stmts_tables: "migrate_stmts n S = (e, S') \<Longrightarrow> \<exists>fs. S' = S\<lparr>st_faults := fs\<rparr>"
proof (induction n arbitrary: S)
  case 0
  then show ?case by (intro exI [of _ "st_faults S"]) simp
next
  case (Suc n)
  obtain f S1 where f: "sql S = (f, S1)" by (cases "sql S")
  obtain fs where S1: "S1 = S\<lparr>st_faults := fs\<rparr>" using f by (rule sql_cases)
  show ?case
  proof (cases f)
    case None
    then have "migrate_stmts n S1 = (e, S')" using Suc.prems f by simp
    from Suc.IH [OF this] show ?thesis unfolding S1 by auto
  next
    case (Some e)
    then show ?thesis using Suc.prems f S1 by auto
  qed
qed

lemma sweep_row_id [simp]: "rw_id (sweep_row now r) = rw_id r"
  by (simp add: sweep_row_def)

lemma finish_row_id [simp]: "rw_id (finish_row F now res r) = rw_id r"
  by (simp add: finish_row_def)

lemma store_ok_map:
  assumes "store_ok S" "\<And>r. rw_id (f r) = rw_id r"
  shows "store_ok (S\<lparr>st_runs := map f (st_runs S)\<rparr>)"
  using assms by (simp add: store_ok_def comp_def)

lemma sorted_wrt_map_filter: "sorted_wrt R (map f xs) \<Longrightarrow> sorted_wrt R (map f (filter P xs))"
  by (induction xs) auto

lemma Open_tables:
  assumes "Open path me oe now S = (e, S')"
  shows "\<exists>fs. S' = (if e = None then S\<lparr>st_faults := fs, st_runs := map (sweep_row now) (st_runs S)\<rparr>
    else S\<lparr>st_faults := fs\<rparr>)"
proof -
  have self: "\<exists>fs. S = S\<lparr>st_faults := fs\<rparr>" by (rule exI [of _ "st_faults S"]) simp
  show ?thesis
    using assms self
    by (auto simp: Open_def migrate_def sweepInterrupted_def split: if_splits option.splits prod.splits
        elim!: sql_cases dest!: migrate_stmts_tables)
qed

section \<open>Histories\<close>

datatype log_op =
    OStart gotime string string
  | OFinish gotime int RunResult
  | OEvent gotime int string payload
  | OPrune int
  | OSet string go_value
  | OOpen string "error option" "error option" gotime

text \<open>A history of a log file: operations of any processes, with the run ids handed out.\<close>

fun log_step :: "float_text \<Rightarrow> log_op \<Rightarrow> Store \<times> int list \<Rightarrow> Store \<times> int list" where
  "log_step F (OStart now task trigger) (S, ids) =
     (case StartRun now task trigger S of (Inr i, S) \<Rightarrow> (S, ids @ [i]) | (Inl _, S) \<Rightarrow> (S, ids))"
| "log_step F (OFinish now i r) (S, ids) = (snd (FinishRun F now i r S), ids)"
| "log_step F (OEvent now i k p) (S, ids) = (snd (Event now i k p S), ids)"
| "log_step F (OPrune keep) (S, ids) = (snd (Prune keep S), ids)"
| "log_step F (OSet task v) (S, ids) = (snd (SetWatermark F task v S), ids)"
| "log_step F (OOpen p me oe now) (S, ids) = (snd (Open p me oe now S), ids)"

definition log_run :: "float_text \<Rightarrow> log_op list \<Rightarrow> Store \<Rightarrow> Store \<times> int list" where
  "log_run F ops S = fold (log_step F) ops (S, [])"

lemma StartRun_cases:
  assumes "StartRun now task trigger S = (r, S')"
  obtains e fs where "r = Inl e" "S' = S\<lparr>st_faults := fs\<rparr>"
  | fs where "r = Inr (st_run_seq S + 1) \<or> (\<exists>e. r = Inl e)"
      "S' = S\<lparr>st_runs := st_runs S @ [started_row now task trigger (st_run_seq S + 1)],
             st_run_seq := st_run_seq S + 1, st_faults := fs\<rparr>"
  using assms
  by (auto simp: StartRun_def Let_def split: prod.splits option.splits elim!: sql_cases)

lemma FinishRun_cases:
  assumes "FinishRun F now i res S = (e, S')"
  obtains fs where "e \<noteq> None" "S' = S\<lparr>st_faults := fs\<rparr>"
  | fs where "e = None" "S' = S\<lparr>st_faults := fs,
      st_runs := map (\<lambda>row. if rw_id row = i then finish_row F now res row else row) (st_runs S)\<rparr>"
  using assms by (auto simp: FinishRun_def split: prod.splits option.splits elim!: sql_cases)

lemma Event_cases:
  assumes "Event now i k p S = (e, S')"
  obtains fs where "e \<noteq> None" "S' = S\<lparr>st_faults := fs\<rparr>"
  | fs where "e = None" "S' = S\<lparr>st_faults := fs, st_events := st_events S @ [\<lparr>ev_id = st_event_seq S + 1, ev_run_id = i,
      ev_kind = k, ev_payload = payload_json p, ev_ts = nowUTC now\<rparr>], st_event_seq := st_event_seq S + 1\<rparr>"
  using assms by (auto simp: Event_def Let_def split: prod.splits option.splits elim!: sql_cases)

lemma SetWatermark_cases:
  assumes "SetWatermark F task v S = (e, S')"
  obtains fs where "e \<noteq> None" "S' = S\<lparr>st_faults := fs\<rparr>"
  | fs kr where "e = None" "encodeWatermark F v = Inr kr" "S' = S\<lparr>st_faults := fs, st_state := (st_state S)(task \<mapsto> kr)\<rparr>"
proof (cases "encodeWatermark F v")
  case (Inl x)
  with assms have "e \<noteq> None" "S' = S\<lparr>st_faults := st_faults S\<rparr>" by (auto simp: SetWatermark_def)
  then show ?thesis by (rule that(1))
next
  case (Inr kr)
  then show ?thesis using assms that
    by (cases kr) (auto simp: SetWatermark_def split: prod.splits option.splits elim!: sql_cases)
qed

lemma Prune_tables:
  assumes "Prune keep S = (e, S')"
  obtains P Q where "st_runs S' = filter P (st_runs S)" "st_events S' = filter Q (st_events S)"
    "st_run_seq S' = st_run_seq S" "st_event_seq S' = st_event_seq S" "st_state S' = st_state S"
proof -
  define k where "k = (if keep \<le> 0 then 10000 else nat keep)"
  obtain f1 fs1 where 1: "sql S = (f1, S\<lparr>st_faults := fs1\<rparr>)"
    by (cases "sql S") (auto elim: sql_cases)
  let ?Q = "\<lambda>e. ev_run_id e \<notin> set (map rw_id (drop k (newest_first (st_runs S))))"
  let ?S = "S\<lparr>st_faults := fs1, st_events := filter ?Q (st_events S)\<rparr>"
  obtain f2 fs2 where 2: "sql ?S = (f2, ?S\<lparr>st_faults := fs2\<rparr>)"
    by (cases "sql ?S") (auto elim: sql_cases)
  have S': "S' = (case f1 of Some _ \<Rightarrow> S\<lparr>st_faults := fs1\<rparr> | None \<Rightarrow>
      (case f2 of Some _ \<Rightarrow> ?S\<lparr>st_faults := fs2\<rparr> | None \<Rightarrow>
        ?S\<lparr>st_faults := fs2, st_runs := filter (\<lambda>r. rw_id r \<in>
          set (map rw_id (take k (newest_first (st_runs S))))) (st_runs S)\<rparr>))"
    using assms 1 2 unfolding Prune_def k_def [symmetric] Let_def
    by (auto split: option.splits)
  show thesis
  proof (cases f1)
    case None
    then show thesis
    proof (cases f2)
      case None
      with \<open>f1 = None\<close> show thesis
        by (intro that [of "\<lambda>r. rw_id r \<in> set (map rw_id (take k (newest_first (st_runs S))))" ?Q])
          (simp_all add: S')
    next
      case (Some x)
      with \<open>f1 = None\<close> show thesis by (intro that [of "\<lambda>_. True" ?Q]) (simp_all add: S')
    qed
  next
    case (Some x)
    then show thesis by (intro that [of "\<lambda>_. True" "\<lambda>_. True"]) (simp_all add: S')
  qed
qed

lemma sorted_wrt_snoc: "sorted_wrt R (xs @ [x]) \<longleftrightarrow> sorted_wrt R xs \<and> (\<forall>y \<in> set xs. R y x)"
  by (auto simp: sorted_wrt_append)

text \<open>Every operation keeps the invariant and never lowers the run counter; only a start
  hands out an id, the next one.\<close>

lemma log_step_ok:
  assumes "store_ok S" "log_step F op (S, ids) = (S', ids')"
  shows "store_ok S' \<and> st_run_seq S \<le> st_run_seq S' \<and>
    (ids' = ids \<or> (ids' = ids @ [st_run_seq S + 1] \<and> st_run_seq S' = st_run_seq S + 1))"
proof (cases op)
  case (OStart now task trigger)
  obtain r S1 where r: "StartRun now task trigger S = (r, S1)" by (cases "StartRun now task trigger S")
  have st: "S' = S1" "ids' = (case r of Inr i \<Rightarrow> ids @ [i] | Inl _ \<Rightarrow> ids)"
    using assms(2) r OStart by (auto split: sum.splits)
  from r show ?thesis
  proof (cases rule: StartRun_cases)
    case (1 e fs)
    then show ?thesis using assms(1) by (simp add: st)
  next
    case (2 fs)
    then show ?thesis using assms(1)
      by (auto simp: st store_ok_def sorted_wrt_snoc started_row_def)
  qed
next
  case (OFinish now i res)
  obtain e S1 where r: "FinishRun F now i res S = (e, S1)" by (cases "FinishRun F now i res S")
  have st: "S' = S1" "ids' = ids" using assms(2) r OFinish by auto
  have "store_ok (S\<lparr>st_runs := map (\<lambda>row. if rw_id row = i then finish_row F now res row else row) (st_runs S)\<rparr>)"
    by (rule store_ok_map [OF assms(1)]) simp
  with r show ?thesis
    using assms(1) by (elim FinishRun_cases) (simp_all add: st store_ok_def)
next
  case (OEvent now i k p)
  obtain e S1 where r: "Event now i k p S = (e, S1)" by (cases "Event now i k p S")
  have st: "S' = S1" "ids' = ids" using assms(2) r OEvent by auto
  from r show ?thesis
    using assms(1) by (elim Event_cases) (auto simp: st store_ok_def sorted_wrt_snoc)
next
  case (OPrune keep)
  obtain e S1 where r: "Prune keep S = (e, S1)" by (cases "Prune keep S")
  have st: "S' = S1" "ids' = ids" using assms(2) r OPrune by auto
  from r obtain P Q where "st_runs S1 = filter P (st_runs S)" "st_events S1 = filter Q (st_events S)"
    "st_run_seq S1 = st_run_seq S" "st_event_seq S1 = st_event_seq S"
    by (rule Prune_tables)
  then show ?thesis
    using assms(1) by (auto simp: st store_ok_def sorted_wrt_map_filter)
next
  case (OSet task v)
  obtain e S1 where r: "SetWatermark F task v S = (e, S1)" by (cases "SetWatermark F task v S")
  have st: "S' = S1" "ids' = ids" using assms(2) r OSet by auto
  from r show ?thesis using assms(1) by (elim SetWatermark_cases) (simp_all add: st store_ok_def)
next
  case (OOpen p me oe now)
  obtain e S1 where r: "Open p me oe now S = (e, S1)" by (cases "Open p me oe now S")
  have st: "S' = S1" "ids' = ids" using assms(2) r OOpen by auto
  have "store_ok (S\<lparr>st_runs := map (sweep_row now) (st_runs S)\<rparr>)"
    by (rule store_ok_map [OF assms(1)]) simp
  with Open_tables [OF r] show ?thesis using assms(1) by (auto simp: st store_ok_def split: if_splits)
qed

lemma log_run_ok:
  assumes "store_ok S" "sorted_wrt (<) ids" "\<forall>i \<in> set ids. i \<le> st_run_seq S"
    and "fold (log_step F) ops (S, ids) = (S', ids')"
  shows "store_ok S' \<and> sorted_wrt (<) ids' \<and> (\<forall>i \<in> set ids'. i \<le> st_run_seq S')"
  using assms
proof (induction ops arbitrary: S ids)
  case (Cons op ops)
  obtain S1 ids1 where s: "log_step F op (S, ids) = (S1, ids1)" by (cases "log_step F op (S, ids)")
  from log_step_ok [OF Cons.prems(1) s]
  have ok: "store_ok S1" and mono: "st_run_seq S \<le> st_run_seq S1"
    and ids: "ids1 = ids \<or> ids1 = ids @ [st_run_seq S + 1] \<and> st_run_seq S1 = st_run_seq S + 1" by auto
  have "sorted_wrt (<) ids1" using ids Cons.prems(2,3) by (auto simp: sorted_wrt_snoc)
  moreover have "\<forall>i \<in> set ids1. i \<le> st_run_seq S1" using ids mono Cons.prems(3) by fastforce
  ultimately show ?case using Cons.IH [OF ok] Cons.prems(4) s by simp
qed auto

section \<open>Properties\<close>

text \<open>
  Run ids identify runs: in every history of a log file, whatever statements fail and
  however often it is pruned or reopened, the ids handed out strictly increase, and the
  tables keep increasing ids below their counters.
\<close>
theorem run_ids_increase:
  "sorted_wrt (<) (snd (log_run F ops (new_store\<lparr>st_faults := fs\<rparr>))) \<and>
   store_ok (fst (log_run F ops (new_store\<lparr>st_faults := fs\<rparr>)))"
proof -
  obtain S' ids' where r: "fold (log_step F) ops (new_store\<lparr>st_faults := fs\<rparr>, []) = (S', ids')"
    by (cases "fold (log_step F) ops (new_store\<lparr>st_faults := fs\<rparr>, [])")
  have "store_ok (new_store\<lparr>st_faults := fs\<rparr>)" by (simp add: store_ok_def new_store_def)
  from log_run_ok [OF this _ _ r] show ?thesis by (simp add: log_run_def r)
qed

lemma newest_first_rev:
  "sorted_wrt (<) (map rw_id rows) \<Longrightarrow> newest_first rows = rev rows"
  by (simp add: newest_first_def sort_key_id_if_sorted strict_sorted_imp_sorted)

lemma find_map_keep:
  assumes "\<And>r. rw_id (f r) = rw_id r"
  shows "find (\<lambda>r. rw_id r = i) (map f rows) = map_option f (find (\<lambda>r. rw_id r = i) rows)"
  by (induction rows) (auto simp: assms)

lemma find_None_id: "\<forall>r \<in> set rows. rw_id r \<noteq> i \<Longrightarrow> find (\<lambda>r. rw_id r = i) rows = None"
  by (induction rows) auto

lemma find_map_other:
  "\<forall>r \<in> set rows. rw_id r \<noteq> i \<Longrightarrow>
     map_option (\<lambda>r. if rw_id r = i then g r else r) (find P rows) = find P rows"
  by (induction rows) auto

lemma find_append: "find P (xs @ ys) = (case find P xs of Some x \<Rightarrow> Some x | None \<Rightarrow> find P ys)"
  by (induction xs) auto

lemma samples_text_read:
  "samples_text F es \<noteq> []" "json_read (samples_text F es) = Some (map (to_valid \<circ> err_text F) es)"
  by (simp_all add: samples_text_def json_read_strings) (simp_all add: json_strings_def json_read_def)

definition run_status_at :: "int \<Rightarrow> Store \<Rightarrow> RunStatus option" where
  "run_status_at i S = map_option rw_status (find (\<lambda>r. rw_id r = i) (st_runs S))"

text \<open>
  C31: the life of a run record: after \<open>StartRun\<close> the new id reads back as a running run with
  no end; after \<open>FinishRun\<close> it carries exactly the result's status, counts and error text, and
  its samples as they come back from their JSON, where a byte that is not UTF-8 has become
  U+FFFD; both times are kept to the second; and neither operation touches another run.
\<close>
theorem run_record_lifecycle:
  assumes ok: "store_ok S" and nf: "st_faults S = []"
    and start: "StartRun t0 task trigger S = (Inr i, S1)"
    and y: "year_ok (utc t0)" "year_ok (utc t1)"
  shows "fst (GetRun i S1) = Inr (Some
      \<lparr>run_ID = i, run_Task = task, run_Trigger = trigger, run_Status = Running, run_TotalRows = 0,
       run_OKRows = 0, run_FailRows = 0, run_Error = [], run_Samples = [],
       run_StartedAt = Some (GoTime (inst t0 div second_ns * second_ns) 0), run_FinishedAt = None\<rparr>) \<and>
    fst (GetRun i (snd (FinishRun F t1 i res S1))) = Inr (Some
      \<lparr>run_ID = i, run_Task = task, run_Trigger = trigger, run_Status = rr_Status res,
       run_TotalRows = rr_TotalRows res, run_OKRows = rr_OKRows res, run_FailRows = rr_FailRows res,
       run_Error = opt_text F (rr_Err res), run_Samples = map (to_valid \<circ> err_text F) (rr_Samples res),
       run_StartedAt = Some (GoTime (inst t0 div second_ns * second_ns) 0),
       run_FinishedAt = Some (GoTime (inst t1 div second_ns * second_ns) 0)\<rparr>) \<and>
    (j = i \<or> fst (GetRun j (snd (FinishRun F t1 i res S1))) = fst (GetRun j S))"
proof -
  have S1: "i = st_run_seq S + 1" "S1 = S\<lparr>st_runs := st_runs S @ [started_row t0 task trigger i], st_run_seq := i\<rparr>"
    using start nf by (auto simp: StartRun_def sql_def Let_def)
  have new: "\<forall>r \<in> set (st_runs S). rw_id r \<noteq> i" using ok S1(1) by (auto simp: store_ok_def)
  have z: "zone (utc t) = 0" "inst (utc t) = inst t" for t by (simp_all add: utc_def)
  have p: "parse_rfc3339 (nowUTC t0) = Some (GoTime (inst t0 div second_ns * second_ns) 0)"
    "parse_rfc3339 (nowUTC t1) = Some (GoTime (inst t1 div second_ns * second_ns) 0)"
    using parse_rfc3339_second [OF y(1) z(1)] parse_rfc3339_second [OF y(2) z(1)] by (simp_all add: nowUTC_def z)
  have fin: "snd (FinishRun F t1 i res S1) = S1\<lparr>st_runs :=
      map (\<lambda>row. if rw_id row = i then finish_row F t1 res row else row) (st_runs S1)\<rparr>"
    using nf by (simp add: FinishRun_def sql_def S1(2))
  have at_i: "find (\<lambda>r. rw_id r = i) (st_runs S1) = Some (started_row t0 task trigger i)"
    by (simp add: S1(2) find_append find_None_id [OF new] started_row_def)
  have at_j: "find (\<lambda>r. rw_id r = j) (st_runs S1) = find (\<lambda>r. rw_id r = j) (st_runs S)" if "j \<noteq> i"
    using that by (simp add: S1(2) find_append started_row_def split: option.split)
  have fd: "find (\<lambda>r. rw_id r = k) (map (\<lambda>row. if rw_id row = i then finish_row F t1 res row else row) rows) =
      map_option (\<lambda>row. if rw_id row = i then finish_row F t1 res row else row) (find (\<lambda>r. rw_id r = k) rows)" for k rows
    by (rule find_map_keep) simp
  have nf1: "st_faults S1 = []" using nf by (simp add: S1(2))
  have "map_option (\<lambda>row. if rw_id row = i then finish_row F t1 res row else row) (find (\<lambda>r. rw_id r = j) (st_runs S)) =
      find (\<lambda>r. rw_id r = j) (st_runs S)"
    using new by (rule find_map_other)
  with at_j have "fst (GetRun j (snd (FinishRun F t1 i res S1))) = fst (GetRun j S)" if "j \<noteq> i"
    unfolding fin using that by (simp add: GetRun_def sql_none nf nf1 fd)
  then show ?thesis
    unfolding fin by (auto simp: GetRun_def sql_none nf1 fd at_i scanRun_def started_row_def finish_row_def p
        samples_text_read)
qed

theorem run_record_lifecycle_witness:
  "fst (GetRun 1 (snd (StartRun (GoTime 1767225600000000007 0) ''t'' ''cron'' new_store))) = Inr (Some
      \<lparr>run_ID = 1, run_Task = ''t'', run_Trigger = ''cron'', run_Status = Running, run_TotalRows = 0,
       run_OKRows = 0, run_FailRows = 0, run_Error = [], run_Samples = [],
       run_StartedAt = Some (GoTime (inst (GoTime 1767225600000000007 0) div second_ns * second_ns) 0),
       run_FinishedAt = None\<rparr>)"
proof -
  let ?t = "GoTime 1767225600000000007 0"
  have y: "year_ok (utc ?t)" by code_simp
  have s: "StartRun ?t ''t'' ''cron'' new_store = (Inr 1, snd (StartRun ?t ''t'' ''cron'' new_store))"
    by (simp add: new_store_def StartRun_def sql_def Let_def)
  have "store_ok new_store" "st_faults new_store = []" by (simp_all add: store_ok_def new_store_def)
  from run_record_lifecycle [OF this s y y, THEN conjunct1] show ?thesis by blast
qed

text \<open>
  Opening the log closes every run left running and nothing else: afterwards no run is
  running, each run that was is interrupted with an end time and an error, and all other
  runs, the events and the watermarks are as before; an opening that fails changes no run.
\<close>
theorem open_closes_running:
  assumes "Open path me oe now S = (e, S')"
  shows "(if e = None
      then list_all2 (\<lambda>r r'. if rw_status r = Running
          then rw_status r' = Interrupted \<and> rw_finished_at r' = Some (nowUTC now) \<and> rw_error r' \<noteq> None \<and>
            rw_id r' = rw_id r \<and> rw_task r' = rw_task r \<and> rw_started_at r' = rw_started_at r
          else r' = r) (st_runs S) (st_runs S') \<and>
        (\<forall>r \<in> set (st_runs S'). rw_status r \<noteq> Running)
      else st_runs S' = st_runs S) \<and>
    st_events S' = st_events S \<and> st_state S' = st_state S"
proof (cases e)
  case None
  with Open_tables [OF assms] obtain fs where
    "S' = S\<lparr>st_faults := fs, st_runs := map (sweep_row now) (st_runs S)\<rparr>" by auto
  with None show ?thesis
    by (auto simp: list.rel_map sweep_row_def split: option.splits intro!: list.rel_refl_strong)
next
  case (Some x)
  with Open_tables [OF assms] show ?thesis by auto
qed

theorem open_closes_running_witness:
  "let S = snd (StartRun (GoTime 1767225600000000000 0) ''t'' ''cron'' new_store);
       S' = snd (Open ''runs.db'' None None (GoTime 1767225600000000000 0) S)
   in \<forall>r \<in> set (st_runs S'). rw_status r \<noteq> Running"
proof -
  let ?S = "snd (StartRun (GoTime 1767225600000000000 0) ''t'' ''cron'' new_store)"
  have "fst (Open ''runs.db'' None None (GoTime 1767225600000000000 0) ?S) = None"
    by (simp add: Open_def migrate_def sweepInterrupted_def StartRun_def new_store_def sql_def Let_def eval_nat_numeral)
  then show ?thesis
    using open_closes_running [of "''runs.db''" None None "GoTime 1767225600000000000 0" ?S,
      OF prod.collapse [symmetric]] by (simp add: Let_def)
qed

text \<open>
  The list of runs shows the newest runs first, at most the number asked for (20 when
  it is not positive), all tasks' runs or those of one task.
\<close>
theorem list_newest_first:
  assumes "store_ok S" "st_faults S = []"
  shows "List task n S =
    ((map scanRun (take (if n \<le> 0 then 20 else nat n)
       (rev (filter (\<lambda>r. task = '''' \<or> rw_task r = task) (st_runs S)))), None), S)"
  using assms
  by (simp add: List_def sql_none Let_def newest_first_rev store_ok_def sorted_wrt_map_filter)

theorem list_newest_first_witness:
  "map run_ID (fst (fst (List ''t'' 1 (snd (StartRun (GoTime 0 0) ''t'' ''cron''
     (snd (StartRun (GoTime 0 0) ''t'' ''cron'' new_store))))))) = [2]"
proof -
  let ?S = "snd (StartRun (GoTime 0 0) ''t'' ''cron'' (snd (StartRun (GoTime 0 0) ''t'' ''cron'' new_store)))"
  have "store_ok ?S" "st_faults ?S = []"
    by (simp_all add: store_ok_def StartRun_def new_store_def sql_def Let_def started_row_def)
  from list_newest_first [OF this, of "''t''" 1] show ?thesis
    by (simp add: StartRun_def new_store_def sql_def Let_def started_row_def scanRun_def)
qed

lemma filter_ids_drop:
  assumes "distinct (map rw_id rows)"
  shows "filter (\<lambda>r. rw_id r \<in> rw_id ` set (drop m rows)) rows = drop m rows"
proof -
  have "distinct (map rw_id (take m rows @ drop m rows))" using assms by simp
  then have "rw_id ` set (take m rows) \<inter> rw_id ` set (drop m rows) = {}"
    unfolding map_append distinct_append by simp
  then have "filter (\<lambda>r. rw_id r \<in> rw_id ` set (drop m rows)) (take m rows) = []"
    by (auto simp: filter_empty_conv)
  moreover have "filter (\<lambda>r. rw_id r \<in> rw_id ` set (drop m rows)) (drop m rows) = drop m rows"
    by (simp add: filter_id_conv)
  ultimately have "filter (\<lambda>r. rw_id r \<in> rw_id ` set (drop m rows)) (take m rows @ drop m rows) = drop m rows"
    by (simp only: filter_append append_Nil)
  then show ?thesis by (simp only: append_take_drop_id)
qed

text \<open>
  Pruning keeps exactly the newest runs, as many as asked (10000 when the number is not
  positive), in order, deletes the events of the deleted runs and no other event, and
  leaves the watermarks and the id counters alone, so deleted ids are not handed out again.
\<close>
theorem prune_keeps_newest:
  assumes "store_ok S" "st_faults S = []"
  shows "let k = (if keep \<le> 0 then 10000 else nat keep); old = length (st_runs S) - k in
    Prune keep S = (None, S\<lparr>
      st_events := filter (\<lambda>e. \<forall>r \<in> set (take old (st_runs S)). rw_id r \<noteq> ev_run_id e) (st_events S),
      st_runs := drop old (st_runs S)\<rparr>)"
proof -
  define k where "k = (if keep \<le> 0 then 10000 else nat keep)"
  define old where "old = length (st_runs S) - k"
  have srt: "sorted_wrt (<) (map rw_id (st_runs S))" using assms(1) by (simp add: store_ok_def)
  then have "distinct (map rw_id (st_runs S))" by (simp add: strict_sorted_iff)
  then have keep: "filter (\<lambda>r. rw_id r \<in> set (map rw_id (take k (newest_first (st_runs S))))) (st_runs S) =
      drop old (st_runs S)"
    using filter_ids_drop [of "st_runs S" old] by (simp add: newest_first_rev [OF srt] take_rev old_def)
  have gone: "(ev_run_id e \<notin> set (map rw_id (drop k (newest_first (st_runs S))))) =
      (\<forall>r \<in> set (take old (st_runs S)). rw_id r \<noteq> ev_run_id e)" for e
    by (simp add: newest_first_rev [OF srt] drop_rev old_def image_iff) metis
  have ev: "filter (\<lambda>e. ev_run_id e \<notin> set (map rw_id (drop k (newest_first (st_runs S))))) (st_events S) =
      filter (\<lambda>e. \<forall>r \<in> set (take old (st_runs S)). rw_id r \<noteq> ev_run_id e) (st_events S)"
    unfolding gone ..
  show ?thesis
    unfolding Prune_def Let_def k_def [symmetric] old_def [symmetric]
    using assms(2) keep ev by (simp add: sql_def)
qed

theorem prune_keeps_newest_witness:
  "map rw_id (st_runs (snd (Prune 1 (snd (StartRun (GoTime 0 0) ''t'' ''cron''
     (snd (StartRun (GoTime 0 0) ''t'' ''cron'' new_store))))))) = [2]"
proof -
  let ?S = "snd (StartRun (GoTime 0 0) ''t'' ''cron'' (snd (StartRun (GoTime 0 0) ''t'' ''cron'' new_store)))"
  have "store_ok ?S" "st_faults ?S = []"
    by (simp_all add: store_ok_def StartRun_def new_store_def sql_def Let_def started_row_def)
  from prune_keeps_newest [OF this, of 1] show ?thesis
    by (simp add: StartRun_def new_store_def sql_def Let_def started_row_def)
qed

text \<open>What a stored watermark reads back as: integers as \<open>int64\<close>, times in UTC.\<close>

fun stored_value :: "go_value \<Rightarrow> go_value" where
  "stored_value (VInt x) = VInt64 x"
| "stored_value (VTime t) = VTime (utc t)"
| "stored_value v = v"

fun storable :: "go_value \<Rightarrow> bool" where
  "storable (VInt x) = True"
| "storable (VInt64 x) = True"
| "storable (VFloat x) = (\<not> f64_nan x)"
| "storable (VStr x) = True"
| "storable (VTime t) = year_ok (utc t)"
| "storable v = False"

text \<open>
  The watermark of a task survives storage: what is set is read back as the same value,
  whatever its kind, strings and quotes included, and the other tasks' watermarks are
  untouched. (Floating point text is the library's; what is used of it is that a number's
  shortest text parses back to the number.)
\<close>
theorem watermark_roundtrip:
  assumes nf: "st_faults S = []" and v: "storable v"
    and F: "\<forall>x. \<not> f64_nan x \<longrightarrow> ft_parse F (ft_format F x) = Some x"
  shows "fst (SetWatermark F task v S) = None \<and>
    fst (GetWatermark F task (snd (SetWatermark F task v S))) = Inr (stored_value v) \<and>
    (other = task \<or> fst (GetWatermark F other (snd (SetWatermark F task v S))) = fst (GetWatermark F other S))"
proof -
  have t: "parse_rfc3339 (fmt_rfc3339nano (utc x)) = Some (utc x)" if "year_ok (utc x)" for x
    using that by (rule parse_rfc3339nano) (simp add: utc_def)
  have i: "parse_int (itoa (sint x)) = Some (sint x)" for x :: i64
    by (rule parse_int_itoa [OF int64_range_sint])
  show ?thesis
    using assms(2) F
    by (cases v) (auto simp: SetWatermark_def GetWatermark_def sql_none nf decodeWatermark_def t i split: option.split)
qed

text \<open>A text that parses back, for the witness: the decimal text of the bit pattern.\<close>

definition bits_text :: float_text where
  "bits_text = \<lparr>ft_format = (\<lambda>x. itoa (sint (f64_bits x))),
     ft_parse = (\<lambda>s. map_option (\<lambda>i. F64 (word_of_int i)) (parse_int s)), ft_show = (\<lambda>_. []), ft_print = (\<lambda>_. True)\<rparr>"

lemma bits_text_inverse: "ft_parse bits_text (ft_format bits_text x) = Some x"
  by (simp add: bits_text_def parse_int_itoa int64_range_sint)

theorem watermark_roundtrip_witness:
  "fst (GetWatermark bits_text ''t'' (snd (SetWatermark bits_text ''t'' (VStr ''O'' ) new_store))) = Inr (VStr ''O'')"
  using watermark_roundtrip [of new_store "VStr ''O''" bits_text "''t''" "''t''"]
  by (simp add: bits_text_inverse new_store_def)

text \<open>
  Opening the log cannot tell a crashed run from a live one: a run in progress in
  another process on the same file is marked interrupted, with an error, by the opening.
\<close>
theorem open_interrupts_live_run:
  assumes "store_ok S" "st_faults S = []"
    and "StartRun t0 task trigger S = (Inr i, S1)"
  shows "run_status_at i S1 = Some Running \<and>
    run_status_at i (snd (Open path None None t1 S1)) = Some Interrupted"
proof -
  have S1: "i = st_run_seq S + 1" "S1 = S\<lparr>st_runs := st_runs S @ [started_row t0 task trigger i], st_run_seq := i\<rparr>"
    using assms(2,3) by (auto simp: StartRun_def sql_def Let_def)
  have new: "\<forall>r \<in> set (st_runs S). rw_id r \<noteq> i" using assms(1) S1(1) by (auto simp: store_ok_def)
  have at_i: "find (\<lambda>r. rw_id r = i) (st_runs S1) = Some (started_row t0 task trigger i)"
    by (simp add: S1(2) find_append find_None_id [OF new] started_row_def)
  have nf: "st_faults S1 = []" using assms(2) by (simp add: S1(2))
  have "Open path None None t1 S1 = (None, S1\<lparr>st_runs := map (sweep_row t1) (st_runs S1)\<rparr>)"
    using nf by (simp add: Open_def migrate_def sweepInterrupted_def sql_def eval_nat_numeral)
  then show ?thesis
    by (simp add: run_status_at_def at_i find_map_keep) (simp add: started_row_def sweep_row_def)
qed

theorem open_interrupts_live_run_witness:
  "run_status_at 1 (snd (Open ''runs.db'' None None (GoTime 0 0)
     (snd (StartRun (GoTime 0 0) ''t'' ''cron'' new_store)))) = Some Interrupted"
proof -
  have "store_ok new_store" "st_faults new_store = []" by (simp_all add: store_ok_def new_store_def)
  moreover have "StartRun (GoTime 0 0) ''t'' ''cron'' new_store =
      (Inr 1, snd (StartRun (GoTime 0 0) ''t'' ''cron'' new_store))"
    by (simp add: new_store_def StartRun_def sql_def Let_def)
  ultimately show ?thesis using open_interrupts_live_run by blast
qed

end
