(* ===== verification/Watermark.thy ===== *)
theory Watermark
  imports Sqltext Runlog
begin

text \<open>
  \<open>internal/engine/watermark.go\<close>: the literal a stored watermark is substituted as, the
  comparison of column values, and the tracker that folds the running maximum of the
  incremental column over the streamed rows.
\<close>

section \<open>Definitions\<close>

definition watermarkToken :: string where
  "watermarkToken = '':watermark''"

text \<open>\<open>%g\<close> of a \<open>float64\<close> is the text \<open>strconv.FormatFloat\<close> writes with \<open>'g', -1\<close>.\<close>

fun watermarkLiteral :: "float_text \<Rightarrow> go_value \<Rightarrow> error + string" where
  "watermarkLiteral F (VTime x) = Inr ([CHR 0x27] @ fmt_micro (utc x) @ [CHR 0x27])"
| "watermarkLiteral F (VInt x) = Inr (itoa (sint x))"
| "watermarkLiteral F (VInt64 x) = Inr (itoa (sint x))"
| "watermarkLiteral F (VFloat x) = Inr (ft_format F x)"
| "watermarkLiteral F (VStr x) =
     Inr ([CHR 0x27] @ replace_all x [CHR 0x27] [CHR 0x27, CHR 0x27] @ [CHR 0x27])"
| "watermarkLiteral F v = Inl (Errorf ''unsupported watermark value type %T'' [AStr (type_name v)])"

fun asInt64 :: "go_value \<Rightarrow> i64 option" where
  "asInt64 (VInt x) = Some x"
| "asInt64 (VInt64 x) = Some x"
| "asInt64 v = None"

fun asFloat64 :: "go_value \<Rightarrow> f64 option" where
  "asFloat64 (VInt x) = Some (f64_of_int (sint x))"
| "asFloat64 (VInt64 x) = Some (f64_of_int (sint x))"
| "asFloat64 (VFloat x) = Some x"
| "asFloat64 v = None"

definition kindMismatch :: "go_value \<Rightarrow> go_value \<Rightarrow> error" where
  "kindMismatch a b =
     Errorf ''incomparable values %T(%v) and %T(%v): watermark column type must be stable''
       [AStr (type_name a), AVal a, AStr (type_name b), AVal b]"

fun watermarkGreater :: "go_value \<Rightarrow> go_value \<Rightarrow> error + bool" where
  "watermarkGreater (VTime av) b =
     (case b of VTime bv \<Rightarrow> Inr (after av bv) | _ \<Rightarrow> Inl (kindMismatch (VTime av) b))"
| "watermarkGreater (VStr av) b =
     (case b of VStr bv \<Rightarrow> Inr (bv < av) | _ \<Rightarrow> Inl (kindMismatch (VStr av) b))"
| "watermarkGreater a b =
     (case (asInt64 a, asInt64 b) of
        (Some ai, Some bi) \<Rightarrow> Inr (sint bi < sint ai)
      | _ \<Rightarrow>
          (case (asFloat64 a, asFloat64 b) of
             (Some af, Some bf) \<Rightarrow> Inr (bf < af)
           | _ \<Rightarrow> Inl (kindMismatch a b)))"

record watermarkTracker =
  wt_column :: string
  wt_max :: go_value
  wt_seen :: bool

definition new_tracker :: "string \<Rightarrow> watermarkTracker" where
  "new_tracker col = \<lparr>wt_column = col, wt_max = VNil, wt_seen = False\<rparr>"

fun observe :: "row list \<Rightarrow> watermarkTracker \<Rightarrow> error option \<times> watermarkTracker" where
  "observe [] w = (None, w)"
| "observe (r # rs) w =
     (let v = row_get r (wt_column w)
      in if v = VNil then observe rs w
         else if \<not> wt_seen w then observe rs (w\<lparr>wt_max := v, wt_seen := True\<rparr>)
         else case watermarkGreater v (wt_max w) of
           Inl e \<Rightarrow> (Some e, w)
         | Inr gt \<Rightarrow> observe rs (if gt then w\<lparr>wt_max := v\<rparr> else w))"

section \<open>Kinds\<close>

text \<open>The kinds whose values are totally ordered by \<open>watermarkGreater\<close>.\<close>

datatype kind = KTime | KString | KInt | KFloat | KNone

fun kind_of :: "go_value \<Rightarrow> kind" where
  "kind_of (VTime _) = KTime"
| "kind_of (VStr _) = KString"
| "kind_of (VInt _) = KInt"
| "kind_of (VInt64 _) = KInt"
| "kind_of (VFloat x) = (if f64_nan x then KNone else KFloat)"
| "kind_of _ = KNone"

text \<open>The classes between which no comparison is defined; \<open>CNone\<close> compares with nothing.\<close>

datatype kclass = CTime | CString | CNumber | CNone

fun class_of :: "go_value \<Rightarrow> kclass" where
  "class_of (VTime _) = CTime"
| "class_of (VStr _) = CString"
| "class_of (VInt _) = CNumber"
| "class_of (VInt64 _) = CNumber"
| "class_of (VFloat x) = CNumber"
| "class_of _ = CNone"

lemma watermarkGreater_class [wm_simps]:
  "(\<exists>b. watermarkGreater x y = Inr b) \<longleftrightarrow> class_of x = class_of y \<and> class_of x \<noteq> CNone"
  by (cases x; cases y) simp_all

text \<open>
  What \<open>greater\<close> should mean, stated without the code's comparison: times by their instant,
  strings byte by byte from the left (a proper prefix first), integers of either Go type by
  their value, floats other than NaN by the sign-and-magnitude integer of their pattern.
\<close>

fun bytes_le :: "string \<Rightarrow> string \<Rightarrow> bool" where
  "bytes_le [] b = True"
| "bytes_le (x # xs) [] = False"
| "bytes_le (x # xs) (y # ys) = (of_char x < (of_char y :: nat) \<or> x = y \<and> bytes_le xs ys)"

fun wm_le :: "go_value \<Rightarrow> go_value \<Rightarrow> bool" where
  "wm_le (VTime a) (VTime b) = (inst a \<le> inst b)"
| "wm_le (VStr a) (VStr b) = bytes_le a b"
| "wm_le (VInt i) (VInt j) = (sint i \<le> sint j)"
| "wm_le (VInt i) (VInt64 j) = (sint i \<le> sint j)"
| "wm_le (VInt64 i) (VInt j) = (sint i \<le> sint j)"
| "wm_le (VInt64 i) (VInt64 j) = (sint i \<le> sint j)"
| "wm_le (VFloat x) (VFloat y) = (\<not> f64_nan x \<and> \<not> f64_nan y \<and> f64_key x \<le> f64_key y)"
| "wm_le x y = False"

lemma bytes_le_order: "bytes_le a b \<longleftrightarrow> a \<le> b"
  by (induction a b rule: bytes_le.induct) (auto simp: less_char_def)

lemma wm_greater_iff:
  assumes "kind_of x = k" "kind_of y = k" "k \<noteq> KNone"
  shows "watermarkGreater x y = Inr (\<not> wm_le x y)"
  using assms
  by (cases x; cases y) (auto simp: after_def less_f64_def bytes_le_order not_le split: if_splits)

lemma wm_le_refl: "kind_of x \<noteq> KNone \<Longrightarrow> wm_le x x"
  by (cases x) (auto simp: bytes_le_order split: if_splits)

lemma wm_le_total:
  assumes "kind_of x = k" "kind_of y = k" "k \<noteq> KNone"
  shows "wm_le x y \<or> wm_le y x"
  using assms by (cases x; cases y) (auto simp: bytes_le_order split: if_splits)

lemma wm_le_trans:
  assumes "kind_of x = k" "kind_of y = k" "kind_of z = k" "k \<noteq> KNone" "wm_le x y" "wm_le y z"
  shows "wm_le x z"
  using assms
  by (cases x; cases y; cases z) (auto simp: bytes_le_order split: if_splits)

section \<open>The tracker\<close>

definition column_values :: "string \<Rightarrow> row list \<Rightarrow> go_value list" where
  "column_values col rows = filter (\<lambda>v. v \<noteq> VNil) (map (\<lambda>r. row_get r col) rows)"

lemma column_values_Cons:
  "column_values col (r # rs) =
    (if row_get r col = VNil then column_values col rs else row_get r col # column_values col rs)"
  by (simp add: column_values_def)

lemma observe_append:
  "observe (xs @ ys) w = (case observe xs w of (Some e, w) \<Rightarrow> (Some e, w) | (None, w) \<Rightarrow> observe ys w)"
  by (induction xs w rule: observe.induct) (auto simp: Let_def split: sum.splits)

lemma observe_column: "wt_column (snd (observe rows w)) = wt_column w"
  by (induction rows w rule: observe.induct) (auto simp: Let_def split: sum.splits)

lemma observe_max:
  assumes "\<forall>v \<in> set (column_values (wt_column w) rows). kind_of v = k" "k \<noteq> KNone"
    and "wt_seen w" "kind_of (wt_max w) = k"
  shows "\<exists>m. observe rows w = (None, w\<lparr>wt_max := m\<rparr>) \<and>
    m \<in> insert (wt_max w) (set (column_values (wt_column w) rows)) \<and>
    (\<forall>x \<in> insert (wt_max w) (set (column_values (wt_column w) rows)). wm_le x m)"
  using assms(1,3,4)
proof (induction rows arbitrary: w)
  case Nil
  then show ?case
    using wm_le_refl [of "wt_max w"] assms(2) by (auto simp: column_values_def intro!: exI [of _ "wt_max w"])
next
  case (Cons r rs)
  define v where "v = row_get r (wt_column w)"
  have rest: "\<forall>v \<in> set (column_values (wt_column w) rs). kind_of v = k"
    using Cons.prems(1) by (simp add: column_values_Cons split: if_splits)
  show ?case
  proof (cases "v = VNil")
    case True
    with Cons.IH [OF rest Cons.prems(2,3)] show ?thesis
      by (simp add: column_values_Cons v_def)
  next
    case False
    then have kv: "kind_of v = k" using Cons.prems(1) by (simp add: column_values_Cons v_def)
    define w1 where "w1 = (if wm_le v (wt_max w) then w else w\<lparr>wt_max := v\<rparr>)"
    have step: "observe (r # rs) w = observe rs w1"
      using wm_greater_iff [OF kv Cons.prems(3) assms(2)] False Cons.prems(2)
      by (simp add: v_def w1_def)
    have w1: "wt_column w1 = wt_column w" "wt_seen w1" "kind_of (wt_max w1) = k" "wt_max w1 \<in> {v, wt_max w}"
      using Cons.prems(2,3) kv by (auto simp: w1_def)
    have le: "wm_le v (wt_max w1)" "wm_le (wt_max w) (wt_max w1)"
      using wm_le_total [OF kv Cons.prems(3) assms(2)] wm_le_refl [of v] wm_le_refl [of "wt_max w"] kv Cons.prems(3) assms(2)
      by (auto simp: w1_def)
    obtain m where m: "observe rs w1 = (None, w1\<lparr>wt_max := m\<rparr>)"
      "m \<in> insert (wt_max w1) (set (column_values (wt_column w) rs))"
      "\<forall>x \<in> insert (wt_max w1) (set (column_values (wt_column w) rs)). wm_le x m"
      using Cons.IH [of w1] rest w1 by auto
    have km: "kind_of m = k" using m(2) w1(3) rest by auto
    have "wm_le v m" "wm_le (wt_max w) m"
      using wm_le_trans [OF kv w1(3) km assms(2) le(1)] wm_le_trans [OF Cons.prems(3) w1(3) km assms(2) le(2)] m(3)
      by auto
    moreover have "w1\<lparr>wt_max := m\<rparr> = w\<lparr>wt_max := m\<rparr>" by (simp add: w1_def)
    ultimately show ?thesis
      using m w1(4) step False by (auto simp: column_values_Cons v_def intro!: exI [of _ m])
  qed
qed

lemma observe_unseen:
  assumes "\<not> wt_seen w"
  shows "observe rows w =
    (case column_values (wt_column w) rows of
       [] \<Rightarrow> (None, w)
     | v # vs \<Rightarrow> observe (tl (dropWhile (\<lambda>r. row_get r (wt_column w) = VNil) rows))
         (w\<lparr>wt_max := v, wt_seen := True\<rparr>))"
  using assms
proof (induction rows)
  case (Cons r rs)
  then show ?case by (auto simp: column_values_Cons Let_def split: list.splits)
qed (simp add: column_values_def)

lemma column_values_tl:
  "column_values col rows = v # vs \<Longrightarrow>
     column_values col (tl (dropWhile (\<lambda>r. row_get r col = VNil) rows)) = vs"
  by (induction rows) (auto simp: column_values_Cons column_values_def split: if_splits)

lemma observe_new:
  assumes "\<forall>v \<in> set (column_values col rows). kind_of v = k" "k \<noteq> KNone"
  shows "fst (observe rows (new_tracker col)) = None \<and>
    (let m = wt_max (snd (observe rows (new_tracker col))) in
      if column_values col rows = [] then m = VNil
      else m \<in> set (column_values col rows) \<and> (\<forall>v \<in> set (column_values col rows). wm_le v m))"
proof (cases "column_values col rows")
  case Nil
  then show ?thesis by (simp add: observe_unseen new_tracker_def)
next
  case (Cons v vs)
  let ?w = "(new_tracker col)\<lparr>wt_max := v, wt_seen := True\<rparr>"
  let ?rows = "tl (dropWhile (\<lambda>r. row_get r col = VNil) rows)"
  have o: "observe rows (new_tracker col) = observe ?rows ?w"
    using Cons by (simp add: observe_unseen new_tracker_def)
  have vs: "column_values col ?rows = vs" using column_values_tl [OF Cons] .
  have "\<exists>m. observe ?rows ?w = (None, ?w\<lparr>wt_max := m\<rparr>) \<and> m \<in> insert v (set vs) \<and> (\<forall>x \<in> insert v (set vs). wm_le x m)"
    using observe_max [of ?w ?rows k] assms Cons vs by (simp add: new_tracker_def)
  then show ?thesis using Cons by (auto simp: o Let_def)
qed

section \<open>Properties\<close>

text \<open>
  C33: the tracked value is the maximum of the column, in the order of the values and not of
  the code's comparison (times by instant, strings bytewise, integers by value, floats other
  than NaN by value): over rows whose non-NULL values are of one of these kinds, the fold
  succeeds, ignores NULLs, and ends with one of the values that none exceeds; without a
  non-NULL value it ends with none.
\<close>
theorem tracker_is_maximum:
  assumes "\<forall>v \<in> set (column_values col rows). kind_of v = k" "k \<noteq> KNone"
  shows "fst (observe rows (new_tracker col)) = None \<and>
    (let m = wt_max (snd (observe rows (new_tracker col))) in
      if column_values col rows = [] then m = VNil
      else m \<in> set (column_values col rows) \<and> (\<forall>v \<in> set (column_values col rows). wm_le v m))"
  using assms by (rule observe_new)

text \<open>One column of each kind, the maximum neither first nor last, a NULL among the values.\<close>

definition one_column :: "go_value list \<Rightarrow> row list" where
  "one_column vs = map (\<lambda>v. [(''c'', v)]) vs"

lemma one_column_values: "column_values ''c'' (one_column vs) = filter (\<lambda>v. v \<noteq> VNil) vs"
  by (simp add: column_values_def one_column_def row_get_def comp_def)

theorem tracker_is_maximum_witness:
  "wt_max (snd (observe (one_column [VInt64 3, VNil, VInt64 7, VInt (- 5)]) (new_tracker ''c''))) = VInt64 7 \<and>
   wt_max (snd (observe (one_column [VStr ''ab'', VStr ''b'', VNil, VStr ''abc'']) (new_tracker ''c''))) = VStr ''b'' \<and>
   wt_max (snd (observe (one_column [VTime (GoTime 1 0), VTime (GoTime 5 3600), VTime (GoTime 2 7200)]) (new_tracker ''c''))) =
     VTime (GoTime 5 3600) \<and>
   wt_max (snd (observe (one_column [VFloat (F64 0xC000000000000000), VFloat (F64 0x3FF0000000000000), VFloat (F64 0)])
     (new_tracker ''c''))) = VFloat (F64 0x3FF0000000000000)"
proof (intro conjI)
  have max: "wt_max (snd (observe (one_column vs) (new_tracker ''c''))) \<in> set ws \<and>
      (\<forall>v \<in> set ws. wm_le v (wt_max (snd (observe (one_column vs) (new_tracker ''c'')))))"
    if "filter (\<lambda>v. v \<noteq> VNil) vs = ws" "\<forall>v \<in> set ws. kind_of v = k" "k \<noteq> KNone" "ws \<noteq> []" for vs ws k
    using tracker_is_maximum [of "''c''" "one_column vs" k] that unfolding one_column_values by (simp add: Let_def)
  show "wt_max (snd (observe (one_column [VInt64 3, VNil, VInt64 7, VInt (- 5)]) (new_tracker ''c''))) = VInt64 7"
    using max [of "[VInt64 3, VNil, VInt64 7, VInt (- 5)]" "[VInt64 3, VInt64 7, VInt (- 5)]" KInt] by auto
  show "wt_max (snd (observe (one_column [VStr ''ab'', VStr ''b'', VNil, VStr ''abc'']) (new_tracker ''c''))) = VStr ''b''"
    using max [of "[VStr ''ab'', VStr ''b'', VNil, VStr ''abc'']" "[VStr ''ab'', VStr ''b'', VStr ''abc'']" KString] by auto
  show "wt_max (snd (observe (one_column [VTime (GoTime 1 0), VTime (GoTime 5 3600), VTime (GoTime 2 7200)]) (new_tracker ''c''))) =
     VTime (GoTime 5 3600)"
    using max [of "[VTime (GoTime 1 0), VTime (GoTime 5 3600), VTime (GoTime 2 7200)]"
        "[VTime (GoTime 1 0), VTime (GoTime 5 3600), VTime (GoTime 2 7200)]" KTime] by auto
  show "wt_max (snd (observe (one_column [VFloat (F64 0xC000000000000000), VFloat (F64 0x3FF0000000000000), VFloat (F64 0)])
     (new_tracker ''c''))) = VFloat (F64 0x3FF0000000000000)"
    using max [of "[VFloat (F64 0xC000000000000000), VFloat (F64 0x3FF0000000000000), VFloat (F64 0)]"
        "[VFloat (F64 0xC000000000000000), VFloat (F64 0x3FF0000000000000), VFloat (F64 0)]" KFloat]
    by (auto simp: f64_nan_def f64_mag_def f64_key_def f64_neg_def)
qed

text \<open>
  An unstable column fails the run: when two non-NULL values of the column are of
  classes that are not comparable (a time and a string, a string and a number, or any two
  values of an unsupported type), the fold ends with an error.
\<close>
theorem tracker_rejects_mixed_kinds:
  assumes "column_values col rows = xs @ x # ys @ y # zs"
    and "class_of x \<noteq> class_of y \<or> class_of x = CNone"
  shows "fst (observe rows (new_tracker col)) \<noteq> None"
proof
  assume ok: "fst (observe rows (new_tracker col)) = None"
  have inv: "\<forall>v \<in> set (column_values (wt_column w) rs). class_of v = class_of (wt_max w) \<and> class_of v \<noteq> CNone"
    if "fst (observe rs w) = None" "wt_seen w" for rs w
    using that
  proof (induction rs w rule: observe.induct)
    case (2 r rs w)
    show ?case
    proof (cases "row_get r (wt_column w) = VNil")
      case True
      with 2 show ?thesis by (auto simp: column_values_Cons)
    next
      case False
      with "2.prems" obtain gt where gt: "watermarkGreater (row_get r (wt_column w)) (wt_max w) = Inr gt"
        by (auto simp: Let_def split: sum.splits)
      then have c: "class_of (row_get r (wt_column w)) = class_of (wt_max w)" "class_of (wt_max w) \<noteq> CNone"
        using watermarkGreater_class [of "row_get r (wt_column w)" "wt_max w"] by auto
      from "2.IH"(3) [OF refl False _ gt] "2.prems" False gt c show ?thesis
        by (auto simp: column_values_Cons Let_def split: if_splits)
    qed
  qed (simp add: column_values_def)
  obtain v vs where v: "column_values col rows = v # vs" using assms(1) by (cases xs) auto
  let ?w = "(new_tracker col)\<lparr>wt_max := v, wt_seen := True\<rparr>"
  have "observe rows (new_tracker col) = observe (tl (dropWhile (\<lambda>r. row_get r col = VNil) rows)) ?w"
    using v by (simp add: observe_unseen new_tracker_def)
  then have all: "\<forall>u \<in> set vs. class_of u = class_of v \<and> class_of u \<noteq> CNone"
    using inv [of "tl (dropWhile (\<lambda>r. row_get r col = VNil) rows)" ?w] ok column_values_tl [OF v]
    by (auto simp: new_tracker_def)
  have "x \<in> set (v # vs)" "y \<in> set vs" "class_of x = class_of v" 
    using assms(1) v all by (cases xs; auto)+
  with all assms(2) show False by auto
qed

theorem tracker_rejects_mixed_kinds_witness:
  "fst (observe [[(''c'', VInt64 3)], [(''c'', VStr ''x'')]] (new_tracker ''c'')) \<noteq> None"
  by (rule tracker_rejects_mixed_kinds [where xs = "[]" and x = "VInt64 3" and ys = "[]" and y = "VStr ''x''" and zs = "[]"])
    (simp_all add: column_values_def row_get_def)

text \<open>
  A NaN poisons the watermark: when the first non-NULL value of a numeric column is a
  NaN, nothing compares greater, so the tracker ends with the NaN whatever follows.
\<close>
theorem nan_watermark_sticks:
  assumes "column_values col rows = VFloat x # vs" "f64_nan x" "\<forall>v \<in> set vs. class_of v = CNumber"
  shows "observe rows (new_tracker col) = (None, (new_tracker col)\<lparr>wt_max := VFloat x, wt_seen := True\<rparr>)"
proof -
  have stay: "observe rs w = (None, w)"
    if "wt_seen w" "wt_max w = VFloat x" "\<forall>v \<in> set (column_values (wt_column w) rs). class_of v = CNumber" for rs w
    using that
  proof (induction rs w rule: observe.induct)
    case (2 r rs w)
    have "watermarkGreater v (VFloat x) = Inr False" if "class_of v = CNumber" for v
      using that assms(2) by (cases v) (simp_all add: less_f64_def)
    with 2 show ?case by (auto simp: column_values_Cons Let_def split: if_splits)
  qed simp
  let ?w = "(new_tracker col)\<lparr>wt_max := VFloat x, wt_seen := True\<rparr>"
  have "observe rows (new_tracker col) = observe (tl (dropWhile (\<lambda>r. row_get r col = VNil) rows)) ?w"
    using assms(1) by (simp add: observe_unseen new_tracker_def)
  also have "\<dots> = (None, ?w)"
    using stay [of ?w] column_values_tl [OF assms(1)] assms(3) by (simp add: new_tracker_def)
  finally show ?thesis .
qed

theorem nan_watermark_sticks_witness:
  "wt_max (snd (observe [[(''c'', VFloat (F64 0x7FF8000000000001))], [(''c'', VFloat (F64 0x3FF0000000000000))]]
     (new_tracker ''c''))) = VFloat (F64 0x7FF8000000000001)"
  using nan_watermark_sticks [of "''c''" "[[(''c'', VFloat (F64 0x7FF8000000000001))],
      [(''c'', VFloat (F64 0x3FF0000000000000))]]" "F64 0x7FF8000000000001" "[VFloat (F64 0x3FF0000000000000)]"]
  by (simp add: column_values_def row_get_def f64_nan_def f64_mag_def)

lemma floor_within: "0 < k \<Longrightarrow> i div k * k \<le> i \<and> i < i div k * k + k" for i k :: int
  using div_mult_mod_eq [of i k] pos_mod_sign [of k i] pos_mod_bound [of k i] by linarith

text \<open>How a source reads a time literal: the quoted text as a UTC time.\<close>

definition read_time_literal :: "string \<Rightarrow> gotime option" where
  "read_time_literal s =
     (let body = butlast (tl s) in parse_rfc3339 (take 10 body @ ''T'' @ drop 11 body @ ''Z''))"

text \<open>
  A time watermark is never rendered late: the literal reads back as the tracked
  instant cut to the microsecond, at most 999 nanoseconds before it, so a source query for
  later rows can repeat rows at the boundary but cannot miss any.
\<close>
theorem time_literal_not_late:
  assumes "year_ok (utc t)"
  shows "\<exists>lit u. watermarkLiteral F (VTime t) = Inr lit \<and> read_time_literal lit = Some u \<and>
    inst u \<le> inst t \<and> inst t < inst u + 1000"
proof -
  let ?u = "utc t"
  have "length (fmt_ymd ?u) = 10" by (simp add: fmt_ymd_dec [OF assms])
  then have "read_time_literal ([CHR 0x27] @ fmt_micro ?u @ [CHR 0x27]) =
      parse_rfc3339 (fmt_ymd ?u @ ''T'' @ fmt_hms ?u @ frac 6 (t_nano ?u) @ ''Z'')"
    by (simp add: read_time_literal_def fmt_micro_def butlast_append)
  also have "\<dots> = Some (GoTime (inst t div 1000 * 1000) 0)"
    using parse_formatted [OF assms, of 6] by (simp add: utc_def)
  finally show ?thesis
    using floor_within [of 1000 "inst t"]
    by (intro exI [of _ "[CHR 0x27] @ fmt_micro ?u @ [CHR 0x27]"] exI [of _ "GoTime (inst t div 1000 * 1000) 0"]) simp
qed

theorem time_literal_not_late_witness:
  "\<exists>lit u. watermarkLiteral bits_text (VTime (GoTime 1767225600123456789 3600)) = Inr lit \<and>
    read_time_literal lit = Some u \<and> inst u \<le> inst (GoTime 1767225600123456789 3600) \<and>
    inst (GoTime 1767225600123456789 3600) < inst u + 1000"
  by (rule time_literal_not_late) code_simp

interpretation squote: quoting "\<lambda>s. [CHR 0x27] @ replace_all s [CHR 0x27] [CHR 0x27, CHR 0x27] @ [CHR 0x27]"
  "CHR 0x27" "CHR 0x27"
  by unfold_locales simp_all

text \<open>
  A string watermark cannot break out of its literal under the SQL standard's reading:
  whatever it contains, a source reads exactly the value and the query goes on after it.
\<close>
theorem string_literal_read_back:
  assumes "r = [] \<or> hd r \<noteq> CHR 0x27"
  shows "\<exists>lit. watermarkLiteral F (VStr s) = Inr lit \<and> lex_quoted (CHR 0x27) (CHR 0x27) (lit @ r) = Some (s, r)"
  using squote.read_back [OF assms, of s] by simp

theorem string_literal_read_back_witness:
  "\<exists>lit. watermarkLiteral bits_text (VStr [CHR 0x27, CHR '';'']) = Inr lit \<and>
    lex_quoted (CHR 0x27) (CHR 0x27) (lit @ '' ORDER BY 1'') = Some ([CHR 0x27, CHR '';''], '' ORDER BY 1'')"
  by (rule string_literal_read_back) simp

text \<open>
  MySQL's reading of a string literal after its opening quote (the default \<open>sql_mode\<close>): a
  doubled quote is a quote, a backslash escapes the next character, and before \<open>%\<close> and \<open>_\<close>
  both characters stay.
\<close>

definition mysql_escape :: "char \<Rightarrow> string" where
  "mysql_escape c =
     (if c = CHR ''0'' then [CHR 0x00] else if c = CHR ''b'' then [CHR 0x08] else if c = CHR ''n'' then [CHR 0x0A]
      else if c = CHR ''r'' then [CHR 0x0D] else if c = CHR ''t'' then [CHR 0x09] else if c = CHR ''Z'' then [CHR 0x1A]
      else if c \<in> {CHR ''%'', CHR ''_''} then [CHR 0x5C, c] else [c])"

fun mysql_body :: "string \<Rightarrow> (string \<times> string) option" where
  "mysql_body [] = None"
| "mysql_body [c] = (if c = CHR 0x27 then Some ([], []) else None)"
| "mysql_body (c # d # r) =
     (if c = CHR 0x5C then map_option (apfst ((@) (mysql_escape d))) (mysql_body r)
      else if c = CHR 0x27 then
        (if d = CHR 0x27 then map_option (apfst ((#) c)) (mysql_body r) else Some ([], d # r))
      else map_option (apfst ((#) c)) (mysql_body (d # r)))"

text \<open>The strings whose backslashes MySQL leaves alone.\<close>

fun backslashes_inert :: "string \<Rightarrow> bool" where
  "backslashes_inert [] = True"
| "backslashes_inert [c] = (c \<noteq> CHR 0x5C)"
| "backslashes_inert (c # d # s) =
     (if c = CHR 0x5C then d \<in> {CHR ''%'', CHR ''_''} \<and> backslashes_inert s else backslashes_inert (d # s))"

text \<open>The value as \<open>watermarkLiteral\<close> writes it, without the opening quote.\<close>

definition doubled :: "string \<Rightarrow> string" where
  "doubled s = replace_all s [CHR 0x27] [CHR 0x27, CHR 0x27]"

lemma doubled_simps [simp]:
  "doubled [] = []" "doubled (c # s) = (if c = CHR 0x27 then [c, c] else [c]) @ doubled s"
  by (simp_all add: doubled_def text_simps)

definition quotes :: "string \<Rightarrow> nat" where
  "quotes s = length (filter ((=) (CHR 0x27)) s)"

lemma quotes_simps [simp]:
  "quotes [] = 0" "quotes (c # s) = (if c = CHR 0x27 then 1 else 0) + quotes s" "quotes (s @ t) = quotes s + quotes t"
  by (simp_all add: quotes_def)

lemma length_doubled: "length (doubled s) = length s + quotes s"
  by (induction s) auto

text \<open>What is read never needs fewer characters than its own literal: the reader cannot
  make up for a backslash it swallowed.\<close>

lemma mysql_body_length:
  "mysql_body t = Some (r, rest) \<Longrightarrow> length r + quotes r + 1 + length rest \<le> length t"
proof (induction t arbitrary: r rest rule: mysql_body.induct)
  case (3 c d t)
  have e: "length (mysql_escape d) + quotes (mysql_escape d) \<le> 2" by (simp add: mysql_escape_def)
  show ?case
  proof (cases "c = CHR 0x5C")
    case True
    with "3.prems" obtain r' where "mysql_body t = Some (r', rest)" "r = mysql_escape d @ r'" by auto
    with "3.IH"(1) [OF True this(1)] e show ?thesis by simp
  next
    case False
    with "3.prems" "3.IH"(2,3) show ?thesis by (auto split: if_splits)
  qed
qed (auto split: if_splits)

lemma doubled_start: "doubled (d # s) @ [CHR 0x27] = d # (if d = CHR 0x27 then d # doubled s else doubled s) @ [CHR 0x27]"
  by simp

lemma mysql_escape_back: "mysql_escape d @ r = CHR 0x5C # d # s \<longleftrightarrow>
    (d \<in> {CHR ''%'', CHR ''_''} \<and> r = s) \<or> (d = CHR 0x5C \<and> r = d # s)"
  by (auto simp: mysql_escape_def)

lemma mysql_reads_iff: "mysql_body (doubled s @ [CHR 0x27]) = Some (s, []) \<longleftrightarrow> backslashes_inert s"
proof (induction s rule: backslashes_inert.induct)
  case (2 c)
  show ?case by (simp add: mysql_escape_def)
next
  case (3 c d s)
  consider (inert) "c = CHR 0x5C" "d \<in> {CHR ''%'', CHR ''_''}" | (twice) "c = CHR 0x5C" "d = CHR 0x5C"
    | (quote) "c = CHR 0x5C" "d = CHR 0x27"
    | (other) "c = CHR 0x5C" "d \<notin> {CHR ''%'', CHR ''_'', CHR 0x5C, CHR 0x27}" | (plain) "c \<noteq> CHR 0x5C" by blast
  then show ?case
  proof cases
    case inert
    then have "mysql_body (doubled (c # d # s) @ [CHR 0x27]) =
        map_option (apfst ((@) [c, d])) (mysql_body (doubled s @ [CHR 0x27]))"
      by (auto simp: mysql_escape_def)
    with "3.IH"(1) inert show ?thesis by (cases "mysql_body (doubled s @ [CHR 0x27])") (auto simp: apfst_def map_prod_def)
  next
    case twice
    have "\<not> mysql_body (doubled s @ [CHR 0x27]) = Some (d # s, [])"
      using mysql_body_length [of "doubled s @ [CHR 0x27]" "d # s" "[]"] by (auto simp: length_doubled)
    with twice show ?thesis
      by (cases "mysql_body (doubled s @ [CHR 0x27])") (auto simp: mysql_escape_def apfst_def map_prod_def)
  next
    case quote
    then show ?thesis
      by (cases "mysql_body (CHR 0x27 # doubled s @ [CHR 0x27])") (auto simp: mysql_escape_def apfst_def map_prod_def)
  next
    case other
    then have "hd (mysql_escape d) \<noteq> CHR 0x5C" "mysql_escape d \<noteq> []" by (auto simp: mysql_escape_def)
    then obtain x xs where "mysql_escape d = x # xs" "x \<noteq> CHR 0x5C" by (cases "mysql_escape d") auto
    with other show ?thesis by (cases "mysql_body (doubled s @ [CHR 0x27])") (auto simp: apfst_def map_prod_def)
  next
    case plain
    define u where "u = (if d = CHR 0x27 then d # doubled s else doubled s) @ [CHR 0x27]"
    have u: "doubled (d # s) @ [CHR 0x27] = d # u" by (simp add: u_def)
    have "mysql_body (doubled (c # d # s) @ [CHR 0x27]) = map_option (apfst ((#) c)) (mysql_body (doubled (d # s) @ [CHR 0x27]))"
    proof (cases "c = CHR 0x27")
      case True
      have "doubled (c # d # s) @ [CHR 0x27] = c # c # doubled (d # s) @ [CHR 0x27]" using True by simp
      then show ?thesis using True by (simp only: mysql_body.simps) simp
    next
      case False
      have "doubled (c # d # s) @ [CHR 0x27] = c # d # u" using False u by simp
      then show ?thesis using False plain unfolding u by simp
    qed
    with "3.IH"(2) [OF plain] plain show ?thesis
      by (cases "mysql_body (doubled (d # s) @ [CHR 0x27])") (auto simp: apfst_def map_prod_def)
  qed
qed simp

text \<open>
  C35: mySQL reads a string watermark back as the stored value only when every backslash in it
  stands before \<open>%\<close> or \<open>_\<close>: \<open>watermarkLiteral\<close> doubles the quotes of a value and leaves its
  backslashes, so for every other value with a backslash the query asks for another string
  or has no end. And a value that begins with \<open>\'\<close> closes its literal there: whatever
  follows in it (not starting with a quote) reaches the server as part of the query.
\<close>
theorem mysql_backslash_breaks_literal:
  "\<exists>lit. watermarkLiteral F (VStr s) = Inr (CHR 0x27 # lit) \<and>
    (mysql_body lit = Some (s, []) \<longleftrightarrow> backslashes_inert s) \<and>
    (\<forall>x. s = [CHR 0x5C, CHR 0x27] @ x \<and> x \<noteq> [] \<and> hd x \<noteq> CHR 0x27 \<longrightarrow>
      mysql_body lit = Some ([CHR 0x27], replace_all x [CHR 0x27] [CHR 0x27, CHR 0x27] @ [CHR 0x27]))"
proof (intro exI conjI allI impI)
  show "watermarkLiteral F (VStr s) = Inr (CHR 0x27 # doubled s @ [CHR 0x27])" by (simp add: doubled_def)
  show "mysql_body (doubled s @ [CHR 0x27]) = Some (s, []) \<longleftrightarrow> backslashes_inert s" by (rule mysql_reads_iff)
  fix x assume x: "s = [CHR 0x5C, CHR 0x27] @ x \<and> x \<noteq> [] \<and> hd x \<noteq> CHR 0x27"
  then obtain y z where "x = y # z" "y \<noteq> CHR 0x27" by (cases x) auto
  with x show "mysql_body (doubled s @ [CHR 0x27]) =
      Some ([CHR 0x27], replace_all x [CHR 0x27] [CHR 0x27, CHR 0x27] @ [CHR 0x27])"
    unfolding doubled_def [symmetric] by (simp add: mysql_escape_def)
qed

theorem mysql_backslash_breaks_literal_witness:
  "(\<exists>lit. watermarkLiteral bits_text (VStr ([CHR 0x5C, CHR 0x27] @ '' OR 1=1 -- '')) = Inr (CHR 0x27 # lit) \<and>
     mysql_body lit = Some ([CHR 0x27], '' OR 1=1 -- '' @ [CHR 0x27])) \<and>
   (\<exists>lit. watermarkLiteral bits_text (VStr (''C:'' @ [CHR 0x5C] @ ''new'')) = Inr (CHR 0x27 # lit) \<and>
     mysql_body lit \<noteq> Some (''C:'' @ [CHR 0x5C] @ ''new'', []))"
  using mysql_backslash_breaks_literal [of bits_text "[CHR 0x5C, CHR 0x27] @ '' OR 1=1 -- ''"]
    mysql_backslash_breaks_literal [of bits_text "''C:'' @ [CHR 0x5C] @ ''new''"]
  by simp

end
