(* ===== verification/Connector.thy ===== *)
theory Connector
  imports Sqltext
begin

text \<open>
  \<open>internal/connector/connector.go\<close>: the shared \<open>database/sql\<close> connection \<open>sqlConn\<close>, its
  life cycle, the paging source cursor and the two batch writers.

  The databases are the outside world: a state \<open>'w\<close> that only the driver operations of the
  record \<open>drivers\<close> read and change. Their results are free, so connection failures,
  cancelled contexts and constraint violations are all behaviours of some \<open>drivers\<close>.
\<close>

section \<open>Drivers\<close>

text \<open>A result set as the cursor delivers it: \<open>rows.Columns()\<close>, one entry per \<open>rows.Next()\<close>
  that is true (the scanned values or the error of \<open>rows.Scan\<close>), and \<open>rows.Err()\<close>.\<close>

datatype fetch = FRow "go_value list" | FScanErr error

record rowset =
  rs_cols :: "error + string list"
  rs_fetches :: "fetch list"
  rs_err :: "error option"

text \<open>The first two arguments of every operation are the driver name and the DSN.\<close>

record 'w drivers =
  drv_open :: "string \<Rightarrow> string \<Rightarrow> 'w \<Rightarrow> error option \<times> 'w"
  drv_ping :: "string \<Rightarrow> string \<Rightarrow> 'w \<Rightarrow> error option \<times> 'w"
  drv_close :: "string \<Rightarrow> string \<Rightarrow> 'w \<Rightarrow> error option \<times> 'w"
  drv_query :: "string \<Rightarrow> string \<Rightarrow> string \<Rightarrow> 'w \<Rightarrow> (error + rowset) \<times> 'w"
  drv_exec :: "string \<Rightarrow> string \<Rightarrow> string \<Rightarrow> go_value list \<Rightarrow> 'w \<Rightarrow> error option \<times> 'w"

section \<open>Connections\<close>

record sqlConn =
  sc_dialect :: dialect
  sc_dsn :: string
  sc_db :: bool     \<comment> \<open>the \<open>db\<close> field is set\<close>

definition open_conn :: "string \<Rightarrow> string \<Rightarrow> error + sqlConn" where
  "open_conn typ dsn =
     (if typ = ''postgres'' then Inr \<lparr>sc_dialect = pgDialect, sc_dsn = dsn, sc_db = False\<rparr>
      else if typ = ''mysql'' then Inr \<lparr>sc_dialect = mysqlDialect, sc_dsn = dsn, sc_db = False\<rparr>
      else if typ = ''sqlite'' then Inr \<lparr>sc_dialect = sqliteDialect, sc_dsn = dsn, sc_db = False\<rparr>
      else if typ = ''sqlserver'' then Inr \<lparr>sc_dialect = mssqlDialect, sc_dsn = dsn, sc_db = False\<rparr>
      else Inl (Errorf ''unsupported database type %q'' [AStr typ]))"

definition conn_driver :: "sqlConn \<Rightarrow> string" where
  "conn_driver c = d_driver (sc_dialect c)"

definition Connect :: "('w, 'x) drivers_scheme \<Rightarrow> sqlConn \<Rightarrow> 'w \<Rightarrow> error option \<times> sqlConn \<times> 'w" where
  "Connect D c w =
     (case drv_open D (conn_driver c) (sc_dsn c) w of
        (Some e, w) \<Rightarrow> (Some e, c, w)
      | (None, w) \<Rightarrow>
          (case drv_ping D (conn_driver c) (sc_dsn c) w of
             (Some e, w) \<Rightarrow> (Some e, c, snd (drv_close D (conn_driver c) (sc_dsn c) w))
           | (None, w) \<Rightarrow> (None, c\<lparr>sc_db := True\<rparr>, w)))"

definition Close :: "('w, 'x) drivers_scheme \<Rightarrow> sqlConn \<Rightarrow> 'w \<Rightarrow> error option \<times> 'w" where
  "Close D c w = (if sc_db c then drv_close D (conn_driver c) (sc_dsn c) w else (None, w))"

definition OpenSource :: "('w, 'x) drivers_scheme \<Rightarrow> string \<Rightarrow> string \<Rightarrow> 'w \<Rightarrow> (error + sqlConn) \<times> 'w" where
  "OpenSource D typ dsn w =
     (case open_conn typ dsn of
        Inl e \<Rightarrow> (Inl e, w)
      | Inr c \<Rightarrow>
          (case Connect D c w of
             (Some e, c, w) \<Rightarrow> (Inl e, snd (Close D c w))
           | (None, c, w) \<Rightarrow> (Inr c, w)))"

definition OpenTarget :: "('w, 'x) drivers_scheme \<Rightarrow> string \<Rightarrow> string \<Rightarrow> 'w \<Rightarrow> (error + sqlConn) \<times> 'w" where
  "OpenTarget D typ dsn w =
     (case open_conn typ dsn of
        Inl e \<Rightarrow> (Inl e, w)
      | Inr c \<Rightarrow>
          (case Connect D c w of
             (Some e, c, w) \<Rightarrow> (Inl e, snd (Close D c w))
           | (None, c, w) \<Rightarrow> (Inr c, w)))"

lemma OpenTarget_connected:
  "OpenTarget D typ dsn w = (Inr c, w') \<Longrightarrow>
     sc_db c \<and> sc_dsn c = dsn \<and> d_name (sc_dialect c) = typ \<and>
     sc_dialect c \<in> {pgDialect, mysqlDialect, sqliteDialect, mssqlDialect}"
  by (auto simp: OpenTarget_def Connect_def open_conn_def pgDialect_def mysqlDialect_def
      sqliteDialect_def mssqlDialect_def split: prod.splits option.splits sum.splits if_splits)

section \<open>The source cursor\<close>

fun normalize :: "go_value \<Rightarrow> go_value" where
  "normalize (VBytes b) = VStr b"
| "normalize v = v"

text \<open>\<open>m[col] = normalize(vals[i])\<close> for every column in order: a repeated column name keeps its
  last value.\<close>

definition scan_row :: "string list \<Rightarrow> go_value list \<Rightarrow> row" where
  "scan_row cols vals = fold (\<lambda>(c, v) m. row_put c (normalize v) m) (zip cols vals) []"

text \<open>
  The page callback returns an error or none and a new state; it may also never return
  (\<open>None\<close>), and then \<open>Stream\<close> does not return either. A loop result \<open>Inl e\<close> is a
  \<open>return total, e\<close> inside the loop, \<open>Inr page\<close> the page left over when \<open>rows.Next()\<close> is false.
\<close>

type_synonym 's page_fn = "row list \<Rightarrow> 's \<Rightarrow> (error option \<times> 's) option"

fun stream_loop ::
  "nat \<Rightarrow> string list \<Rightarrow> 's page_fn \<Rightarrow> fetch list \<Rightarrow> row list \<Rightarrow> int \<Rightarrow> 's \<Rightarrow>
    (int \<times> (error + row list) \<times> 's) option" where
  "stream_loop ps cols fn [] page tot s = Some (tot, Inr page, s)"
| "stream_loop ps cols fn (FScanErr e # fs) page tot s = Some (tot, Inl e, s)"
| "stream_loop ps cols fn (FRow vals # fs) page tot s =
     (let page = page @ [scan_row cols vals]
      in if ps \<le> length page then
           (case fn page s of
              None \<Rightarrow> None
            | Some (Some e, s) \<Rightarrow> Some (tot, Inl e, s)
            | Some (None, s) \<Rightarrow> stream_loop ps cols fn fs [] (tot + int (length page)) s)
         else stream_loop ps cols fn fs page tot s)"

text \<open>
  \<open>make([]model.Row, 0, pageSize)\<close> panics when the slice cannot exist: a row is a map, one
  pointer of eight bytes, and a slice of the 64-bit runtime has at most \<open>2^48\<close> bytes.
\<close>

definition maxPageCap :: int where
  "maxPageCap = 2 ^ 45"

text \<open>\<open>Stream\<close>, given what \<open>QueryContext\<close> returned; the panic is \<open>None\<close>. What the cursor will
  deliver is a finite list: the query's context has a deadline, after which the driver ends
  the cursor with an error.\<close>

definition Stream ::
  "sqlConn \<Rightarrow> (error + rowset) \<Rightarrow> int \<Rightarrow> 's page_fn \<Rightarrow> 's \<Rightarrow> (int \<times> error option \<times> 's) option" where
  "Stream c qres pageSize fn s =
     (let ps = (if pageSize \<le> 0 then 5000 else nat pageSize)
      in case qres of
           Inl e \<Rightarrow> Some (0, Some (Wrapf ''%s query failed: %w'' [AStr (d_name (sc_dialect c))] e), s)
         | Inr rs \<Rightarrow>
             (case rs_cols rs of
                Inl e \<Rightarrow> Some (0, Some e, s)
              | Inr cols \<Rightarrow>
                  if maxPageCap < int ps then None
                  else (case stream_loop ps cols fn (rs_fetches rs) [] 0 s of
                     None \<Rightarrow> None
                   | Some (tot, Inl e, s) \<Rightarrow> Some (tot, Some e, s)
                   | Some (tot, Inr page, s) \<Rightarrow>
                       (case rs_err rs of
                          Some e \<Rightarrow> Some (tot, Some e, s)
                        | None \<Rightarrow>
                            if page = [] then Some (tot, None, s)
                            else (case fn page s of
                                    None \<Rightarrow> None
                                  | Some (Some e, s) \<Rightarrow> Some (tot, Some e, s)
                                  | Some (None, s) \<Rightarrow> Some (tot + int (length page), None, s))))))"

section \<open>The batch writers\<close>

definition UpsertRows ::
  "('w, 'x) drivers_scheme \<Rightarrow> sqlConn \<Rightarrow> string \<Rightarrow> string list \<Rightarrow> string list \<Rightarrow> row list \<Rightarrow> 'w \<Rightarrow>
    (error + int) \<times> 'w" where
  "UpsertRows D c table keys cols rows w =
     (if rows = [] then (Inr 0, w)
      else case SplitTablePath table of
             Inl e \<Rightarrow> (Inl e, w)
           | Inr parts \<Rightarrow>
               (case ValidateColumns cols of
                  Some e \<Rightarrow> (Inl e, w)
                | None \<Rightarrow>
                    (case ValidateColumns keys of
                       Some e \<Rightarrow> (Inl e, w)
                     | None \<Rightarrow>
                         let dia = sc_dialect c;
                             q = d_upsert dia parts keys cols (length rows) (d_ph dia)
                         in case drv_exec D (conn_driver c) (sc_dsn c) q (flatArgs cols rows) w of
                              (Some e, w) \<Rightarrow>
                                (Inl (Wrapf ''%s upsert into %s failed: %w'' [AStr (d_name dia), AStr table] e), w)
                            | (None, w) \<Rightarrow> (Inr (int (length rows)), w))))"

definition InsertRows ::
  "('w, 'x) drivers_scheme \<Rightarrow> sqlConn \<Rightarrow> string \<Rightarrow> string list \<Rightarrow> row list \<Rightarrow> 'w \<Rightarrow> (error + int) \<times> 'w" where
  "InsertRows D c table cols rows w =
     (if rows = [] then (Inr 0, w)
      else case SplitTablePath table of
             Inl e \<Rightarrow> (Inl e, w)
           | Inr parts \<Rightarrow>
               (case ValidateColumns cols of
                  Some e \<Rightarrow> (Inl e, w)
                | None \<Rightarrow>
                    let dia = sc_dialect c;
                        q = d_insert dia parts cols (length rows) (d_ph dia)
                    in case drv_exec D (conn_driver c) (sc_dsn c) q (flatArgs cols rows) w of
                         (Some e, w) \<Rightarrow>
                           (Inl (Wrapf ''%s insert into %s failed: %w'' [AStr (d_name dia), AStr table] e), w)
                       | (None, w) \<Rightarrow> (Inr (int (length rows)), w)))"

section \<open>Paging\<close>

text \<open>The reference for \<open>Stream\<close>: hand over given pages in order until one is refused.\<close>

fun feed :: "'s page_fn \<Rightarrow> row list list \<Rightarrow> int \<Rightarrow> 's \<Rightarrow> (int \<times> error option \<times> 's) option" where
  "feed fn [] tot s = Some (tot, None, s)"
| "feed fn (p # ps) tot s =
     (case fn p s of
        None \<Rightarrow> None
      | Some (Some e, s) \<Rightarrow> Some (tot, Some e, s)
      | Some (None, s) \<Rightarrow> feed fn ps (tot + int (length p)) s)"

lemma stream_loop_rows:
  assumes "length page < ps"
  shows "stream_loop ps cols fn (map FRow rows @ fs) page tot s =
    (let all = page @ map (scan_row cols) rows; k = length all div ps * ps
     in case feed fn (chunks ps (take k all)) tot s of
          None \<Rightarrow> None
        | Some (t, Some e, s) \<Rightarrow> Some (t, Inl e, s)
        | Some (t, None, s) \<Rightarrow> stream_loop ps cols fn fs (drop k all) t s)"
  using assms
proof (induction rows arbitrary: page tot s)
  case (Cons vals rows)
  let ?r = "scan_row cols vals" and ?rs = "map (scan_row cols) rows"
  show ?case
  proof (cases "ps \<le> length (page @ [?r])")
    case False
    then have "length (page @ [?r]) < ps" by simp
    from Cons.IH [OF this] False show ?thesis by (simp add: Let_def)
  next
    case True
    with Cons.prems have len: "length (page @ [?r]) = ps" and ps: "0 < ps" by auto
    let ?k = "length ?rs div ps * ps"
    have all: "page @ map (scan_row cols) (vals # rows) = (page @ [?r]) @ ?rs" by simp
    have k: "length (page @ map (scan_row cols) (vals # rows)) div ps * ps = ps + ?k"
    proof -
      have l: "length ((page @ [?r]) @ ?rs) = ps + length ?rs" using len by simp
      show ?thesis unfolding all l using ps by (simp add: div_add_self1)
    qed
    have take: "take (ps + ?k) ((page @ [?r]) @ ?rs) = (page @ [?r]) @ take ?k ?rs"
      by (rule take_past [OF len])
    have drop: "drop (ps + ?k) ((page @ [?r]) @ ?rs) = drop ?k ?rs"
      by (rule drop_past [OF len])
    have ch: "chunks ps ((page @ [?r]) @ take ?k ?rs) = (page @ [?r]) # chunks ps (take ?k ?rs)"
      using len ps by (rule chunks_full)
    have IH: "stream_loop ps cols fn (map FRow rows @ fs) [] t s' =
      (case feed fn (chunks ps (take ?k ?rs)) t s' of
          None \<Rightarrow> None
        | Some (t, Some e, s) \<Rightarrow> Some (t, Inl e, s)
        | Some (t, None, s) \<Rightarrow> stream_loop ps cols fn fs (drop ?k ?rs) t s)" for t s'
      using Cons.IH [of "[]" t s'] ps by (simp add: Let_def)
    show ?thesis
      unfolding k Let_def unfolding all take drop ch
      using True by (auto simp: Let_def IH split: option.splits)
  qed
qed (simp add: Let_def)

lemma feed_snoc:
  "feed fn (ps @ [p]) tot s =
    (case feed fn ps tot s of
       None \<Rightarrow> None
     | Some (t, Some e, s) \<Rightarrow> Some (t, Some e, s)
     | Some (t, None, s) \<Rightarrow>
         (case fn p s of
            None \<Rightarrow> None
          | Some (Some e, s) \<Rightarrow> Some (t, Some e, s)
          | Some (None, s) \<Rightarrow> Some (t + int (length p), None, s)))"
  by (induction ps arbitrary: tot s) (auto split: option.splits)

lemma chunks_split_tail:
  "0 < n \<Longrightarrow> chunks n xs = chunks n (take (length xs div n * n) xs) @
     (if drop (length xs div n * n) xs = [] then [] else [drop (length xs div n * n) xs])"
proof (induction n xs rule: chunks.induct)
  case (1 n xs)
  show ?case
  proof (cases "n \<le> length xs")
    case False
    with 1 show ?thesis by (auto simp: chunks_short)
  next
    case True
    let ?k = "length (drop n xs) div n * n"
    have k: "length xs div n * n = n + ?k"
      using True "1.prems" by (simp add: div_if [of "length xs" n])
    have take: "take (n + ?k) xs = take n xs @ take ?k (drop n xs)" by (rule take_add)
    have drop: "drop (n + ?k) xs = drop ?k (drop n xs)" by (simp add: add.commute)
    have "xs \<noteq> []" "length (take n xs) = n" using True "1.prems" by auto
    with "1.prems" have
      "chunks n xs = take n xs # chunks n (drop n xs)"
      "chunks n (take n xs @ take ?k (drop n xs)) = take n xs # chunks n (take ?k (drop n xs))"
      by (auto simp: chunks_step intro: chunks_full)
    with 1 \<open>xs \<noteq> []\<close> show ?thesis unfolding k take drop by simp
  qed
qed

section \<open>Properties\<close>

definition page_size :: "int \<Rightarrow> nat" where
  "page_size n = (if n \<le> 0 then 5000 else nat n)"

lemma page_size_pos: "0 < page_size n"
  by (simp add: page_size_def)

lemma page_size_cap: "maxPageCap < int (page_size n) \<longleftrightarrow> maxPageCap < n"
  by (auto simp: page_size_def maxPageCap_def)

lemma Stream_panics:
  assumes "maxPageCap < n"
  shows "Stream c (Inr \<lparr>rs_cols = Inr cols, rs_fetches = fs, rs_err = re\<rparr>) n fn s = None"
  using assms page_size_cap [of n] by (simp add: Stream_def Let_def page_size_def)

lemma Stream_unfold:
  assumes "n \<le> maxPageCap"
  shows "Stream c (Inr \<lparr>rs_cols = Inr cols, rs_fetches = map FRow vs @ fs, rs_err = re\<rparr>) n fn s =
    (let all = map (scan_row cols) vs; k = length all div page_size n * page_size n
     in case feed fn (chunks (page_size n) (take k all)) 0 s of
          None \<Rightarrow> None
        | Some (t, Some e, s) \<Rightarrow> Some (t, Some e, s)
        | Some (t, None, s) \<Rightarrow>
            (case stream_loop (page_size n) cols fn fs (drop k all) t s of
               None \<Rightarrow> None
             | Some (t, Inl e, s) \<Rightarrow> Some (t, Some e, s)
             | Some (t, Inr page, s) \<Rightarrow>
                 (case re of
                    Some e \<Rightarrow> Some (t, Some e, s)
                  | None \<Rightarrow>
                      if page = [] then Some (t, None, s)
                      else (case fn page s of
                              None \<Rightarrow> None
                            | Some (Some e, s) \<Rightarrow> Some (t, Some e, s)
                            | Some (None, s) \<Rightarrow> Some (t + int (length page), None, s)))))"
proof -
  have "\<not> maxPageCap < int (page_size n)" using assms by (simp add: page_size_cap)
  then show ?thesis
    using stream_loop_rows [of "[]" "page_size n" cols fn vs fs 0 s] page_size_pos [of n]
    by (auto simp: Stream_def Let_def page_size_def [symmetric] split: option.splits sum.splits)
qed

lemma Stream_delivers:
  assumes "n \<le> maxPageCap"
  shows "Stream c (Inr \<lparr>rs_cols = Inr cols, rs_fetches = map FRow vs, rs_err = None\<rparr>) n fn s =
     feed fn (chunks (page_size n) (map (scan_row cols) vs)) 0 s"
  unfolding chunks_split_tail [OF page_size_pos, of n "map (scan_row cols) vs"]
  using Stream_unfold [OF assms, of c cols vs "[]" None fn s]
  by (auto simp: Let_def feed_snoc split: option.splits)

definition full_pages :: "nat \<Rightarrow> row list \<Rightarrow> row list list" where
  "full_pages n rows = chunks n (take (length rows div n * n) rows)"

definition then_fail :: "error \<Rightarrow> (int \<times> error option \<times> 's) option \<Rightarrow> (int \<times> error option \<times> 's) option" where
  "then_fail e r = (case r of Some (t, None, s) \<Rightarrow> Some (t, Some e, s) | _ \<Rightarrow> r)"

lemma Stream_scan_error:
  assumes "n \<le> maxPageCap"
  shows "Stream c (Inr \<lparr>rs_cols = Inr cols, rs_fetches = map FRow vs @ FScanErr e # fs, rs_err = re\<rparr>) n fn s =
     then_fail e (feed fn (full_pages (page_size n) (map (scan_row cols) vs)) 0 s)"
  using Stream_unfold [OF assms, of c cols vs "FScanErr e # fs" re fn s]
  by (auto simp: full_pages_def then_fail_def Let_def split: option.splits)

lemma Stream_cursor_error:
  assumes "n \<le> maxPageCap"
  shows "Stream c (Inr \<lparr>rs_cols = Inr cols, rs_fetches = map FRow vs, rs_err = Some e\<rparr>) n fn s =
     then_fail e (feed fn (full_pages (page_size n) (map (scan_row cols) vs)) 0 s)"
  using Stream_unfold [OF assms, of c cols vs "[]" "Some e" fn s]
  by (auto simp: full_pages_def then_fail_def Let_def split: option.splits)

text \<open>
  C37: a query whose rows all scan is delivered to the page callback completely and in
  order: the result, the row count and the callback's state are those of feeding it the
  rows cut into pages of the page size (5000 when it is not positive), the last one
  possibly shorter, until the callback refuses a page. Only a page size for which no slice
  can be made panics instead, before the first row.
\<close>
theorem stream_delivers_pages:
  "Stream c (Inr \<lparr>rs_cols = Inr cols, rs_fetches = map FRow vs, rs_err = None\<rparr>) n fn s =
     (if maxPageCap < n then None else feed fn (chunks (page_size n) (map (scan_row cols) vs)) 0 s)"
  by (cases "maxPageCap < n") (simp_all add: Stream_delivers Stream_panics)

text \<open>
  C38: when a row fails to scan, or the cursor ends with an error, the source reports that
  error after exactly the full pages before it: the rows of the unfinished page are never
  handed over, and the count covers only delivered pages.
\<close>
theorem stream_error_keeps_full_pages:
  "Stream c (Inr \<lparr>rs_cols = Inr cols, rs_fetches = map FRow vs @ FScanErr e # fs, rs_err = re\<rparr>) n fn s =
     (if maxPageCap < n then None
      else then_fail e (feed fn (full_pages (page_size n) (map (scan_row cols) vs)) 0 s)) \<and>
   Stream c (Inr \<lparr>rs_cols = Inr cols, rs_fetches = map FRow vs, rs_err = Some e\<rparr>) n fn s =
     (if maxPageCap < n then None
      else then_fail e (feed fn (full_pages (page_size n) (map (scan_row cols) vs)) 0 s))"
  by (cases "maxPageCap < n") (simp_all add: Stream_scan_error Stream_cursor_error Stream_panics)

text \<open>The names a writer accepts: one or two identifiers joined by a dot.\<close>

definition path_ok :: "string \<Rightarrow> bool" where
  "path_ok table \<longleftrightarrow>
     (let parts = split_on CHR ''.'' table in length parts \<le> 2 \<and> list_all identRe parts)"

lemma path_ok_Split: "path_ok table \<longleftrightarrow> (\<exists>parts. SplitTablePath table = Inr parts)"
  by (auto simp: path_ok_def SplitTablePath_def Let_def list_all_iff first_bad_None split: option.splits)
    (metis first_bad_None option.distinct(1))

text \<open>A driver that records the statements, to run the writers on.\<close>

definition log_drivers :: "(string \<times> go_value list) list drivers" where
  "log_drivers = \<lparr>drv_open = \<lambda>_ _ w. (None, w), drv_ping = \<lambda>_ _ w. (None, w), drv_close = \<lambda>_ _ w. (None, w),
     drv_query = \<lambda>_ _ _ w. (Inl (External ''none''), w), drv_exec = \<lambda>_ _ q args w. (None, w @ [(q, args)])\<rparr>"

definition log_conn :: sqlConn where
  "log_conn = \<lparr>sc_dialect = sqliteDialect, sc_dsn = ''d'', sc_db = True\<rparr>"

text \<open>
  With allowed names, an upsert is exactly one statement of the connection's dialect,
  whose text depends on the names and the number of rows but on no value, with every cell
  bound as an argument in row-major order; its failure is wrapped, its success counts all
  rows. An insert likewise.
\<close>
theorem writers_bind_values:
  assumes "rows \<noteq> []" "SplitTablePath table = Inr parts" "list_all identRe cols" "list_all identRe keys"
  shows "UpsertRows D c table keys cols rows w =
      (case drv_exec D (conn_driver c) (sc_dsn c)
          (d_upsert (sc_dialect c) parts keys cols (length rows) (d_ph (sc_dialect c)))
          (concat (map (\<lambda>r. map (row_get r) cols) rows)) w of
         (Some e, w) \<Rightarrow> (Inl (Wrapf ''%s upsert into %s failed: %w'' [AStr (d_name (sc_dialect c)), AStr table] e), w)
       | (None, w) \<Rightarrow> (Inr (int (length rows)), w)) \<and>
    InsertRows D c table cols rows w =
      (case drv_exec D (conn_driver c) (sc_dsn c)
          (d_insert (sc_dialect c) parts cols (length rows) (d_ph (sc_dialect c)))
          (concat (map (\<lambda>r. map (row_get r) cols) rows)) w of
         (Some e, w) \<Rightarrow> (Inl (Wrapf ''%s insert into %s failed: %w'' [AStr (d_name (sc_dialect c)), AStr table] e), w)
       | (None, w) \<Rightarrow> (Inr (int (length rows)), w))"
proof -
  have v: "ValidateColumns cols = None" "ValidateColumns keys = None"
    using assms(3,4) by (simp_all add: ValidateColumns_None list_all_iff)
  show ?thesis
    unfolding flatArgs_concat [symmetric] UpsertRows_def InsertRows_def Let_def assms(2) v option.case sum.case
    by (simp add: assms(1))
qed

theorem writers_bind_values_witness:
  "UpsertRows log_drivers log_conn ''users'' [''id''] [''id'', ''name'']
     [[(''id'', VInt64 7), (''name'', VStr ''x'')]] [] =
   (Inr 1, [(''INSERT INTO \"users\" (\"id\", \"name\") VALUES ($1,$2) ON CONFLICT (\"id\") DO UPDATE SET \"name\" = excluded.\"name\"'',
     [VInt64 7, VStr ''x''])])"
proof -
  have "SplitTablePath ''users'' = Inr [''users'']" "list_all identRe [''id'', ''name'']" "list_all identRe [''id'']"
    by code_simp+
  from writers_bind_values [OF _ this, of "[[(''id'', VInt64 7), (''name'', VStr ''x'')]]" log_drivers log_conn "[]"]
  show ?thesis
    by (simp add: log_drivers_def log_conn_def row_get_def sqlite_upsert_example [unfolded One_nat_def])
qed

end
