(* ===== verification/Goduration.thy ===== *)
theory Goduration
  imports Model
begin

text \<open>
  \<open>time.ParseDuration\<close>, which reads the \<open>timeout\<close> of a task: the overflow checks on 64
  bits and the \<open>float64\<close> product that a fraction goes through. \<open>None\<close> is any of its errors.
\<close>

section \<open>float64 arithmetic on positive rationals\<close>

text \<open>
  A positive \<open>float64\<close> in the normal range as a fraction of integers. \<open>f64_round n d\<close> is the
  one nearest to \<open>n / d\<close>, ties to the even significand: \<open>e\<close> is chosen so that the quotient
  has 53 bits.
\<close>

function bit_len :: "int \<Rightarrow> nat" where
  "bit_len n = (if n \<le> 0 then 0 else Suc (bit_len (n div 2)))"
  by pat_completeness auto
termination
  by (relation "measure nat") auto

declare bit_len.simps [simp del]

definition round_half_even :: "int \<Rightarrow> int \<Rightarrow> int" where
  "round_half_even n d =
     (let q = n div d; r = n mod d in if d < 2 * r \<or> (2 * r = d \<and> odd q) then q + 1 else q)"

definition scale_up :: "int \<Rightarrow> int \<Rightarrow> nat" where
  "scale_up n d = 54 + bit_len d - bit_len n"

definition scale_down :: "int \<Rightarrow> int \<Rightarrow> nat" where
  "scale_down n d = bit_len n - (54 + bit_len d)"

definition f64_round :: "int \<Rightarrow> int \<Rightarrow> int \<times> int" where
  "f64_round n d =
     (let n' = n * 2 ^ scale_up n d; d' = d * 2 ^ scale_down n d;
          k = bit_len (n' div d') - 53
      in (round_half_even n' (d' * 2 ^ k) * 2 ^ k * 2 ^ scale_down n d, 2 ^ scale_up n d))"

definition f64_mult :: "int \<times> int \<Rightarrow> int \<times> int \<Rightarrow> int \<times> int" where
  "f64_mult x y = f64_round (fst x * fst y) (snd x * snd y)"

lemma one_tenth: "f64_round 1 10 = (3602879701896397 * 2 ^ 2, 2 ^ 57)"
  by code_simp

section \<open>ParseDuration\<close>

text \<open>\<open>leadingInt\<close>: the value and the rest; \<open>None\<close> on overflow past \<open>2 ^ 63\<close>.\<close>

fun leadingInt :: "int \<Rightarrow> string \<Rightarrow> (int \<times> string) option" where
  "leadingInt x [] = Some (x, [])"
| "leadingInt x (c # s) =
     (if \<not> is_digit c then Some (x, c # s)
      else if 2 ^ 63 div 10 < x then None
      else let x = x * 10 + int (digit_val c) in if 2 ^ 63 < x then None else leadingInt x s)"

text \<open>\<open>leadingFraction\<close>: digits past the precision are read and dropped.\<close>

fun leadingFraction :: "int \<Rightarrow> int \<Rightarrow> bool \<Rightarrow> string \<Rightarrow> int \<times> int \<times> string" where
  "leadingFraction x scale over [] = (x, scale, [])"
| "leadingFraction x scale over (c # s) =
     (if \<not> is_digit c then (x, scale, c # s)
      else if over then leadingFraction x scale over s
      else if (2 ^ 63 - 1) div 10 < x then leadingFraction x scale True s
      else let y = x * 10 + int (digit_val c)
           in if 2 ^ 63 < y then leadingFraction x scale True s
              else leadingFraction y (scale * 10) False s)"

text \<open>\<open>unitMap\<close>; the two micro signs are their UTF-8 bytes.\<close>

definition unitMap :: "string \<Rightarrow> int option" where
  "unitMap u =
     (if u = ''ns'' then Some 1
      else if u = ''us'' \<or> u = [CHR 0xC2, CHR 0xB5, CHR ''s''] \<or> u = [CHR 0xCE, CHR 0xBC, CHR ''s''] then Some 1000
      else if u = ''ms'' then Some 1000000
      else if u = ''s'' then Some 1000000000
      else if u = ''m'' then Some 60000000000
      else if u = ''h'' then Some 3600000000000
      else None)"

text \<open>One number with its unit, from a text that is not empty.\<close>

definition parse_component :: "string \<Rightarrow> (int \<times> string) option" where
  "parse_component s =
     (if \<not> (hd s = CHR ''.'' \<or> is_digit (hd s)) then None
      else case leadingInt 0 s of
        None \<Rightarrow> None
      | Some (v, s1) \<Rightarrow>
          let pre = length s1 \<noteq> length s;
              has_point = s1 \<noteq> [] \<and> hd s1 = CHR ''.'';
              (f, scale, s2) = (if has_point then leadingFraction 0 1 False (tl s1) else (0, 1, s1));
              post = has_point \<and> length s2 \<noteq> length (tl s1);
              u = takeWhile (\<lambda>c. \<not> (c = CHR ''.'' \<or> is_digit c)) s2;
              rest = dropWhile (\<lambda>c. \<not> (c = CHR ''.'' \<or> is_digit c)) s2
          in if \<not> pre \<and> \<not> post then None
             else if u = [] then None
             else case unitMap u of
               None \<Rightarrow> None
             | Some unit \<Rightarrow>
                 if 2 ^ 63 div unit < v then None
                 else let v = v * unit;
                          p = f64_mult (f64_round f 1) (f64_round unit scale);
                          v = (if 0 < f then v + fst p div snd p else v)
                      in if 2 ^ 63 < v then None else Some (v, rest))"

lemma leadingInt_length: "leadingInt x s = Some (v, s') \<Longrightarrow> length s' \<le> length s"
  by (induction x s rule: leadingInt.induct) (auto simp: Let_def split: if_splits)

lemma leadingFraction_length: "leadingFraction x sc b s = (v, sc', s') \<Longrightarrow> length s' \<le> length s"
  by (induction x sc b s rule: leadingFraction.induct) (auto simp: Let_def split: if_splits)

lemma parse_component_length: "parse_component s = Some (v, r) \<Longrightarrow> length r < length s"
proof -
  assume p: "parse_component s = Some (v, r)"
  then obtain v1 s1 where l: "leadingInt 0 s = Some (v1, s1)"
    by (auto simp: parse_component_def split: if_splits option.splits)
  define tr where "tr = (if s1 \<noteq> [] \<and> hd s1 = CHR ''.'' then leadingFraction 0 1 False (tl s1) else (0, 1, s1))"
  obtain f sc s2 where t: "tr = (f, sc, s2)" by (cases tr)
  have "length s2 \<le> length s1"
    using t leadingFraction_length [of 0 1 False "tl s1" f sc s2]
    by (cases s1) (auto simp: tr_def split: if_splits)
  then have s2: "length s2 \<le> length s" using leadingInt_length [OF l] by simp
  let ?u = "takeWhile (\<lambda>c. \<not> (c = CHR ''.'' \<or> is_digit c)) s2"
  let ?r = "dropWhile (\<lambda>c. \<not> (c = CHR ''.'' \<or> is_digit c)) s2"
  have "?u \<noteq> [] \<and> r = ?r"
    using p l t unfolding parse_component_def Let_def tr_def
    by (auto split: if_splits option.splits)
  moreover have "length ?u + length ?r = length s2"
    using arg_cong [OF takeWhile_dropWhile_id [of "\<lambda>c. \<not> (c = CHR ''.'' \<or> is_digit c)" s2], of length]
    unfolding length_append .
  ultimately show ?thesis using s2 by (cases ?u) auto
qed

text \<open>The loop over the components, with the sum so far.\<close>

function parse_components :: "int \<Rightarrow> string \<Rightarrow> int option" where
  "parse_components d s =
     (if s = [] then Some d
      else case parse_component s of
        None \<Rightarrow> None
      | Some (v, r) \<Rightarrow> if 2 ^ 63 < d + v then None else parse_components (d + v) r)"
  by pat_completeness auto
termination
  by (relation "measure (\<lambda>(d, s). length s)") (auto simp: parse_component_length)

declare parse_components.simps [simp del]

definition ParseDuration :: "string \<Rightarrow> int option" where
  "ParseDuration orig =
     (let neg = (orig \<noteq> [] \<and> hd orig = CHR ''-'');
          s = (if orig \<noteq> [] \<and> (hd orig = CHR ''-'' \<or> hd orig = CHR ''+'') then tl orig else orig)
      in if s = ''0'' then Some 0
         else if s = [] then None
         else case parse_components 0 s of
           None \<Rightarrow> None
         | Some d \<Rightarrow>
             if neg then Some (- d)
             else if 2 ^ 63 - 1 < d then None
             else Some d)"

lemma duration_examples:
  "ParseDuration ''30m'' = Some 1800000000000"
  "ParseDuration ''1.5h'' = Some 5400000000000"
  "ParseDuration ''-2s'' = Some (- 2000000000)"
  "ParseDuration ''0.1s'' = Some 100000000"
  "ParseDuration ''1h15m30.918s'' = Some 4530918000000"
  "ParseDuration ''5'' = None"
  by code_simp+

section \<open>Range\<close>

lemma unitMap_pos: "unitMap u = Some n \<Longrightarrow> 0 < n"
  by (auto simp: unitMap_def split: if_splits)

lemma leadingInt_nonneg: "leadingInt x s = Some (v, s') \<Longrightarrow> 0 \<le> x \<Longrightarrow> 0 \<le> v"
  by (induction x s rule: leadingInt.induct) (auto simp: Let_def split: if_splits)

lemma leadingFraction_nonneg:
  "leadingFraction x sc b s = (v, sc', s') \<Longrightarrow> 0 \<le> x \<Longrightarrow> 0 < sc \<Longrightarrow> 0 \<le> v \<and> 0 < sc'"
  by (induction x sc b s rule: leadingFraction.induct) (auto simp: Let_def split: if_splits)

lemma round_half_even_nonneg: "0 \<le> n \<Longrightarrow> 0 < d \<Longrightarrow> 0 \<le> round_half_even n d"
  using pos_imp_zdiv_nonneg_iff [of d n] by (auto simp: round_half_even_def Let_def)

lemma f64_round_nonneg:
  assumes "0 \<le> n" "0 < d"
  shows "0 \<le> fst (f64_round n d)" and "0 < snd (f64_round n d)"
  using assms by (simp_all add: f64_round_def Let_def round_half_even_nonneg)

lemma parse_component_nonneg:
  assumes p: "parse_component s = Some (v, r)"
  shows "0 \<le> v"
proof -
  obtain v1 s1 where l: "leadingInt 0 s = Some (v1, s1)"
    using p by (auto simp: parse_component_def split: if_splits option.splits)
  define tr where "tr = (if s1 \<noteq> [] \<and> hd s1 = CHR ''.'' then leadingFraction 0 1 False (tl s1) else (0, 1, s1))"
  obtain f sc s2 where t: "tr = (f, sc, s2)" by (cases tr)
  have f: "0 \<le> f" "0 < sc"
    using t leadingFraction_nonneg [of 0 1 False "tl s1" f sc s2] by (auto simp: tr_def split: if_splits)
  have v1: "0 \<le> v1" using leadingInt_nonneg [OF l] by simp
  obtain u where u: "0 < u" "v = v1 * u \<or>
      v = v1 * u + fst (f64_mult (f64_round f 1) (f64_round u sc)) div snd (f64_mult (f64_round f 1) (f64_round u sc))"
    using p l t unfolding parse_component_def Let_def tr_def
    by (auto split: if_splits option.splits dest: unitMap_pos)
  have m: "0 \<le> fst (f64_mult (f64_round f 1) (f64_round u sc)) \<and> 0 < snd (f64_mult (f64_round f 1) (f64_round u sc))"
    using f u(1) by (simp add: f64_mult_def f64_round_nonneg)
  then have "0 \<le> fst (f64_mult (f64_round f 1) (f64_round u sc)) div snd (f64_mult (f64_round f 1) (f64_round u sc))"
    by (simp add: pos_imp_zdiv_nonneg_iff)
  moreover have "0 \<le> v1 * u" using v1 u(1) by simp
  ultimately show ?thesis using u(2) by linarith
qed

lemma parse_components_range:
  "parse_components d s = Some n \<Longrightarrow> 0 \<le> d \<Longrightarrow> d \<le> 2 ^ 63 \<Longrightarrow> 0 \<le> n \<and> n \<le> 2 ^ 63"
proof (induction d s rule: parse_components.induct)
  case (1 d s)
  show ?case
  proof (cases "s = []")
    case True
    with "1.prems" show ?thesis by (simp add: parse_components.simps [of d "[]"])
  next
    case False
    with "1.prems"(1) obtain v r where c: "parse_component s = Some (v, r)" "\<not> 2 ^ 63 < d + v"
      "parse_components (d + v) r = Some n"
      by (auto simp: parse_components.simps [of d s] split: option.splits if_splits)
    with "1.IH" [OF False c(1) refl c(2,3)] parse_component_nonneg [OF c(1)] "1.prems"(2)
    show ?thesis by simp
  qed
qed

lemma ParseDuration_range:
  assumes "ParseDuration s = Some d"
  shows "int64_range d"
proof -
  have "0 \<le> n \<and> n \<le> 2 ^ 63" if "parse_components 0 t = Some n" for t n
    using parse_components_range [OF that] by simp
  then show ?thesis
    using assms by (fastforce simp: ParseDuration_def Let_def int64_range_def split: if_splits option.splits)
qed

end
