(* ===== verification/Config.thy ===== *)
theory Config
  imports Connector Goduration
begin

text \<open>
  \<open>internal/config/config.go\<close>: task definitions and their validation.

  The process environment, the cron parser and the YAML parser (both third-party packages)
  are parameters. The tasks are validated in place: the definitions return the changed task
  also when they return an error.
\<close>

section \<open>Task definitions\<close>

definition defaultPageSize :: int where "defaultPageSize = 5000"
definition defaultBatchSize :: int where "defaultBatchSize = 500"
definition defaultTimeout :: int where "defaultTimeout = 30 * 60 * second_ns"

record Endpoint =
  ep_Type :: string
  ep_DSN :: string
  ep_DSNEnv :: string
  ep_Query :: string

record Target =
  tg_Endpoint :: Endpoint     \<comment> \<open>embedded\<close>
  tg_Table :: string
  tg_Mode :: string
  tg_Keys :: "string list"
  tg_BatchSize :: int
  tg_Bulk :: bool

record Incremental =
  inc_Column :: string
  inc_Initial :: string

record Task =
  tk_Name :: string
  tk_Schedule :: string
  tk_Timeout :: string
  tk_Enabled :: "bool option"
  tk_PageSize :: int
  tk_Source :: Endpoint
  tk_Target :: Target
  tk_Incremental :: "Incremental option"
  tk_TimeoutDur :: int
  tk_IsEnabled :: bool

type_synonym Config = "Task list"

section \<open>Validation\<close>

definition supportedTypes :: "string list" where
  "supportedTypes = [''postgres'', ''mysql'', ''sqlite'', ''sqlserver'']"

text \<open>\<open>os.Getenv\<close> (empty when unset) and \<open>cronParser.Parse\<close> (its error).\<close>

record config_env =
  cf_getenv :: "string \<Rightarrow> string"
  cf_cron :: "string \<Rightarrow> error option"

definition resolveDSN :: "config_env \<Rightarrow> Endpoint \<Rightarrow> error + string" where
  "resolveDSN E ep =
     (if ep_DSNEnv ep \<noteq> [] then
        (let v = cf_getenv E (ep_DSNEnv ep)
         in if v = [] then Inl (Errorf ''environment variable %s is empty'' [AStr (ep_DSNEnv ep)]) else Inr v)
      else if ep_DSN ep \<noteq> [] then Inr (ep_DSN ep)
      else Inl (Errorf ''either dsn or dsn_env is required'' []))"

text \<open>The four stretches of \<open>validateTask\<close> up to each in-place update, in order.\<close>

definition set_source_dsn :: "string \<Rightarrow> Task \<Rightarrow> Task" where
  "set_source_dsn dsn t = t\<lparr>tk_Source := (tk_Source t)\<lparr>ep_DSN := dsn\<rparr>\<rparr>"

definition set_target_dsn :: "string \<Rightarrow> Task \<Rightarrow> Task" where
  "set_target_dsn dsn t =
     t\<lparr>tk_Target := (tk_Target t)\<lparr>tg_Endpoint := (tg_Endpoint (tk_Target t))\<lparr>ep_DSN := dsn\<rparr>\<rparr>\<rparr>"

definition set_mode :: "string \<Rightarrow> Task \<Rightarrow> Task" where
  "set_mode m t = t\<lparr>tk_Target := (tk_Target t)\<lparr>tg_Mode := m\<rparr>\<rparr>"

definition validate_source :: "config_env \<Rightarrow> Task \<Rightarrow> error option \<times> Task" where
  "validate_source E t =
     (if tk_Name t = [] then (Some (Errorf ''name is required'' []), t)
      else if ep_Type (tk_Source t) \<notin> set supportedTypes then
        (Some (Errorf ''source.type %q not supported (want postgres|mysql|sqlite|sqlserver)''
          [AStr (ep_Type (tk_Source t))]), t)
      else if ep_Query (tk_Source t) = [] then (Some (Errorf ''source.query is required'' []), t)
      else case resolveDSN E (tk_Source t) of
        Inl e \<Rightarrow> (Some (Wrapf ''source: %w'' [] e), t)
      | Inr dsn \<Rightarrow> (None, set_source_dsn dsn t))"

definition validate_target :: "config_env \<Rightarrow> Task \<Rightarrow> error option \<times> Task" where
  "validate_target E t =
     (if ep_Type (tg_Endpoint (tk_Target t)) \<notin> set supportedTypes then
        (Some (Errorf ''target.type %q not supported'' [AStr (ep_Type (tg_Endpoint (tk_Target t)))]), t)
      else if tg_Table (tk_Target t) = [] then (Some (Errorf ''target.table is required'' []), t)
      else
        let t = (if tg_Mode (tk_Target t) = [] then set_mode ''upsert'' t else t)
        in if tg_Mode (tk_Target t) \<noteq> ''upsert'' \<and> tg_Mode (tk_Target t) \<noteq> ''insert'' then
             (Some (Errorf ''target.mode must be upsert or insert, got %q'' [AStr (tg_Mode (tk_Target t))]), t)
           else if tg_Mode (tk_Target t) = ''upsert'' \<and> tg_Keys (tk_Target t) = [] then
             (Some (Errorf ''target.keys is required for upsert mode'' []), t)
           else case resolveDSN E (tg_Endpoint (tk_Target t)) of
             Inl e \<Rightarrow> (Some (Wrapf ''target: %w'' [] e), t)
           | Inr dsn \<Rightarrow> (None, set_target_dsn dsn t))"

definition validate_timing :: "config_env \<Rightarrow> Task \<Rightarrow> error option \<times> Task" where
  "validate_timing E t =
     (case (if tk_Schedule t \<noteq> [] then cf_cron E (tk_Schedule t) else None) of
        Some e \<Rightarrow> (Some (Wrapf ''invalid schedule %q: %w'' [AStr (tk_Schedule t)] e), t)
      | None \<Rightarrow>
          if tk_Timeout t = [] then (None, t\<lparr>tk_TimeoutDur := defaultTimeout\<rparr>)
          else case ParseDuration (tk_Timeout t) of
            None \<Rightarrow> (Some (Wrapf ''invalid timeout %q: %w'' [AStr (tk_Timeout t)] (External ''time.ParseDuration'')), t)
          | Some d \<Rightarrow>
              if d \<le> 0 then (Some (Errorf ''timeout must be positive'' []), t)
              else (None, t\<lparr>tk_TimeoutDur := d\<rparr>))"

definition validate_incremental :: "Incremental option \<Rightarrow> error option" where
  "validate_incremental inc =
     (case inc of
        None \<Rightarrow> None
      | Some i \<Rightarrow>
          if inc_Column i = [] then Some (Errorf ''incremental.column is required'' [])
          else case ValidateColumns [inc_Column i] of
            Some e \<Rightarrow> Some (Wrapf ''incremental.column: %w'' [] e)
          | None \<Rightarrow>
              if inc_Initial i = []
              then Some (Errorf ''incremental.initial is required (SQL literal for the first run)'' [])
              else None)"

definition fill_defaults :: "Task \<Rightarrow> Task" where
  "fill_defaults t =
     (let t = t\<lparr>tk_IsEnabled := (case tk_Enabled t of None \<Rightarrow> True | Some b \<Rightarrow> b)\<rparr>;
          t = (if tk_PageSize t \<le> 0 then t\<lparr>tk_PageSize := defaultPageSize\<rparr> else t)
      in if tg_BatchSize (tk_Target t) \<le> 0
         then t\<lparr>tk_Target := (tk_Target t)\<lparr>tg_BatchSize := defaultBatchSize\<rparr>\<rparr> else t)"

definition validateTask :: "config_env \<Rightarrow> Task \<Rightarrow> error option \<times> Task" where
  "validateTask E t =
     (case validate_source E t of
        (Some e, t) \<Rightarrow> (Some e, t)
      | (None, t) \<Rightarrow>
          (case validate_target E t of
             (Some e, t) \<Rightarrow> (Some e, t)
           | (None, t) \<Rightarrow>
               (case validate_timing E t of
                  (Some e, t) \<Rightarrow> (Some e, t)
                | (None, t) \<Rightarrow>
                    (case validate_incremental (tk_Incremental t) of
                       Some e \<Rightarrow> (Some e, t)
                     | None \<Rightarrow> (None, fill_defaults t)))))"

text \<open>The loop of \<open>Validate\<close> from index \<open>i\<close> on, with the names seen.\<close>

fun validate_tasks :: "config_env \<Rightarrow> nat \<Rightarrow> string list \<Rightarrow> Task list \<Rightarrow> error option \<times> Task list" where
  "validate_tasks E i seen [] = (None, [])"
| "validate_tasks E i seen (t # ts) =
     (case validateTask E t of
        (Some e, t) \<Rightarrow> (Some (Wrapf ''task[%d]: %w'' [AInt (int i)] e), t # ts)
      | (None, t) \<Rightarrow>
          if tk_Name t \<in> set seen then (Some (Errorf ''duplicate task name %q'' [AStr (tk_Name t)]), t # ts)
          else case validate_tasks E (i + 1) (tk_Name t # seen) ts of (r, ts) \<Rightarrow> (r, t # ts))"

definition Validate :: "config_env \<Rightarrow> Config \<Rightarrow> error option \<times> Config" where
  "Validate E c =
     (if c = [] then (Some (Errorf ''no tasks defined'' []), c) else validate_tasks E 0 [] c)"

text \<open>\<open>Load\<close>, with the contents of the file (or the error of reading it) and the YAML parser.\<close>

definition Load :: "config_env \<Rightarrow> (string \<Rightarrow> error + Config) \<Rightarrow> string \<Rightarrow> error + string \<Rightarrow> error + Config" where
  "Load E unmarshal path file =
     (case file of
        Inl e \<Rightarrow> Inl (Wrapf ''read config: %w'' [] e)
      | Inr data \<Rightarrow>
          (case unmarshal data of
             Inl e \<Rightarrow> Inl (Wrapf ''parse %s: %w'' [AStr path] e)
           | Inr c \<Rightarrow>
               (case Validate E c of
                  (Some e, _) \<Rightarrow> Inl e
                | (None, c) \<Rightarrow> Inr c)))"

section \<open>What validation establishes\<close>

definition incremental_ok :: "Incremental option \<Rightarrow> bool" where
  "incremental_ok inc \<longleftrightarrow> (\<forall>i. inc = Some i \<longrightarrow> identRe (inc_Column i) \<and> inc_Initial i \<noteq> [])"

definition task_ok :: "config_env \<Rightarrow> Task \<Rightarrow> bool" where
  "task_ok E t \<longleftrightarrow>
     tk_Name t \<noteq> [] \<and>
     ep_Type (tk_Source t) \<in> set supportedTypes \<and> ep_Query (tk_Source t) \<noteq> [] \<and> ep_DSN (tk_Source t) \<noteq> [] \<and>
     ep_Type (tg_Endpoint (tk_Target t)) \<in> set supportedTypes \<and> ep_DSN (tg_Endpoint (tk_Target t)) \<noteq> [] \<and>
     tg_Table (tk_Target t) \<noteq> [] \<and>
     (tg_Mode (tk_Target t) = ''insert'' \<or> (tg_Mode (tk_Target t) = ''upsert'' \<and> tg_Keys (tk_Target t) \<noteq> [])) \<and>
     (tk_Schedule t = [] \<or> cf_cron E (tk_Schedule t) = None) \<and>
     0 < tk_TimeoutDur t \<and> tk_TimeoutDur t < 2 ^ 63 \<and>
     incremental_ok (tk_Incremental t) \<and>
     0 < tk_PageSize t \<and> 0 < tg_BatchSize (tk_Target t)"

lemma resolveDSN_nonempty: "resolveDSN E ep = Inr dsn \<Longrightarrow> dsn \<noteq> []"
  by (auto simp: resolveDSN_def Let_def split: if_splits)

lemma validate_incremental_None: "validate_incremental inc = None \<longleftrightarrow> incremental_ok inc"
proof (cases inc)
  case (Some i)
  have "inc_Column i \<noteq> []" if "identRe (inc_Column i)" using that by (auto simp: identRe_def)
  then show ?thesis using Some ValidateColumns_None [of "[inc_Column i]"]
    by (auto simp: validate_incremental_def incremental_ok_def split: option.splits)
qed (simp add: validate_incremental_def incremental_ok_def)

text \<open>A task after successful validation, as one expression over the task before.\<close>

definition validated :: "config_env \<Rightarrow> Task \<Rightarrow> Task" where
  "validated E t = t\<lparr>
     tk_Source := (tk_Source t)\<lparr>ep_DSN := projr (resolveDSN E (tk_Source t))\<rparr>,
     tk_Target := (tk_Target t)\<lparr>
       tg_Mode := (if tg_Mode (tk_Target t) = [] then ''upsert'' else tg_Mode (tk_Target t)),
       tg_Endpoint := (tg_Endpoint (tk_Target t))\<lparr>
         ep_DSN := projr (resolveDSN E (tg_Endpoint (tk_Target t)))\<rparr>,
       tg_BatchSize := (if tg_BatchSize (tk_Target t) \<le> 0 then 500 else tg_BatchSize (tk_Target t))\<rparr>,
     tk_TimeoutDur := (if tk_Timeout t = [] then defaultTimeout else the (ParseDuration (tk_Timeout t))),
     tk_IsEnabled := (tk_Enabled t \<noteq> Some False),
     tk_PageSize := (if tk_PageSize t \<le> 0 then 5000 else tk_PageSize t)\<rparr>"

definition acceptable :: "config_env \<Rightarrow> Task \<Rightarrow> bool" where
  "acceptable E t \<longleftrightarrow>
     tk_Name t \<noteq> [] \<and>
     ep_Type (tk_Source t) \<in> set supportedTypes \<and> ep_Query (tk_Source t) \<noteq> [] \<and>
     \<not> isl (resolveDSN E (tk_Source t)) \<and>
     ep_Type (tg_Endpoint (tk_Target t)) \<in> set supportedTypes \<and> tg_Table (tk_Target t) \<noteq> [] \<and>
     (tg_Mode (tk_Target t) = ''insert'' \<or>
      (tg_Mode (tk_Target t) = ''upsert'' \<or> tg_Mode (tk_Target t) = []) \<and> tg_Keys (tk_Target t) \<noteq> []) \<and>
     \<not> isl (resolveDSN E (tg_Endpoint (tk_Target t))) \<and>
     (tk_Schedule t = [] \<or> cf_cron E (tk_Schedule t) = None) \<and>
     (tk_Timeout t = [] \<or> (case ParseDuration (tk_Timeout t) of None \<Rightarrow> False | Some d \<Rightarrow> 0 < d)) \<and>
     incremental_ok (tk_Incremental t)"

lemma validate_source_None:
  "validate_source E t = (None, t') \<longleftrightarrow>
    tk_Name t \<noteq> [] \<and> ep_Type (tk_Source t) \<in> set supportedTypes \<and> ep_Query (tk_Source t) \<noteq> [] \<and>
    \<not> isl (resolveDSN E (tk_Source t)) \<and> t' = set_source_dsn (projr (resolveDSN E (tk_Source t))) t"
  by (auto simp: validate_source_def split: sum.splits)

definition with_mode :: "Task \<Rightarrow> Task" where
  "with_mode t = (if tg_Mode (tk_Target t) = [] then set_mode ''upsert'' t else t)"

lemma validate_target_None:
  "validate_target E t = (None, t') \<longleftrightarrow>
    ep_Type (tg_Endpoint (tk_Target t)) \<in> set supportedTypes \<and> tg_Table (tk_Target t) \<noteq> [] \<and>
    (tg_Mode (tk_Target t) = ''insert'' \<or>
     (tg_Mode (tk_Target t) = ''upsert'' \<or> tg_Mode (tk_Target t) = []) \<and> tg_Keys (tk_Target t) \<noteq> []) \<and>
    \<not> isl (resolveDSN E (tg_Endpoint (tk_Target t))) \<and>
    t' = set_target_dsn (projr (resolveDSN E (tg_Endpoint (tk_Target t)))) (with_mode t)"
  by (auto simp: validate_target_def Let_def with_mode_def set_mode_def split: sum.splits)

definition timeout_of :: "Task \<Rightarrow> int" where
  "timeout_of t = (if tk_Timeout t = [] then defaultTimeout else the (ParseDuration (tk_Timeout t)))"

lemma validate_timing_None:
  "validate_timing E t = (None, t') \<longleftrightarrow>
    (tk_Schedule t = [] \<or> cf_cron E (tk_Schedule t) = None) \<and>
    (tk_Timeout t = [] \<or> (case ParseDuration (tk_Timeout t) of None \<Rightarrow> False | Some d \<Rightarrow> 0 < d)) \<and>
    t' = t\<lparr>tk_TimeoutDur := timeout_of t\<rparr>"
  by (auto simp: validate_timing_def timeout_of_def split: option.splits)

lemma fill_defaults_eq:
  "fill_defaults t = t\<lparr>tk_IsEnabled := (tk_Enabled t \<noteq> Some False),
     tk_PageSize := (if tk_PageSize t \<le> 0 then 5000 else tk_PageSize t),
     tk_Target := (tk_Target t)\<lparr>tg_BatchSize :=
       (if tg_BatchSize (tk_Target t) \<le> 0 then 500 else tg_BatchSize (tk_Target t))\<rparr>\<rparr>"
  by (auto simp: fill_defaults_def Let_def defaultPageSize_def defaultBatchSize_def split: option.splits)

lemma validated_steps:
  "fill_defaults ((set_target_dsn d2 (with_mode (set_source_dsn d1 t)))\<lparr>tk_TimeoutDur := timeout_of t\<rparr>) =
    validated E t"
  if "d1 = projr (resolveDSN E (tk_Source t))" "d2 = projr (resolveDSN E (tg_Endpoint (tk_Target t)))"
  by (simp add: that fill_defaults_eq validated_def set_target_dsn_def with_mode_def set_mode_def
      set_source_dsn_def timeout_of_def)

lemma unchanged_fields:
  "tk_Target (set_source_dsn d t) = tk_Target t"
  "tk_Schedule (set_target_dsn d2 (with_mode (set_source_dsn d t))) = tk_Schedule t"
  "tk_Timeout (set_target_dsn d2 (with_mode (set_source_dsn d t))) = tk_Timeout t"
  "tk_Incremental (set_target_dsn d2 (with_mode (set_source_dsn d t))) = tk_Incremental t"
  by (simp_all add: set_source_dsn_def set_target_dsn_def with_mode_def set_mode_def)

lemma validateTask_None:
  "validateTask E t = (None, t') \<longleftrightarrow> acceptable E t \<and> t' = validated E t"
proof -
  have "validateTask E t = (None, t') \<longleftrightarrow>
      (\<exists>t1. validate_source E t = (None, t1) \<and>
        (\<exists>t2. validate_target E t1 = (None, t2) \<and>
          (\<exists>t3. validate_timing E t2 = (None, t3) \<and>
            validate_incremental (tk_Incremental t3) = None \<and> t' = fill_defaults t3)))"
    by (auto simp: validateTask_def split: prod.splits option.splits)
  also have "\<dots> \<longleftrightarrow> acceptable E t \<and> t' = fill_defaults
      ((set_target_dsn (projr (resolveDSN E (tg_Endpoint (tk_Target t))))
        (with_mode (set_source_dsn (projr (resolveDSN E (tk_Source t))) t)))\<lparr>tk_TimeoutDur := timeout_of t\<rparr>)"
    unfolding validate_source_None validate_target_None validate_timing_None validate_incremental_None
      acceptable_def timeout_of_def
    by (simp add: unchanged_fields conj_ac cong: conj_cong)
  finally show ?thesis by (simp only: validated_steps [OF refl refl])
qed

lemma validateTask_ok: "acceptable E t \<Longrightarrow> validateTask E t = (None, validated E t)"
  by (simp add: validateTask_None)

lemma validateTask_error: "\<not> acceptable E t \<Longrightarrow> \<exists>e t'. validateTask E t = (Some e, t')"
  using validateTask_None [of E t] by (cases "validateTask E t"; cases "fst (validateTask E t)") auto

lemma validated_Name [simp]: "tk_Name (validated E t) = tk_Name t"
  by (simp add: validated_def)

lemma validate_tasks_accepts:
  "list_all (acceptable E) ts \<Longrightarrow> distinct (map tk_Name ts) \<Longrightarrow> set seen \<inter> set (map tk_Name ts) = {} \<Longrightarrow>
    validate_tasks E i seen ts = (None, map (validated E) ts)"
  by (induction ts arbitrary: i seen) (auto simp: validateTask_ok)

lemma validate_tasks_accepted:
  "validate_tasks E i seen ts = (None, ts') \<Longrightarrow>
    list_all (acceptable E) ts \<and> distinct (map tk_Name ts) \<and> set seen \<inter> set (map tk_Name ts) = {}"
proof (induction ts arbitrary: i seen ts')
  case (Cons t ts)
  then obtain t1 ts2 where t: "validateTask E t = (None, t1)" "tk_Name t1 \<notin> set seen"
    "validate_tasks E (i + 1) (tk_Name t1 # seen) ts = (None, ts2)"
    by (auto split: prod.splits option.splits if_splits)
  then have "acceptable E t" "tk_Name t1 = tk_Name t" by (simp_all add: validateTask_None)
  with Cons.IH [OF t(3)] t(2) show ?case by auto
qed auto

lemma validate_tasks_ok:
  "validate_tasks E i seen ts = (None, ts') \<longleftrightarrow>
    list_all (acceptable E) ts \<and> distinct (map tk_Name ts) \<and> set seen \<inter> set (map tk_Name ts) = {} \<and>
    ts' = map (validated E) ts"
  using validate_tasks_accepts [of E ts seen i] validate_tasks_accepted [of E i seen ts ts'] by auto

lemma Validate_ok:
  "Validate E c = (None, c') \<longleftrightarrow>
    c \<noteq> [] \<and> list_all (acceptable E) c \<and> distinct (map tk_Name c) \<and> c' = map (validated E) c"
  by (simp add: Validate_def validate_tasks_ok)

lemma validated_batch:
  assumes "Validate E c = (None, c')" "t \<in> set c'"
  shows "0 < tg_BatchSize (tk_Target t)"
  using assms by (auto simp: Validate_ok validated_def)

lemma validated_task_ok: "acceptable E t \<Longrightarrow> task_ok E (validated E t)"
proof -
  assume a: "acceptable E t"
  have "projr (resolveDSN E ep) \<noteq> []" if "\<not> isl (resolveDSN E ep)" for ep
    using that resolveDSN_nonempty [of E ep "projr (resolveDSN E ep)"] by (cases "resolveDSN E ep") auto
  moreover have "0 < timeout_of t \<and> timeout_of t < 2 ^ 63"
    using a ParseDuration_range [of "tk_Timeout t"]
    by (auto simp: acceptable_def timeout_of_def defaultTimeout_def second_ns_def int64_range_def split: option.splits)
  ultimately show ?thesis
    using a by (auto simp: acceptable_def validated_def task_ok_def timeout_of_def)
qed

lemma resolveDSN_again:
  "\<not> isl (resolveDSN E ep) \<Longrightarrow>
     resolveDSN E (ep\<lparr>ep_DSN := projr (resolveDSN E ep)\<rparr>) = resolveDSN E ep"
  by (auto simp: resolveDSN_def Let_def split: if_splits)

lemma validated_again:
  assumes "acceptable E t"
  shows "acceptable E (validated E t)" and "validated E (validated E t) = validated E t"
  using assms by (auto simp: acceptable_def validated_def resolveDSN_again)

section \<open>Properties\<close>

text \<open>
  C28: validation is exact: it succeeds on precisely the configurations with at least one
  task, all of them acceptable and with different names, and then it changes nothing but
  the documented fields: the DSN of each side (the environment variable's value when one is
  named), the mode's default, the timeout, the enabled flag and the two sizes.
\<close>
theorem validation_exact:
  "Validate E c = (None, c') \<longleftrightarrow>
    c \<noteq> [] \<and> list_all (acceptable E) c \<and> distinct (map tk_Name c) \<and> c' = map (validated E) c"
  by (rule Validate_ok)

text \<open>
  C29: every task of a validated configuration can be run: it has a name of its own, two
  supported databases with DSNs, a query, a table, a known mode with keys if it upserts, a
  schedule the cron parser reads, a positive timeout within 64 bits, a well-formed
  incremental section and positive page and batch sizes.
\<close>
theorem validated_config_ok:
  assumes "Validate E c = (None, c')"
  shows "list_all (task_ok E) c' \<and> distinct (map tk_Name c')"
  using assms by (auto simp: Validate_ok list_all_iff comp_def intro: validated_task_ok)

definition sample_endpoint :: Endpoint where
  "sample_endpoint = \<lparr>ep_Type = ''sqlite'', ep_DSN = ''a.db'', ep_DSNEnv = [], ep_Query = ''SELECT 1''\<rparr>"

definition sample_task :: Task where
  "sample_task = \<lparr>tk_Name = ''t'', tk_Schedule = [], tk_Timeout = ''90s'', tk_Enabled = None, tk_PageSize = 0,
     tk_Source = sample_endpoint,
     tk_Target = \<lparr>tg_Endpoint = sample_endpoint, tg_Table = ''users'', tg_Mode = [], tg_Keys = [''id''],
       tg_BatchSize = 0, tg_Bulk = False\<rparr>,
     tk_Incremental = None, tk_TimeoutDur = 0, tk_IsEnabled = False\<rparr>"

definition no_env :: config_env where
  "no_env = \<lparr>cf_getenv = (\<lambda>_. []), cf_cron = (\<lambda>_. None)\<rparr>"

lemma sample_validates: "Validate no_env [sample_task] = (None, [validated no_env sample_task])"
proof -
  have "ParseDuration ''90s'' = Some 90000000000" by code_simp
  then show ?thesis
    by (simp add: Validate_ok acceptable_def sample_task_def sample_endpoint_def no_env_def supportedTypes_def
        resolveDSN_def incremental_ok_def)
qed

theorem validated_config_ok_witness:
  "list_all (task_ok no_env) [validated no_env sample_task] \<and> distinct (map tk_Name [validated no_env sample_task])"
  by (rule validated_config_ok [OF sample_validates])

text \<open>
  Validation is idempotent: validating a validated configuration in the same
  environment succeeds and changes nothing.
\<close>
theorem validation_idempotent:
  assumes "Validate E c = (None, c')"
  shows "Validate E c' = (None, c')"
  using assms validated_again [of E]
  by (auto simp: Validate_ok list_all_iff comp_def)

theorem validation_idempotent_witness:
  "Validate no_env [validated no_env sample_task] = (None, [validated no_env sample_task])"
  by (rule validation_idempotent [OF sample_validates])

text \<open>
  The error of a configuration is that of its first bad task, with its index: when the
  tasks before it are acceptable and have different names, validation reports exactly that
  task's error.
\<close>
theorem validation_first_error:
  assumes "list_all (acceptable E) pre" "distinct (map tk_Name pre)" "validateTask E t = (Some e, t')"
  shows "fst (Validate E (pre @ t # post)) = Some (Wrapf ''task[%d]: %w'' [AInt (int (length pre))] e)"
proof -
  have "fst (validate_tasks E i seen (pre @ t # post)) = Some (Wrapf ''task[%d]: %w'' [AInt (int (i + length pre))] e)"
    if "set seen \<inter> set (map tk_Name pre) = {}" for i seen
    using assms(1,2) that
  proof (induction pre arbitrary: i seen)
    case Nil
    then show ?case by (simp add: assms(3))
  next
    case (Cons p pre)
    then have "validateTask E p = (None, validated E p)" by (simp add: validateTask_ok)
    with Cons.IH [of "tk_Name p # seen" "Suc i"] Cons.prems show ?case by (auto split: prod.splits)
  qed
  from this [of "[]" 0] show ?thesis by (simp add: Validate_def)
qed

theorem validation_first_error_witness:
  "fst (Validate no_env ([sample_task] @ sample_task\<lparr>tk_Name := []\<rparr> # [])) =
     Some (Wrapf ''task[%d]: %w'' [AInt (int (length [sample_task]))] (Errorf ''name is required'' []))"
proof (rule validation_first_error)
  show "list_all (acceptable no_env) [sample_task]" using sample_validates by (simp add: Validate_ok)
  show "validateTask no_env (sample_task\<lparr>tk_Name := []\<rparr>) =
      (Some (Errorf ''name is required'' []), sample_task\<lparr>tk_Name := []\<rparr>)"
    by (simp add: validateTask_def validate_source_def)
qed simp

end
