(* ===== verification/Bulk.thy ===== *)
theory Bulk
  imports Connector
begin

text \<open>
  The bulk paths of \<open>internal/connector\<close> (\<open>bulk.go\<close>, \<open>postgres_bulk.go\<close>,
  \<open>sqlserver_bulk.go\<close>): which operations of a dedicated connection they perform, in which
  order and up to which error. The statements they build are strings of theory Sqltext.
\<close>

section \<open>Driver operations of a dedicated connection\<close>

text \<open>
  The record extends the drivers with the operations of one connection taken from the pool.
  The first two arguments are the driver name and the DSN. \<open>bd_is_pgx\<close> tells whether the raw
  driver connection has pgx's type, \<open>bd_copy\<close> is pgx's \<open>CopyFrom\<close> with the rows it draws from
  its source, \<open>bd_prepare\<close>, \<open>bd_send\<close>, \<open>bd_flush\<close> and \<open>bd_stmt_close\<close> are the bulk statement of
  go-mssqldb, \<open>bd_now\<close> reads the clock.
\<close>

record 'w bulk_drivers = "'w drivers" +
  bd_conn :: "string \<Rightarrow> string \<Rightarrow> 'w \<Rightarrow> error option \<times> 'w"
  bd_conn_close :: "string \<Rightarrow> string \<Rightarrow> 'w \<Rightarrow> error option \<times> 'w"
  bd_exec :: "string \<Rightarrow> string \<Rightarrow> string \<Rightarrow> 'w \<Rightarrow> error option \<times> 'w"
  bd_is_pgx :: bool
  bd_copy :: "string \<Rightarrow> string list \<Rightarrow> string list \<Rightarrow> go_value list list \<Rightarrow> 'w \<Rightarrow> error option \<times> 'w"
  bd_prepare :: "string \<Rightarrow> string \<Rightarrow> string list \<Rightarrow> 'w \<Rightarrow> error option \<times> 'w"
  bd_send :: "string \<Rightarrow> go_value list \<Rightarrow> 'w \<Rightarrow> error option \<times> 'w"
  bd_flush :: "string \<Rightarrow> 'w \<Rightarrow> error option \<times> 'w"
  bd_stmt_close :: "string \<Rightarrow> 'w \<Rightarrow> error option \<times> 'w"
  bd_now :: "'w \<Rightarrow> gotime \<times> 'w"

definition ErrBulkUnsupported :: error where
  "ErrBulkUnsupported = Errorf ''bulk load unsupported for this dialect'' []"

section \<open>PostgreSQL\<close>

definition pgStageTempTable :: string where
  "pgStageTempTable = ''_replicron_bulk_stage''"

text \<open>\<open>rowCopySource\<close>: the rows, the columns, the next index and the current values.\<close>

record rowCopySource =
  cs_rows :: "row list"
  cs_cols :: "string list"
  cs_idx :: nat
  cs_cur :: "go_value list"

definition copy_Next :: "rowCopySource \<Rightarrow> bool \<times> rowCopySource" where
  "copy_Next s =
     (if length (cs_rows s) \<le> cs_idx s then (False, s)
      else (True, s\<lparr>cs_cur := map (row_get (cs_rows s ! cs_idx s)) (cs_cols s), cs_idx := cs_idx s + 1\<rparr>))"

text \<open>What a consumer that alternates \<open>Next\<close> and \<open>Values\<close> until \<open>Next\<close> is false receives.\<close>

function drain :: "rowCopySource \<Rightarrow> go_value list list" where
  "drain s = (case copy_Next s of (False, s) \<Rightarrow> [] | (True, s) \<Rightarrow> cs_cur s # drain s)"
  by pat_completeness auto
termination
  by (relation "measure (\<lambda>s. length (cs_rows s) - cs_idx s)") (auto simp: copy_Next_def split: if_splits)

declare drain.simps [simp del]

lemma drain_from:
  "cs_idx s \<le> length (cs_rows s) \<Longrightarrow>
     drain s = map (\<lambda>r. map (row_get r) (cs_cols s)) (drop (cs_idx s) (cs_rows s))"
proof (induction s rule: drain.induct)
  case (1 s)
  show ?case
  proof (cases "cs_idx s = length (cs_rows s)")
    case True
    then show ?thesis by (simp add: drain.simps [of s] copy_Next_def)
  next
    case False
    let ?s = "s\<lparr>cs_cur := map (row_get (cs_rows s ! cs_idx s)) (cs_cols s), cs_idx := cs_idx s + 1\<rparr>"
    have n: "copy_Next s = (True, ?s)" using False 1 by (simp add: copy_Next_def)
    have "drain ?s = map (\<lambda>r. map (row_get r) (cs_cols s)) (drop (Suc (cs_idx s)) (cs_rows s))"
      using "1.IH" [OF n [symmetric] refl] False "1.prems" by simp
    moreover have "drop (cs_idx s) (cs_rows s) = cs_rows s ! cs_idx s # drop (Suc (cs_idx s)) (cs_rows s)"
      using False "1.prems" by (simp add: Cons_nth_drop_Suc)
    ultimately show ?thesis by (subst drain.simps) (simp add: n)
  qed
qed

definition pg_create :: "string list \<Rightarrow> string list \<Rightarrow> string" where
  "pg_create parts cols =
     ''CREATE TEMP TABLE '' @ quoteDouble pgStageTempTable @ '' AS SELECT '' @ quotedList cols quoteDouble @
     '' FROM '' @ qualify parts quoteDouble @ '' WITH NO DATA''"

definition pg_merge :: "string list \<Rightarrow> string list \<Rightarrow> string list \<Rightarrow> string" where
  "pg_merge parts keys cols =
     ''INSERT INTO '' @ qualify parts quoteDouble @ '' ('' @ quotedList cols quoteDouble @ '') SELECT '' @
     quotedList cols quoteDouble @ '' FROM '' @ quoteDouble pgStageTempTable @
     '' ON CONFLICT ('' @ quotedList keys quoteDouble @ '') DO UPDATE SET '' @ conflictSets keys cols quoteDouble"

definition pg_drop :: string where
  "pg_drop = ''DROP TABLE '' @ quoteDouble pgStageTempTable"

text \<open>The function run on the raw connection.\<close>

definition pg_session ::
  "('w, 'x) bulk_drivers_scheme \<Rightarrow> sqlConn \<Rightarrow> string list \<Rightarrow> string list \<Rightarrow> string list \<Rightarrow> row list \<Rightarrow> 'w \<Rightarrow>
    error option \<times> 'w" where
  "pg_session D c parts keys cols rows w =
     (let exec = bd_exec D (conn_driver c) (sc_dsn c);
          src = \<lparr>cs_rows = rows, cs_cols = cols, cs_idx = 0, cs_cur = []\<rparr>
      in if \<not> bd_is_pgx D then (Some ErrBulkUnsupported, w)
         else case (if keys \<noteq> [] then exec (pg_create parts cols) w else (None, w)) of
           (Some e, w) \<Rightarrow> (Some (Wrapf ''pg bulk staging: %w'' [] e), w)
         | (None, w) \<Rightarrow>
             (case bd_copy D (sc_dsn c) (if keys \<noteq> [] then [pgStageTempTable] else parts) cols (drain src) w of
                (Some e, w) \<Rightarrow> (Some (Wrapf ''pg copy: %w'' [] e), w)
              | (None, w) \<Rightarrow>
                  if keys \<noteq> [] then
                    (case exec (pg_merge parts keys cols) w of
                       (Some e, w) \<Rightarrow> (Some (Wrapf ''pg bulk merge: %w'' [] e), w)
                     | (None, w) \<Rightarrow> (None, snd (exec pg_drop w)))
                  else (None, w)))"

definition bulkPostgres ::
  "('w, 'x) bulk_drivers_scheme \<Rightarrow> sqlConn \<Rightarrow> string list \<Rightarrow> string list \<Rightarrow> string list \<Rightarrow> row list \<Rightarrow> 'w \<Rightarrow>
    (error + int) \<times> 'w" where
  "bulkPostgres D c parts keys cols rows w =
     (case bd_conn D (conn_driver c) (sc_dsn c) w of
        (Some e, w) \<Rightarrow> (Inl e, w)
      | (None, w) \<Rightarrow>
          (case pg_session D c parts keys cols rows w of
             (err, w) \<Rightarrow>
               (case err of Some e \<Rightarrow> Inl e | None \<Rightarrow> Inr (int (length rows)),
                snd (bd_conn_close D (conn_driver c) (sc_dsn c) w))))"

section \<open>SQL Server\<close>

definition ms_create :: "string \<Rightarrow> string list \<Rightarrow> string list \<Rightarrow> string" where
  "ms_create stage parts cols =
     ''SELECT TOP 0 '' @ quotedList cols quoteBracket @ '' INTO '' @ quoteBracket stage @
     '' FROM '' @ qualify parts quoteBracket"

definition ms_drop :: "string \<Rightarrow> string" where
  "ms_drop stage =
     ''IF OBJECT_ID('' @ [CHR 0x27] @ ''tempdb..'' @ stage @ [CHR 0x27] @ '') IS NOT NULL DROP TABLE '' @ quoteBracket stage"

definition ms_final :: "string \<Rightarrow> string list \<Rightarrow> string list \<Rightarrow> string list \<Rightarrow> string" where
  "ms_final stage parts keys cols =
     (if keys \<noteq> [] then mergeFromStage parts stage keys cols
      else ''INSERT INTO '' @ qualify parts quoteBracket @ '' ('' @ quotedList cols quoteBracket @ '') SELECT '' @
        quotedList cols quoteBracket @ '' FROM '' @ quoteBracket stage)"

fun ms_send_rows ::
  "('w, 'x) bulk_drivers_scheme \<Rightarrow> string \<Rightarrow> string list \<Rightarrow> row list \<Rightarrow> 'w \<Rightarrow> error option \<times> 'w" where
  "ms_send_rows D dsn cols [] w = (None, w)"
| "ms_send_rows D dsn cols (r # rs) w =
     (case bd_send D dsn (map (row_get r) cols) w of
        (Some e, w) \<Rightarrow> (Some e, snd (bd_stmt_close D dsn w))
      | (None, w) \<Rightarrow> ms_send_rows D dsn cols rs w)"

text \<open>From the bulk statement to the final statement, between the creation of the staging
  table and the deferred drop.\<close>

definition ms_fill ::
  "('w, 'x) bulk_drivers_scheme \<Rightarrow> sqlConn \<Rightarrow> string \<Rightarrow> string list \<Rightarrow> string list \<Rightarrow> string list \<Rightarrow> row list \<Rightarrow> 'w \<Rightarrow>
    (error + int) \<times> 'w" where
  "ms_fill D c stage parts keys cols rows w =
     (let dsn = sc_dsn c in
      case bd_prepare D dsn stage cols w of
        (Some e, w) \<Rightarrow> (Inl (Wrapf ''mssql bulk prepare: %w'' [] e), w)
      | (None, w) \<Rightarrow>
          (case ms_send_rows D dsn cols rows w of
             (Some e, w) \<Rightarrow> (Inl (Wrapf ''mssql bulk send: %w'' [] e), w)
           | (None, w) \<Rightarrow>
               (case bd_flush D dsn w of
                  (Some e, w) \<Rightarrow> (Inl (Wrapf ''mssql bulk flush: %w'' [] e), snd (bd_stmt_close D dsn w))
                | (None, w) \<Rightarrow>
                    (case bd_stmt_close D dsn w of
                       (Some e, w) \<Rightarrow> (Inl (Wrapf ''mssql bulk close: %w'' [] e), w)
                     | (None, w) \<Rightarrow>
                         (case bd_exec D (conn_driver c) dsn (ms_final stage parts keys cols) w of
                            (Some e, w) \<Rightarrow> (Inl (Wrapf ''mssql bulk apply: %w'' [] e), w)
                          | (None, w) \<Rightarrow> (Inr (int (length rows)), w))))))"

definition bulkSQLServer ::
  "('w, 'x) bulk_drivers_scheme \<Rightarrow> sqlConn \<Rightarrow> string list \<Rightarrow> string list \<Rightarrow> string list \<Rightarrow> row list \<Rightarrow> 'w \<Rightarrow>
    (error + int) \<times> 'w" where
  "bulkSQLServer D c parts keys cols rows w =
     (case bd_now D w of
        (now, w) \<Rightarrow>
          let stage = ''#replicron_bulk_'' @ itoa (inst now);
              exec = bd_exec D (conn_driver c) (sc_dsn c);
              close = (\<lambda>w. snd (bd_conn_close D (conn_driver c) (sc_dsn c) w))
          in case bd_conn D (conn_driver c) (sc_dsn c) w of
               (Some e, w) \<Rightarrow> (Inl e, w)
             | (None, w) \<Rightarrow>
                 (case exec (ms_create stage parts cols) w of
                    (Some e, w) \<Rightarrow> (Inl (Wrapf ''mssql bulk staging: %w'' [] e), close w)
                  | (None, w) \<Rightarrow>
                      (case ms_fill D c stage parts keys cols rows w of
                         (r, w) \<Rightarrow> (r, close (snd (exec (ms_drop stage) w))))))"

section \<open>Routing\<close>

definition BulkLoad ::
  "('w, 'x) bulk_drivers_scheme \<Rightarrow> sqlConn \<Rightarrow> string \<Rightarrow> string list \<Rightarrow> string list \<Rightarrow> row list \<Rightarrow> 'w \<Rightarrow>
    (error + int) \<times> 'w" where
  "BulkLoad D c table keys cols rows w =
     (if rows = [] then (Inr 0, w)
      else case SplitTablePath table of
             Inl e \<Rightarrow> (Inl e, w)
           | Inr parts \<Rightarrow>
               (case ValidateColumns cols of
                  Some e \<Rightarrow> (Inl e, w)
                | None \<Rightarrow>
                    (case ValidateColumns keys of
                       Some e \<Rightarrow> (Inl e, w)
                     | None \<Rightarrow>
                         if d_name (sc_dialect c) = d_name pgDialect then bulkPostgres D c parts keys cols rows w
                         else if d_name (sc_dialect c) = d_name mssqlDialect then bulkSQLServer D c parts keys cols rows w
                         else (Inl ErrBulkUnsupported, w))))"

section \<open>The number of rows reported\<close>

lemma bulkPostgres_count: "bulkPostgres D c parts keys cols rows w = (Inr n, w') \<Longrightarrow> n = int (length rows)"
  by (auto simp: bulkPostgres_def split: prod.splits option.splits)

lemma ms_fill_count: "ms_fill D c stage parts keys cols rows w = (Inr n, w') \<Longrightarrow> n = int (length rows)"
  by (auto simp: ms_fill_def Let_def split: prod.splits option.splits)

lemma bulkSQLServer_count: "bulkSQLServer D c parts keys cols rows w = (Inr n, w') \<Longrightarrow> n = int (length rows)"
  by (auto simp: bulkSQLServer_def Let_def dest: ms_fill_count split: prod.splits option.splits)

lemma BulkLoad_count: "BulkLoad D c table keys cols rows w = (Inr n, w') \<Longrightarrow> n = int (length rows)"
  by (auto simp: BulkLoad_def dest: bulkPostgres_count bulkSQLServer_count
      split: sum.splits option.splits if_splits)

section \<open>Properties\<close>

text \<open>
  The COPY source delivers every row once, in order, each as its column values in
  column order, and then ends.
\<close>
theorem copy_source_delivers_rows:
  "drain \<lparr>cs_rows = rows, cs_cols = cols, cs_idx = 0, cs_cur = cur\<rparr> = map (\<lambda>r. map (row_get r) cols) rows"
  by (simp add: drain_from)

text \<open>A recording driver: its world is the list of what was executed; it fails statements
  and copies as told.\<close>

definition trace_bulk :: "(string \<Rightarrow> error option) \<Rightarrow> string list bulk_drivers" where
  "trace_bulk fail =
     \<lparr>drv_open = \<lambda>_ _ w. (None, w), drv_ping = \<lambda>_ _ w. (None, w), drv_close = \<lambda>_ _ w. (None, w),
      drv_query = \<lambda>_ _ _ w. (Inl (External ''none''), w), drv_exec = \<lambda>_ _ q args w. (fail q, w @ [q]),
      bd_conn = \<lambda>_ _ w. (None, w @ [''conn'']), bd_conn_close = \<lambda>_ _ w. (None, w @ [''close'']),
      bd_exec = \<lambda>_ _ q w. (fail q, w @ [q]), bd_is_pgx = True,
      bd_copy = \<lambda>_ dst cols rows w. (fail ''copy'', w @ [''copy'']),
      bd_prepare = \<lambda>_ stage cols w. (fail ''prepare'', w @ [''prepare'']),
      bd_send = \<lambda>_ vals w. (fail ''send'', w @ [''send'']), bd_flush = \<lambda>_ w. (fail ''flush'', w @ [''flush'']),
      bd_stmt_close = \<lambda>_ w. (None, w @ [''stmt close'']), bd_now = \<lambda>w. (GoTime 7 0, w)\<rparr>"

definition pg_conn :: sqlConn where
  "pg_conn = \<lparr>sc_dialect = pgDialect, sc_dsn = ''d'', sc_db = True\<rparr>"

definition ms_conn :: sqlConn where
  "ms_conn = \<lparr>sc_dialect = mssqlDialect, sc_dsn = ''d'', sc_db = True\<rparr>"

text \<open>
  On PostgreSQL, a bulk upsert that fails after its staging table was created leaves
  the table behind: whether the copy or the merge failed, the next operation on the session
  is giving it back to the pool, so a later bulk upsert on that session cannot create the
  table.
\<close>
theorem pg_bulk_error_keeps_stage:
  assumes pgx: "bd_is_pgx D" and keys: "keys \<noteq> []"
    and conn: "bd_conn D (conn_driver c) (sc_dsn c) w = (None, w1)"
    and create: "bd_exec D (conn_driver c) (sc_dsn c) (pg_create parts cols) w1 = (None, w2)"
    and copy: "bd_copy D (sc_dsn c) [pgStageTempTable] cols (map (\<lambda>r. map (row_get r) cols) rows) w2 = (ce, w3)"
    and merge: "bd_exec D (conn_driver c) (sc_dsn c) (pg_merge parts keys cols) w3 = (me, w4)"
    and fails: "ce \<noteq> None \<or> me \<noteq> None"
  shows "\<exists>e. bulkPostgres D c parts keys cols rows w =
    (Inl e, snd (bd_conn_close D (conn_driver c) (sc_dsn c) (if ce \<noteq> None then w3 else w4)))"
proof -
  have copy': "bd_copy D (sc_dsn c) (if keys \<noteq> [] then [pgStageTempTable] else parts) cols
      (drain \<lparr>cs_rows = rows, cs_cols = cols, cs_idx = 0, cs_cur = []\<rparr>) w2 = (ce, w3)"
    using copy keys by (simp add: drain_from)
  have create': "(if keys \<noteq> [] then bd_exec D (conn_driver c) (sc_dsn c) (pg_create parts cols) w1 else (None, w1)) = (None, w2)"
    using create keys by simp
  have "\<exists>e. pg_session D c parts keys cols rows w1 = (Some e, if ce \<noteq> None then w3 else w4)"
    unfolding pg_session_def Let_def create' prod.case option.case copy'
    using pgx keys merge fails by (cases ce; cases me) auto
  then show ?thesis by (auto simp: bulkPostgres_def conn)
qed

definition fail_merge :: "string \<Rightarrow> error option" where
  "fail_merge q = (if take 6 q = ''INSERT'' then Some (External ''violation'') else None)"

theorem pg_bulk_error_keeps_stage_witness:
  "\<exists>e. bulkPostgres (trace_bulk fail_merge) pg_conn [''t''] [''id''] [''id'', ''v''] [[(''id'', VInt64 1)]] [] =
    (Inl e, [''conn'', pg_create [''t''] [''id'', ''v''], ''copy'', pg_merge [''t''] [''id''] [''id'', ''v''], ''close''])"
proof -
  let ?cols = "[''id'', ''v'']" and ?D = "trace_bulk fail_merge"
  have f: "fail_merge (pg_create [''t''] ?cols) = None" "fail_merge ''copy'' = None"
    "fail_merge (pg_merge [''t''] [''id''] ?cols) = Some (External ''violation'')"
    by (simp_all add: fail_merge_def pg_create_def pg_merge_def)
  have "\<exists>e. bulkPostgres ?D pg_conn [''t''] [''id''] ?cols [[(''id'', VInt64 1)]] [] =
    (Inl e, snd (bd_conn_close ?D (conn_driver pg_conn) (sc_dsn pg_conn)
      (if (None :: error option) \<noteq> None then [''conn'', pg_create [''t''] ?cols, ''copy'']
       else [''conn'', pg_create [''t''] ?cols, ''copy'', pg_merge [''t''] [''id''] ?cols])))"
    by (rule pg_bulk_error_keeps_stage [where me = "Some (External ''violation'')"])
      (simp_all add: trace_bulk_def f)
  then show ?thesis by (simp add: trace_bulk_def)
qed

text \<open>
  On SQL Server the staging table never outlives the call: once it was created, the
  last operations before the connection goes back are always the drop of the table and then
  the close, whatever failed in between.
\<close>
theorem mssql_bulk_always_drops:
  assumes "bd_now D w = (now, w0)"
    and "bd_conn D (conn_driver c) (sc_dsn c) w0 = (None, w1)"
    and "bd_exec D (conn_driver c) (sc_dsn c) (ms_create (''#replicron_bulk_'' @ itoa (inst now)) parts cols) w1 = (None, w2)"
  shows "\<exists>r w3. ms_fill D c (''#replicron_bulk_'' @ itoa (inst now)) parts keys cols rows w2 = (r, w3) \<and>
    bulkSQLServer D c parts keys cols rows w =
      (r, snd (bd_conn_close D (conn_driver c) (sc_dsn c)
        (snd (bd_exec D (conn_driver c) (sc_dsn c) (ms_drop (''#replicron_bulk_'' @ itoa (inst now))) w3))))"
  using assms by (auto simp: bulkSQLServer_def Let_def split: prod.splits)

theorem mssql_bulk_always_drops_witness:
  "snd (bulkSQLServer (trace_bulk (\<lambda>q. if q = ''send'' then Some (External ''eof'') else None)) ms_conn
      [''t''] [''id''] [''id'', ''v''] [[(''id'', VInt64 1)]] []) =
   [''conn'', ms_create ''#replicron_bulk_7'' [''t''] [''id'', ''v''], ''prepare'', ''send'', ''stmt close'',
    ms_drop ''#replicron_bulk_7'', ''close'']"
proof -
  let ?D = "trace_bulk (\<lambda>q. if q = ''send'' then Some (External ''eof'') else None)"
  have i: "''#replicron_bulk_'' @ itoa (inst (GoTime 7 0)) = ''#replicron_bulk_7''" by code_simp
  have n: "ms_create s p cs \<noteq> ''send''" for s p cs by (simp add: ms_create_def)
  have "\<exists>r w3. ms_fill ?D ms_conn (''#replicron_bulk_'' @ itoa (inst (GoTime 7 0))) [''t''] [''id''] [''id'', ''v'']
      [[(''id'', VInt64 1)]] [''conn'', ms_create ''#replicron_bulk_7'' [''t''] [''id'', ''v'']] = (r, w3) \<and>
    bulkSQLServer ?D ms_conn [''t''] [''id''] [''id'', ''v''] [[(''id'', VInt64 1)]] [] =
      (r, snd (bd_conn_close ?D (conn_driver ms_conn) (sc_dsn ms_conn)
        (snd (bd_exec ?D (conn_driver ms_conn) (sc_dsn ms_conn) (ms_drop (''#replicron_bulk_'' @ itoa (inst (GoTime 7 0)))) w3))))"
    by (rule mssql_bulk_always_drops) (simp_all only: i, simp_all add: trace_bulk_def n)
  then show ?thesis unfolding i by (auto simp: ms_fill_def trace_bulk_def Let_def)
qed

text \<open>
  The bulk path is offered only where it exists: names are checked first, and on
  MySQL and SQLite it reports \<open>ErrBulkUnsupported\<close> without touching the database.
\<close>
theorem bulk_unsupported_dialects:
  assumes "rows \<noteq> []" "path_ok table" "list_all identRe cols" "list_all identRe keys"
    and "sc_dialect c = mysqlDialect \<or> sc_dialect c = sqliteDialect"
  shows "BulkLoad D c table keys cols rows w = (Inl ErrBulkUnsupported, w)"
proof -
  have v: "ValidateColumns cols = None" "ValidateColumns keys = None"
    using assms(3,4) by (simp_all add: ValidateColumns_None list_all_iff)
  obtain parts where "SplitTablePath table = Inr parts" using assms(2) path_ok_Split by blast
  then show ?thesis using assms(1,5) v
    by (auto simp: BulkLoad_def mysqlDialect_def sqliteDialect_def pgDialect_def mssqlDialect_def)
qed

theorem bulk_unsupported_dialects_witness:
  "BulkLoad (trace_bulk (\<lambda>_. None)) log_conn ''users'' [''id''] [''id''] [[(''id'', VInt64 1)]] [] =
    (Inl ErrBulkUnsupported, [])"
proof (rule bulk_unsupported_dialects)
  show "path_ok ''users''" "list_all identRe [''id'']" "list_all identRe [''id'']" by code_simp+
qed (simp_all add: log_conn_def)

text \<open>
  C36: no name outside the allowlist ever reaches a database: with a bad table path, column
  or key the three writers (upsert, insert, bulk load) return an error and leave the outside
  world as it was, before any connection is taken or statement sent. An insert has no keys.
\<close>
theorem writers_refuse_bad_names:
  assumes "rows \<noteq> []" and "\<not> (path_ok table \<and> list_all identRe cols \<and> list_all identRe keys)"
  shows "(\<exists>e. UpsertRows D c table keys cols rows w = (Inl e, w)) \<and>
    (\<exists>e. BulkLoad D c table keys cols rows w = (Inl e, w)) \<and>
    (path_ok table \<and> list_all identRe cols \<or> (\<exists>e. InsertRows D c table cols rows w = (Inl e, w)))"
proof -
  have v: "list_all identRe xs \<longleftrightarrow> ValidateColumns xs = None" for xs
    by (simp add: ValidateColumns_None list_all_iff)
  show ?thesis using assms
    by (auto simp: UpsertRows_def InsertRows_def BulkLoad_def path_ok_Split v split: sum.splits option.splits)
qed

text \<open>A table path, a column and a key that would each end a quoted or bare name.\<close>

theorem writers_refuse_bad_names_witness:
  "(\<exists>e. UpsertRows (trace_bulk (\<lambda>_. None)) pg_conn ''users; DROP TABLE x'' [''id''] [''id''] [[(''id'', VInt64 1)]] [] = (Inl e, [])) \<and>
   (\<exists>e. BulkLoad (trace_bulk (\<lambda>_. None)) pg_conn ''users'' [''id''] [''id'', ''a, b''] [[(''id'', VInt64 1)]] [] = (Inl e, [])) \<and>
   (\<exists>e. BulkLoad (trace_bulk (\<lambda>_. None)) pg_conn ''users'' [''i d''] [''id''] [[(''id'', VInt64 1)]] [] = (Inl e, [])) \<and>
   (\<exists>e. InsertRows (trace_bulk (\<lambda>_. None)) pg_conn ''users; DROP TABLE x'' [''id''] [[(''id'', VInt64 1)]] [] = (Inl e, []))"
proof -
  have bad: "\<not> path_ok ''users; DROP TABLE x''" "\<not> list_all identRe [''id'', ''a, b'']" "\<not> list_all identRe [''i d'']" by code_simp+
  show ?thesis
    using writers_refuse_bad_names [of "[[(''id'', VInt64 1)]]" "''users; DROP TABLE x''" "[''id'']" "[''id'']" "trace_bulk (\<lambda>_. None)" pg_conn "[]"]
      writers_refuse_bad_names [of "[[(''id'', VInt64 1)]]" "''users''" "[''id'', ''a, b'']" "[''id'']" "trace_bulk (\<lambda>_. None)" pg_conn "[]"]
      writers_refuse_bad_names [of "[[(''id'', VInt64 1)]]" "''users''" "[''id'']" "[''i d'']" "trace_bulk (\<lambda>_. None)" pg_conn "[]"]
      bad by blast
qed

end
