(* ===== verification/Registry.thy ===== *)
theory Registry
  imports Model
begin

text \<open>
  \<open>internal/registry/registry.go\<close>: the \<open>Locker\<close> contract as a locale and its in-process
  implementation, a map from task names to token pointers. The client of the contract is a
  scheduler that starts and finishes runs; that at most one run per task is active at a
  time is proved once for every provider whose leases last until they are released.
\<close>

section \<open>Tokens\<close>

text \<open>\<open>*Token\<close>: the pointer is the allocation number \<open>tok_addr\<close>, so equality of the records of
  allocated tokens is the pointer comparison of the code.\<close>

record Token =
  tok_Name :: string
  tok_Gen :: u64
  tok_addr :: nat

section \<open>The Locker contract\<close>

text \<open>
  Operations are called by an instance \<open>i\<close> (a process; the registry has one). \<open>owns s t\<close>
  says that the lease of \<open>t\<close> is in force; \<open>client i\<close> that the instance is configured
  sensibly, \<open>issued i t\<close> that the token is one of its own. A refused acquire changes nothing
  in force; releasing a token that is not in force changes nothing.
\<close>

locale locker =
  fixes acquire :: "'i \<Rightarrow> string \<Rightarrow> 's \<Rightarrow> 't option \<times> 's"
    and release :: "'i \<Rightarrow> 't \<Rightarrow> 's \<Rightarrow> 's"
    and name :: "'t \<Rightarrow> string"
    and owns :: "'s \<Rightarrow> 't \<Rightarrow> bool"
    and inv :: "'s \<Rightarrow> bool"
    and client :: "'i \<Rightarrow> bool"
    and issued :: "'i \<Rightarrow> 't \<Rightarrow> bool"
  assumes exclusive: "inv s \<Longrightarrow> owns s t \<Longrightarrow> owns s u \<Longrightarrow> name t = name u \<Longrightarrow> t = u"
    and acquired: "inv s \<Longrightarrow> client i \<Longrightarrow> acquire i n s = (Some t, s') \<Longrightarrow>
      inv s' \<and> name t = n \<and> issued i t \<and> (\<forall>u. owns s u \<longrightarrow> name u \<noteq> n) \<and>
      (\<forall>u. owns s' u \<longleftrightarrow> u = t \<or> owns s u)"
    and refused: "inv s \<Longrightarrow> client i \<Longrightarrow> acquire i n s = (None, s') \<Longrightarrow>
      inv s' \<and> (\<forall>u. owns s' u \<longleftrightarrow> owns s u)"
    and released: "inv s \<Longrightarrow> issued i t \<Longrightarrow>
      inv (release i t s) \<and> (\<forall>u. owns (release i t s) u \<longleftrightarrow> owns s u \<and> u \<noteq> t)"

text \<open>A locker that never refuses a free task.\<close>

locale live_locker = locker +
  assumes granted: "inv s \<Longrightarrow> client i \<Longrightarrow> \<forall>u. owns s u \<longrightarrow> name u \<noteq> n \<Longrightarrow> \<exists>t. fst (acquire i n s) = Some t"

text \<open>A locker that never issues a token twice: \<open>used s\<close> are the tokens issued so far.\<close>

locale fresh_locker = locker +
  fixes used :: "'s \<Rightarrow> 't \<Rightarrow> bool"
  assumes owned_used: "inv s \<Longrightarrow> owns s t \<Longrightarrow> used s t"
    and fresh: "inv s \<Longrightarrow> acquire i n s = (Some t, s') \<Longrightarrow> \<not> used s t"
    and used_acquire: "inv s \<Longrightarrow> acquire i n s = (r, s') \<Longrightarrow> used s t \<or> r = Some t \<Longrightarrow> used s' t"
    and used_release: "used s t \<Longrightarrow> used (release i u s) t"

section \<open>Its client: starting and finishing runs\<close>

text \<open>
  What the callers of the contract do with it (\<open>Engine.RunTask\<close>): a run starts by
  acquiring, and is active when that succeeds; an active run finishes by releasing its own
  token. Late releases of tokens that are no longer active are \<open>Stale\<close>.
\<close>

datatype ('i, 't) lock_op = Start 'i string | Finish 'i 't | Stale 'i 't

fun lock_step ::
  "('i \<Rightarrow> string \<Rightarrow> 's \<Rightarrow> 't option \<times> 's) \<Rightarrow> ('i \<Rightarrow> 't \<Rightarrow> 's \<Rightarrow> 's) \<Rightarrow>
    ('i, 't) lock_op \<Rightarrow> 's \<times> 't list \<Rightarrow> 's \<times> 't list" where
  "lock_step acq rel (Start i n) (s, active) =
     (case acq i n s of (None, s) \<Rightarrow> (s, active) | (Some t, s) \<Rightarrow> (s, t # active))"
| "lock_step acq rel (Finish i t) (s, active) =
     (if t \<in> set active then (rel i t s, remove1 t active) else (s, active))"
| "lock_step acq rel (Stale i t) (s, active) =
     (if t \<in> set active then (s, active) else (rel i t s, active))"

definition lock_run ::
  "('i \<Rightarrow> string \<Rightarrow> 's \<Rightarrow> 't option \<times> 's) \<Rightarrow> ('i \<Rightarrow> 't \<Rightarrow> 's \<Rightarrow> 's) \<Rightarrow>
    ('i, 't) lock_op list \<Rightarrow> 's \<times> 't list \<Rightarrow> 's \<times> 't list" where
  "lock_run acq rel ops = fold (lock_step acq rel) ops"

fun op_ok :: "('i \<Rightarrow> bool) \<Rightarrow> ('i \<Rightarrow> 't \<Rightarrow> bool) \<Rightarrow> ('i, 't) lock_op \<Rightarrow> bool" where
  "op_ok client issued (Start i n) = client i"
| "op_ok client issued (Finish i t) = issued i t"
| "op_ok client issued (Stale i t) = issued i t"

context locker
begin

definition run_inv :: "'s \<times> 't list \<Rightarrow> bool" where
  "run_inv = (\<lambda>(s, active). inv s \<and> distinct active \<and> (\<forall>t. t \<in> set active \<longleftrightarrow> owns s t))"

lemma step_inv:
  assumes ok: "op_ok client issued op" and inv: "run_inv sa"
  shows "run_inv (lock_step acquire release op sa)"
proof (cases op)
  case (Start i n)
  obtain s active where sa: "sa = (s, active)" by (cases sa)
  obtain r s' where r: "acquire i n s = (r, s')" by (cases "acquire i n s")
  show ?thesis
  proof (cases r)
    case None
    with r refused [of s i n s'] ok inv Start show ?thesis by (auto simp: sa run_inv_def)
  next
    case (Some t)
    with r have "acquire i n s = (Some t, s')" by simp
    moreover have "inv s" "client i" using inv ok Start by (auto simp: sa run_inv_def)
    ultimately have a: "inv s'" "name t = n" "\<forall>u. owns s u \<longrightarrow> name u \<noteq> n"
      "\<forall>u. owns s' u \<longleftrightarrow> u = t \<or> owns s u"
      using acquired by blast+
    then have "\<not> owns s t" by blast
    with a inv Start Some r show ?thesis by (auto simp: sa run_inv_def)
  qed
next
  case (Finish i t)
  obtain s active where sa: "sa = (s, active)" by (cases sa)
  show ?thesis
    using released [of s i t] ok inv Finish by (auto simp: sa run_inv_def)
next
  case (Stale i t)
  obtain s active where sa: "sa = (s, active)" by (cases sa)
  show ?thesis
    using released [of s i t] ok inv Stale by (auto simp: sa run_inv_def)
qed

lemma run_inv_run:
  "list_all (op_ok client issued) ops \<Longrightarrow> run_inv sa \<Longrightarrow> run_inv (lock_run acquire release ops sa)"
proof (induction ops arbitrary: sa)
  case (Cons op ops)
  then have "run_inv (lock_step acquire release op sa)" by (simp add: step_inv)
  with Cons show ?case by (simp add: lock_run_def)
qed (simp add: lock_run_def)

lemma one_active_per_name:
  assumes "run_inv sa" and "lock_run acquire release ops sa = (s', active)"
    and "list_all (op_ok client issued) ops"
  shows "distinct (map name active)"
proof -
  have "run_inv (s', active)" using run_inv_run [OF assms(3,1)] assms(2) by simp
  then show ?thesis
    unfolding distinct_map run_inv_def inj_on_def by (auto intro: exclusive)
qed

end

context fresh_locker
begin

lemma lost_step:
  assumes "op_ok client issued op" "inv s" "used s t" "\<not> owns s t"
    and "lock_step acquire release op (s, active) = (s', active')"
  shows "inv s' \<and> used s' t \<and> \<not> owns s' t"
proof (cases op)
  case (Start i n)
  obtain r s1 where r: "acquire i n s = (r, s1)" by (cases "acquire i n s")
  with assms Start have s': "s' = s1" by (auto split: option.splits)
  show ?thesis
  proof (cases r)
    case None
    with r refused [of s i n s1] used_acquire [OF assms(2) r] assms Start s' show ?thesis by auto
  next
    case (Some u)
    with r have a: "acquire i n s = (Some u, s1)" by simp
    have "u \<noteq> t" using fresh [OF assms(2) a] assms(3) by blast
    then show ?thesis
      using acquired [OF assms(2) _ a] used_acquire [OF assms(2) a] assms Start s' by auto
  qed
next
  case (Finish i u)
  with released [of s i u] used_release [of s t i u] assms show ?thesis by (auto split: if_splits)
next
  case (Stale i u)
  with released [of s i u] used_release [of s t i u] assms show ?thesis by (auto split: if_splits)
qed

lemma lost_for_good:
  "list_all (op_ok client issued) ops \<Longrightarrow> inv s \<Longrightarrow> used s t \<Longrightarrow> \<not> owns s t \<Longrightarrow>
   \<not> owns (fst (lock_run acquire release ops (s, active))) t"
proof (induction ops arbitrary: s active)
  case (Cons op ops)
  obtain s' active' where step: "lock_step acquire release op (s, active) = (s', active')"
    by (cases "lock_step acquire release op (s, active)")
  have "inv s' \<and> used s' t \<and> \<not> owns s' t"
    by (rule lost_step [OF _ Cons.prems(2-4) step]) (use Cons.prems(1) in simp)
  then have "\<not> owns (fst (lock_run acquire release ops (s', active'))) t"
    using Cons.IH Cons.prems(1) by simp
  then show ?case by (simp add: lock_run_def step)
qed (simp add: lock_run_def)

end

section \<open>The in-process registry\<close>

record Registry =
  reg_running :: "string \<Rightarrow> Token option"
  reg_gen :: u64
  reg_next :: nat    \<comment> \<open>allocation counter of token objects\<close>

definition NewRegistry :: Registry where
  "NewRegistry = \<lparr>reg_running = Map.empty, reg_gen = 0, reg_next = 0\<rparr>"

definition Acquire :: "string \<Rightarrow> Registry \<Rightarrow> Token option \<times> Registry" where
  "Acquire name r =
     (case reg_running r name of
        Some _ \<Rightarrow> (None, r)
      | None \<Rightarrow>
          let gen = reg_gen r + 1;
              t = \<lparr>tok_Name = name, tok_Gen = gen, tok_addr = reg_next r\<rparr>
          in (Some t, r\<lparr>reg_running := (reg_running r)(name \<mapsto> t), reg_gen := gen,
                       reg_next := Suc (reg_next r)\<rparr>))"

definition Release :: "Token option \<Rightarrow> Registry \<Rightarrow> Registry" where
  "Release p r =
     (case p of
        None \<Rightarrow> r
      | Some t \<Rightarrow>
          if reg_running r (tok_Name t) = Some t
          then r\<lparr>reg_running := (reg_running r)(tok_Name t := None)\<rparr> else r)"

definition reg_owns :: "Registry \<Rightarrow> Token \<Rightarrow> bool" where
  "reg_owns r t \<longleftrightarrow> reg_running r (tok_Name t) = Some t"

definition reg_inv :: "Registry \<Rightarrow> bool" where
  "reg_inv r \<longleftrightarrow> (\<forall>n t. reg_running r n = Some t \<longrightarrow> tok_Name t = n \<and> tok_addr t < reg_next r)"

definition reg_used :: "Registry \<Rightarrow> Token \<Rightarrow> bool" where
  "reg_used r t \<longleftrightarrow> tok_addr t < reg_next r"

lemma Acquire_Some [lock_simps]:
  "Acquire n r = (Some t, r') \<longleftrightarrow>
     reg_running r n = None \<and>
     t = \<lparr>tok_Name = n, tok_Gen = reg_gen r + 1, tok_addr = reg_next r\<rparr> \<and>
     r' = r\<lparr>reg_running := (reg_running r)(n \<mapsto> t), reg_gen := reg_gen r + 1, reg_next := Suc (reg_next r)\<rparr>"
  by (auto simp: Acquire_def Let_def split: option.splits)

lemma Acquire_None [lock_simps]: "Acquire n r = (None, r') \<longleftrightarrow> reg_running r n \<noteq> None \<and> r' = r"
  by (auto simp: Acquire_def Let_def split: option.splits)

lemma reg_inv_New: "reg_inv NewRegistry" and reg_owns_New: "\<not> reg_owns NewRegistry t"
  by (simp_all add: reg_inv_def reg_owns_def NewRegistry_def)

interpretation reg: live_locker "\<lambda>(_ :: unit). Acquire" "\<lambda>_ t. Release (Some t)" tok_Name reg_owns reg_inv
  "\<lambda>_. True" "\<lambda>_ _. True"
proof unfold_locales
  fix s s' :: Registry and t u :: Token and i n
  show "reg_inv s \<Longrightarrow> reg_owns s t \<Longrightarrow> reg_owns s u \<Longrightarrow> tok_Name t = tok_Name u \<Longrightarrow> t = u"
    by (simp add: reg_owns_def)
  assume inv: "reg_inv s"
  show "reg_inv s' \<and> tok_Name t = n \<and> True \<and> (\<forall>u. reg_owns s u \<longrightarrow> tok_Name u \<noteq> n) \<and>
      (\<forall>u. reg_owns s' u = (u = t \<or> reg_owns s u))" if "Acquire n s = (Some t, s')"
  proof (intro conjI)
    have r: "reg_running s n = None" "tok_Name t = n" "tok_addr t = reg_next s"
      "reg_running s' = (reg_running s)(n \<mapsto> t)" "reg_next s' = Suc (reg_next s)"
      using that by (simp_all add: lock_simps)
    show "reg_inv s'" using inv r by (auto simp: reg_inv_def less_Suc_eq)
    show "tok_Name t = n" by fact
    show "\<forall>u. reg_owns s u \<longrightarrow> tok_Name u \<noteq> n" using r by (auto simp: reg_owns_def)
    show "\<forall>u. reg_owns s' u = (u = t \<or> reg_owns s u)" using r by (auto simp: reg_owns_def)
  qed simp
  show "Acquire n s = (None, s') \<Longrightarrow> reg_inv s' \<and> (\<forall>u. reg_owns s' u = reg_owns s u)"
    using inv by (simp add: lock_simps)
  show "reg_inv (Release (Some t) s) \<and>
      (\<forall>u. reg_owns (Release (Some t) s) u = (reg_owns s u \<and> u \<noteq> t))"
  proof (cases "reg_owns s t")
    case True
    then have "Release (Some t) s = s\<lparr>reg_running := (reg_running s)(tok_Name t := None)\<rparr>"
      by (simp add: Release_def reg_owns_def)
    moreover have "reg_inv (s\<lparr>reg_running := (reg_running s)(tok_Name t := None)\<rparr>)"
      using inv by (simp add: reg_inv_def)
    moreover have "reg_owns (s\<lparr>reg_running := (reg_running s)(tok_Name t := None)\<rparr>) u \<longleftrightarrow> reg_owns s u \<and> u \<noteq> t" for u
      using True by (cases "tok_Name u = tok_Name t") (auto simp: reg_owns_def)
    ultimately show ?thesis by simp
  next
    case False
    then have "Release (Some t) s = s" by (simp add: Release_def reg_owns_def)
    then show ?thesis using inv False by auto
  qed
  show "\<exists>t. fst (Acquire n s) = Some t" if free: "\<forall>u. reg_owns s u \<longrightarrow> tok_Name u \<noteq> n"
  proof (cases "reg_running s n")
    case None
    then show ?thesis by (simp add: Acquire_def Let_def)
  next
    case (Some u)
    with inv have "tok_Name u = n" by (simp add: reg_inv_def)
    with Some have "reg_owns s u" by (simp add: reg_owns_def)
    with free \<open>tok_Name u = n\<close> show ?thesis by blast
  qed
qed

interpretation reg: fresh_locker "\<lambda>(_ :: unit). Acquire" "\<lambda>_ t. Release (Some t)" tok_Name reg_owns reg_inv
  "\<lambda>_. True" "\<lambda>_ _. True" reg_used
proof unfold_locales
  fix s s' :: Registry and t :: Token and n r
  show "reg_inv s \<Longrightarrow> reg_owns s t \<Longrightarrow> reg_used s t"
    by (simp add: reg_inv_def reg_owns_def reg_used_def)
  show "Acquire n s = (Some t, s') \<Longrightarrow> \<not> reg_used s t"
    by (auto simp: lock_simps reg_used_def)
  show "Acquire n s = (r, s') \<Longrightarrow> reg_used s t \<or> r = Some t \<Longrightarrow> reg_used s' t"
    by (cases r) (auto simp: lock_simps reg_used_def)
next
  fix s :: Registry and t u :: Token
  show "reg_used s t \<Longrightarrow> reg_used (Release (Some u) s) t"
    by (simp add: Release_def reg_used_def)
qed

section \<open>Properties\<close>

type_synonym reg_op = "(unit, Token) lock_op"

abbreviation registry_run :: "reg_op list \<Rightarrow> Registry \<times> Token list" where
  "registry_run ops \<equiv> lock_run (\<lambda>_. Acquire) (\<lambda>_ t. Release (Some t)) ops (NewRegistry, [])"

lemma registry_ops_ok: "list_all (op_ok (\<lambda>_. True) (\<lambda>_ _. True)) (ops :: reg_op list)"
proof -
  have "op_ok (\<lambda>_. True) (\<lambda>_ _. True) op" for op :: reg_op by (cases op) auto
  then show ?thesis by (simp add: list_all_iff)
qed

lemma registry_start: "reg.run_inv (NewRegistry, [])"
  by (simp add: reg.run_inv_def reg_inv_New reg_owns_New)

text \<open>
  Whatever sequence of starts, finishes and stale releases the scheduler produces, the
  active runs of the in-process registry have pairwise different task names: at most one
  run per task is active at any time.
\<close>
theorem registry_mutual_exclusion: "distinct (map tok_Name (snd (registry_run ops)))"
  by (cases "registry_run ops")
    (auto intro: reg.one_active_per_name [OF registry_start] simp: registry_ops_ok)

text \<open>
  A token of a run that is no longer active never unlocks the current holder: after
  any sequence of operations, releasing a token that is not active leaves the registry as
  it is.
\<close>
theorem registry_stale_release:
  assumes "registry_run ops = (r, active)" and "t \<notin> set active"
  shows "Release (Some t) r = r"
proof -
  have "reg.run_inv (r, active)"
    using reg.run_inv_run [OF registry_ops_ok registry_start, of ops] assms(1) by simp
  with assms(2) show ?thesis by (simp add: reg.run_inv_def reg_owns_def Release_def)
qed

theorem registry_stale_release_witness:
  "\<exists>r t u. registry_run [Start () ''a'', Finish () \<lparr>tok_Name = ''a'', tok_Gen = 1, tok_addr = 0\<rparr>, Start () ''a''] =
      (r, [u]) \<and> tok_Name u = ''a'' \<and> t \<noteq> u \<and> tok_Name t = ''a'' \<and> Release (Some t) r = r"
proof -
  let ?t = "\<lparr>tok_Name = ''a'', tok_Gen = 1, tok_addr = 0\<rparr>"
  let ?ops = "[Start () ''a'', Finish () ?t, Start () ''a'']"
  let ?u = "\<lparr>tok_Name = ''a'', tok_Gen = 2, tok_addr = 1\<rparr>"
  obtain r active where run: "registry_run ?ops = (r, active)" by (cases "registry_run ?ops")
  then have "active = [?u]"
    by (simp add: lock_run_def Acquire_def Release_def NewRegistry_def Let_def)
  with run have run': "registry_run ?ops = (r, [?u])" by simp
  have "Release (Some ?t) r = r" by (rule registry_stale_release [OF run']) simp
  with run' show ?thesis by (intro exI [of _ r] exI [of _ ?t] exI [of _ ?u]) simp
qed

end
