(* ===== verification/Lease.thy ===== *)
theory Lease
  imports Registry
begin

text \<open>
  \<open>internal/lease/lease.go\<close>: the locker over a SQLite lease table shared by several
  instances. Time stamps are the strings the code writes, compared as strings; the facts
  about the layout come from theory Gotime. Each statement draws its outcome from the
  table's fault list (an empty list: no faults), a failed statement changes nothing.
\<close>

section \<open>State\<close>

record lease_row =
  lr_name :: string
  lr_owner :: string
  lr_acquired_at :: string
  lr_expires_at :: string

record LeaseTable =
  lt_rows :: "lease_row list"
  lt_faults :: "error option list"

record Lease =
  ls_ttl :: int        \<comment> \<open>nanoseconds\<close>
  ls_owner :: string

text \<open>\<open>New\<close>: opening the file and creating the table may fail; the owner is
  \<open>host:pid:random\<close>, of values the operating system provides.\<close>

definition lease_owner :: "string \<Rightarrow> int \<Rightarrow> string \<Rightarrow> string" where
  "lease_owner host pid rand = host @ '':'' @ itoa pid @ '':'' @ rand"

definition lease_fault :: "LeaseTable \<Rightarrow> error option \<times> LeaseTable" where
  "lease_fault T = (case lt_faults T of [] \<Rightarrow> (None, T) | f # fs \<Rightarrow> (f, T\<lparr>lt_faults := fs\<rparr>))"

definition NewLease ::
  "error option \<Rightarrow> error + string \<Rightarrow> string \<Rightarrow> int \<Rightarrow> int \<Rightarrow> LeaseTable \<Rightarrow> (error + Lease) \<times> LeaseTable" where
  "NewLease open_err rand host pid ttl T =
     (case open_err of
        Some e \<Rightarrow> (Inl e, T)
      | None \<Rightarrow>
          (case lease_fault T of
             (Some e, T) \<Rightarrow> (Inl (Wrapf ''lease: migrate: %w'' [] e), T)
           | (None, T) \<Rightarrow>
               (case rand of
                  Inl e \<Rightarrow> (Inl e, T)
                | Inr r \<Rightarrow> (Inr \<lparr>ls_ttl = ttl, ls_owner = lease_owner host pid r\<rparr>, T))))"

section \<open>Operations\<close>

definition evict :: "gotime \<Rightarrow> LeaseTable \<Rightarrow> LeaseTable" where
  "evict now T = T\<lparr>lt_rows := filter (\<lambda>r. \<not> lr_expires_at r < fmt_lease now) (lt_rows T)\<rparr>"

text \<open>\<open>INSERT OR IGNORE\<close> on the primary key \<open>name\<close>, with the number of rows affected.\<close>

definition insert_or_ignore :: "lease_row \<Rightarrow> LeaseTable \<Rightarrow> nat \<times> LeaseTable" where
  "insert_or_ignore row T =
     (if \<exists>r \<in> set (lt_rows T). lr_name r = lr_name row then (0, T)
      else (1, T\<lparr>lt_rows := lt_rows T @ [row]\<rparr>))"

text \<open>The third draw is the outcome of \<open>res.RowsAffected()\<close>: with it, the row stays.\<close>

definition LeaseAcquire :: "Lease \<Rightarrow> gotime \<Rightarrow> string \<Rightarrow> LeaseTable \<Rightarrow> Token option \<times> LeaseTable" where
  "LeaseAcquire l time_now name T =
     (let now = utc time_now in
      case lease_fault T of
        (Some _, T) \<Rightarrow> (None, T)
      | (None, T) \<Rightarrow>
          (case lease_fault (evict now T) of
             (Some _, T) \<Rightarrow> (None, T)
           | (None, T) \<Rightarrow>
               (case insert_or_ignore
                   \<lparr>lr_name = name, lr_owner = ls_owner l, lr_acquired_at = fmt_lease now,
                    lr_expires_at = fmt_lease (add_time now (ls_ttl l))\<rparr> T of
                  (n, T) \<Rightarrow>
                    (case lease_fault T of
                       (Some _, T) \<Rightarrow> (None, T)
                     | (None, T) \<Rightarrow>
                         if n \<noteq> 1 then (None, T)
                         else (Some \<lparr>tok_Name = name, tok_Gen = 0, tok_addr = 0\<rparr>, T)))))"

definition LeaseRelease :: "Lease \<Rightarrow> Token option \<Rightarrow> LeaseTable \<Rightarrow> LeaseTable" where
  "LeaseRelease l p T =
     (case p of
        None \<Rightarrow> T
      | Some t \<Rightarrow>
          (case lease_fault T of
             (Some _, T) \<Rightarrow> T
           | (None, T) \<Rightarrow>
               T\<lparr>lt_rows := filter (\<lambda>r. \<not> (lr_name r = tok_Name t \<and> lr_owner r = ls_owner l)) (lt_rows T)\<rparr>))"

definition LeaseRenew :: "Lease \<Rightarrow> gotime \<Rightarrow> Token option \<Rightarrow> LeaseTable \<Rightarrow> LeaseTable" where
  "LeaseRenew l time_now p T =
     (case p of
        None \<Rightarrow> T
      | Some t \<Rightarrow>
          (case lease_fault T of
             (Some _, T) \<Rightarrow> T
           | (None, T) \<Rightarrow>
               T\<lparr>lt_rows := map (\<lambda>r.
                  if lr_name r = tok_Name t \<and> lr_owner r = ls_owner l
                  then r\<lparr>lr_expires_at := fmt_lease (add_time (utc time_now) (ls_ttl l))\<rparr> else r) (lt_rows T)\<rparr>))"

section \<open>The table invariant\<close>

text \<open>The primary key: one row per task name.\<close>

definition table_ok :: "LeaseTable \<Rightarrow> bool" where
  "table_ok T \<longleftrightarrow> distinct (map lr_name (lt_rows T))"

lemma lease_fault_rows: "lease_fault T = (f, T') \<Longrightarrow> lt_rows T' = lt_rows T"
  by (auto simp: lease_fault_def split: list.splits)

lemma lease_fault_none: "lt_faults T = [] \<Longrightarrow> lease_fault T = (None, T)"
  by (simp add: lease_fault_def)

lemma evict_rows [simp]:
  "lt_rows (evict now T) = filter (\<lambda>r. \<not> lr_expires_at r < fmt_lease now) (lt_rows T)"
  "lt_faults (evict now T) = lt_faults T"
  by (simp_all add: evict_def)

lemma distinct_map_filter: "distinct (map f xs) \<Longrightarrow> distinct (map f (filter p xs))"
  by (induction xs) auto

definition new_row :: "Lease \<Rightarrow> gotime \<Rightarrow> string \<Rightarrow> lease_row" where
  "new_row l now name =
     \<lparr>lr_name = name, lr_owner = ls_owner l, lr_acquired_at = fmt_lease (utc now),
      lr_expires_at = fmt_lease (add_time (utc now) (ls_ttl l))\<rparr>"

definition live_rows :: "gotime \<Rightarrow> LeaseTable \<Rightarrow> lease_row list" where
  "live_rows now T = filter (\<lambda>r. \<not> lr_expires_at r < fmt_lease (utc now)) (lt_rows T)"

text \<open>The two outcomes of an acquire, as effects on the rows.\<close>

lemma LeaseAcquire_Some:
  assumes "LeaseAcquire l now n T = (Some t, T')"
  shows "tok_Name t = n" and "\<forall>r \<in> set (live_rows now T). lr_name r \<noteq> n"
    and "lt_rows T' = live_rows now T @ [new_row l now n]"
  using assms
  by (auto simp: LeaseAcquire_def Let_def insert_or_ignore_def live_rows_def new_row_def
      split: prod.splits option.splits if_splits dest!: lease_fault_rows)

lemma LeaseAcquire_None:
  assumes "LeaseAcquire l now n T = (None, T')"
  shows "lt_rows T' = lt_rows T \<or> lt_rows T' = live_rows now T \<or>
    (lt_rows T' = live_rows now T @ [new_row l now n] \<and> (\<forall>r \<in> set (live_rows now T). lr_name r \<noteq> n))"
  using assms
  by (auto simp: LeaseAcquire_def Let_def insert_or_ignore_def live_rows_def new_row_def
      split: prod.splits option.splits if_splits dest!: lease_fault_rows)

lemma LeaseAcquire_no_faults:
  assumes "lt_faults T = []"
  shows "LeaseAcquire l now n T =
    (if \<exists>r \<in> set (live_rows now T). lr_name r = n
     then (None, T\<lparr>lt_rows := live_rows now T\<rparr>)
     else (Some \<lparr>tok_Name = n, tok_Gen = 0, tok_addr = 0\<rparr>,
           T\<lparr>lt_rows := live_rows now T @ [new_row l now n]\<rparr>))"
proof -
  have f: "lease_fault T = (None, T)" "lease_fault (evict (utc now) T) = (None, evict (utc now) T)"
    using assms by (simp_all add: lease_fault_none)
  show ?thesis
    unfolding LeaseAcquire_def Let_def f prod.case option.case
    using assms by (auto simp: insert_or_ignore_def live_rows_def new_row_def evict_def lease_fault_none)
qed

lemma LeaseRelease_rows:
  "lt_rows (LeaseRelease l (Some t) T) = lt_rows T \<or>
   lt_rows (LeaseRelease l (Some t) T) =
     filter (\<lambda>r. \<not> (lr_name r = tok_Name t \<and> lr_owner r = ls_owner l)) (lt_rows T)"
  by (auto simp: LeaseRelease_def split: prod.splits option.splits dest!: lease_fault_rows)

lemma LeaseRenew_rows:
  "lt_rows (LeaseRenew l now (Some t) T) = lt_rows T \<or>
   lt_rows (LeaseRenew l now (Some t) T) =
     map (\<lambda>r. if lr_name r = tok_Name t \<and> lr_owner r = ls_owner l
               then r\<lparr>lr_expires_at := fmt_lease (add_time (utc now) (ls_ttl l))\<rparr> else r) (lt_rows T)"
  by (auto simp: LeaseRenew_def split: prod.splits option.splits dest!: lease_fault_rows)

lemma table_ok_ops:
  assumes "table_ok T"
  shows "LeaseAcquire l now n T = (r, T') \<Longrightarrow> table_ok T'"
    and "table_ok (LeaseRelease l p T)"
    and "table_ok (LeaseRenew l now p T)"
proof -
  have live: "distinct (map lr_name (live_rows now T))"
    using assms by (simp add: table_ok_def live_rows_def distinct_map_filter)
  show "table_ok T'" if "LeaseAcquire l now n T = (r, T')"
  proof (cases r)
    case None
    with that LeaseAcquire_None [of l now n T T'] live assms show ?thesis
      by (auto simp: table_ok_def new_row_def)
  next
    case (Some t)
    with that LeaseAcquire_Some [of l now n T t T'] live show ?thesis
      by (auto simp: table_ok_def new_row_def)
  qed
  show "table_ok (LeaseRelease l p T)"
    using LeaseRelease_rows [of l "the p" T] assms
    by (cases p) (auto simp: table_ok_def distinct_map_filter LeaseRelease_def)
  have names: "map lr_name (map (\<lambda>r. if P r then r\<lparr>lr_expires_at := e\<rparr> else r) rs) = map lr_name rs"
    for P e rs by simp
  show "table_ok (LeaseRenew l now p T)"
  proof (cases p)
    case None
    with assms show ?thesis by (simp add: LeaseRenew_def)
  next
    case (Some t)
    from LeaseRenew_rows [of l now t T] show ?thesis
      using assms unfolding Some table_ok_def by (elim disjE) (simp_all only: names)
  qed
qed

section \<open>The lease table is a locker\<close>

text \<open>
  At a fixed time and without statement faults. A token of the contract is the pair of the
  instance's owner string and the task name: the lease is in force when such a row has not
  expired. An instance is sensibly configured when its TTL is not negative and the time
  stamps stay within four-digit years (the command line does not check the TTL).
\<close>

definition lease_owns :: "gotime \<Rightarrow> LeaseTable \<Rightarrow> string \<times> string \<Rightarrow> bool" where
  "lease_owns now T = (\<lambda>(own, n). \<exists>r \<in> set (live_rows now T). lr_name r = n \<and> lr_owner r = own)"

definition lease_client :: "gotime \<Rightarrow> Lease \<Rightarrow> bool" where
  "lease_client now l \<longleftrightarrow>
     0 \<le> ls_ttl l \<and> year_ok (utc now) \<and> year_ok (add_time (utc now) (ls_ttl l))"

definition lease_inv :: "LeaseTable \<Rightarrow> bool" where
  "lease_inv T \<longleftrightarrow> table_ok T \<and> lt_faults T = []"

definition lease_acquire :: "gotime \<Rightarrow> Lease \<Rightarrow> string \<Rightarrow> LeaseTable \<Rightarrow> (string \<times> string) option \<times> LeaseTable" where
  "lease_acquire now l n T = apfst (map_option (\<lambda>t. (ls_owner l, tok_Name t))) (LeaseAcquire l now n T)"

definition lease_release :: "Lease \<Rightarrow> string \<times> string \<Rightarrow> LeaseTable \<Rightarrow> LeaseTable" where
  "lease_release l t T = LeaseRelease l (Some \<lparr>tok_Name = snd t, tok_Gen = 0, tok_addr = 0\<rparr>) T"

lemma expiry_not_past:
  assumes "year_ok (utc t)" "year_ok (utc now)"
  shows "fmt_lease (utc t) < fmt_lease (utc now) \<longleftrightarrow> inst t < inst now"
  using fmt_lease_less_iff [OF assms] by (simp add: utc_def)

lemma add_time_utc: "add_time (utc t) d = utc (GoTime (inst t + d) 0)"
  by (simp add: add_time_def utc_def)

lemma new_row_live: "lease_client now l \<Longrightarrow> \<not> lr_expires_at (new_row l now n) < fmt_lease (utc now)"
  using expiry_not_past [of "GoTime (inst now + ls_ttl l) 0" now]
  by (simp add: lease_client_def new_row_def add_time_utc)

lemma live_rows_twice [simp]: "filter (\<lambda>r. \<not> lr_expires_at r < fmt_lease (utc now)) (live_rows now T) = live_rows now T"
  by (simp add: live_rows_def)

interpretation lease: live_locker "lease_acquire now" lease_release snd "lease_owns now" lease_inv
  "lease_client now" "\<lambda>l t. fst t = ls_owner l" for now
proof unfold_locales
  fix T T' :: LeaseTable and t u :: "string \<times> string" and l n
  assume inv: "lease_inv T"
  then have nf: "lt_faults T = []" and ok: "table_ok T" by (simp_all add: lease_inv_def)
  have live: "distinct (map lr_name (live_rows now T))"
    using ok by (simp add: table_ok_def live_rows_def distinct_map_filter)
  show "lease_owns now T t \<Longrightarrow> lease_owns now T u \<Longrightarrow> snd t = snd u \<Longrightarrow> t = u"
    using live by (auto simp: lease_owns_def distinct_map inj_on_def split: prod.splits)
  show "lease_inv T' \<and> snd t = n \<and> fst t = ls_owner l \<and> (\<forall>u. lease_owns now T u \<longrightarrow> snd u \<noteq> n) \<and>
      (\<forall>u. lease_owns now T' u = (u = t \<or> lease_owns now T u))"
    if c: "lease_client now l" and a: "lease_acquire now l n T = (Some t, T')"
  proof -
    have t: "t = (ls_owner l, n)" and free: "\<forall>r \<in> set (live_rows now T). lr_name r \<noteq> n"
      and T': "T' = T\<lparr>lt_rows := live_rows now T @ [new_row l now n]\<rparr>"
      using a by (auto simp: lease_acquire_def LeaseAcquire_no_faults [OF nf] split: if_splits)
    have live': "live_rows now T' = live_rows now T @ [new_row l now n]"
      using new_row_live [OF c] by (simp add: T' live_rows_def)
    have "table_ok T'" using live free by (auto simp: T' table_ok_def new_row_def)
    with nf have "lease_inv T'" by (simp add: lease_inv_def T')
    moreover have "lease_owns now T' u = (u = t \<or> lease_owns now T u)" for u
      by (auto simp: lease_owns_def live' t new_row_def split: prod.splits)
    ultimately show ?thesis using free by (auto simp: t lease_owns_def split: prod.splits)
  qed
  show "lease_inv T' \<and> (\<forall>u. lease_owns now T' u = lease_owns now T u)"
    if a: "lease_acquire now l n T = (None, T')"
  proof -
    have T': "T' = T\<lparr>lt_rows := live_rows now T\<rparr>"
      using a by (auto simp: lease_acquire_def LeaseAcquire_no_faults [OF nf] split: if_splits)
    then have "live_rows now T' = live_rows now T" by (simp add: live_rows_def)
    with live nf show ?thesis by (auto simp: T' lease_inv_def table_ok_def lease_owns_def)
  qed
  show "lease_inv (lease_release l t T) \<and>
      (\<forall>u. lease_owns now (lease_release l t T) u = (lease_owns now T u \<and> u \<noteq> t))"
    if i: "fst t = ls_owner l"
  proof -
    obtain m where t: "t = (ls_owner l, m)" using i by (cases t) auto
    have R: "lease_release l (ls_owner l, m) T =
        T\<lparr>lt_rows := filter (\<lambda>r. \<not> (lr_name r = m \<and> lr_owner r = ls_owner l)) (lt_rows T)\<rparr>"
      by (simp add: lease_release_def LeaseRelease_def lease_fault_none [OF nf])
    have "table_ok (lease_release l t T)" using ok by (simp add: R t table_ok_def distinct_map_filter)
    moreover have "lease_owns now (lease_release l t T) u = (lease_owns now T u \<and> u \<noteq> t)" for u
      by (cases u) (auto simp: R t lease_owns_def live_rows_def)
    ultimately show ?thesis using nf by (auto simp: R t lease_inv_def)
  qed
  show "\<exists>t. fst (lease_acquire now l n T) = Some t" if "\<forall>u. lease_owns now T u \<longrightarrow> snd u \<noteq> n"
  proof -
    have "\<forall>r \<in> set (live_rows now T). lr_name r \<noteq> n"
      using that by (auto simp: lease_owns_def split: prod.splits)
    then show ?thesis by (auto simp: lease_acquire_def LeaseAcquire_no_faults [OF nf])
  qed
qed

section \<open>Interleavings of several instances\<close>

datatype lease_op = LAcquire Lease gotime string | LRelease Lease Token | LRenew Lease gotime Token

fun lease_step :: "lease_op \<Rightarrow> LeaseTable \<Rightarrow> LeaseTable" where
  "lease_step (LAcquire l now n) T = snd (LeaseAcquire l now n T)"
| "lease_step (LRelease l t) T = LeaseRelease l (Some t) T"
| "lease_step (LRenew l now t) T = LeaseRenew l now (Some t) T"

definition lease_run :: "lease_op list \<Rightarrow> LeaseTable \<Rightarrow> LeaseTable" where
  "lease_run ops = fold lease_step ops"

text \<open>An operation of another instance, made while a row that expires at \<open>e\<close> has not.\<close>

fun op_before :: "string \<Rightarrow> gotime \<Rightarrow> lease_op \<Rightarrow> bool" where
  "op_before own e (LAcquire l now n) = (ls_owner l \<noteq> own \<and> year_ok (utc now) \<and> now \<le> e)"
| "op_before own e (LRelease l t) = (ls_owner l \<noteq> own)"
| "op_before own e (LRenew l now t) = (ls_owner l \<noteq> own)"

lemma live_row_kept:
  assumes "r \<in> set (lt_rows T)" "lr_expires_at r = fmt_lease (utc e)" "year_ok (utc e)" "year_ok (utc now)" "now \<le> e"
  shows "r \<in> set (live_rows now T)"
  using assms by (simp add: live_rows_def expiry_not_past less_eq_gotime_def)

lemma lease_step_keeps:
  assumes r: "r \<in> set (lt_rows T)" "lr_owner r = own" "lr_expires_at r = fmt_lease (utc e)" "year_ok (utc e)"
    and op: "op_before own e op"
  shows "r \<in> set (lt_rows (lease_step op T))"
proof (cases op)
  case (LAcquire l now n)
  obtain p T' where a: "LeaseAcquire l now n T = (p, T')" by (cases "LeaseAcquire l now n T")
  have "r \<in> set (live_rows now T)"
    using live_row_kept [OF r(1,3,4), of now] op LAcquire by simp
  then show ?thesis
    using LeaseAcquire_None [of l now n T T'] LeaseAcquire_Some(3) [of l now n T "the p" T'] a r(1) LAcquire
    by (cases p) auto
next
  case (LRelease l t)
  then show ?thesis using LeaseRelease_rows [of l t T] r op by auto
next
  case (LRenew l now t)
  then show ?thesis using LeaseRenew_rows [of l now t T] r op by force
qed

lemma lease_run_keeps:
  assumes "r \<in> set (lt_rows T)" "lr_owner r = own" "lr_expires_at r = fmt_lease (utc e)" "year_ok (utc e)"
    and "list_all (op_before own e) ops"
  shows "r \<in> set (lt_rows (lease_run ops T))"
  using assms(1,5)
proof (induction ops arbitrary: T)
  case (Cons op ops)
  then have "r \<in> set (lt_rows (lease_step op T))"
    using lease_step_keeps [OF _ assms(2-4)] by simp
  with Cons show ?case by (simp add: lease_run_def)
qed (simp add: lease_run_def)

lemma held_refused:
  assumes "r \<in> set (live_rows now T)" "lr_name r = n"
  shows "fst (LeaseAcquire l now n T) = None"
proof (cases "LeaseAcquire l now n T")
  case (Pair p T')
  with LeaseAcquire_Some(2) [of l now n T _ T'] assms show ?thesis by (cases p) auto
qed

section \<open>Properties\<close>

text \<open>
  The expiry test of the table, a comparison of two formatted strings, decides the
  order of the instants: within the years 0 to 9999 the lease layout is strictly monotone.
\<close>
theorem lease_expiry_order:
  assumes "year_ok (utc t)" and "year_ok (utc now)"
  shows "fmt_lease (utc t) < fmt_lease (utc now) \<longleftrightarrow> inst t < inst now"
  using assms by (rule expiry_not_past)

text \<open>2026-01-01T00:00:00Z and one nanosecond later.\<close>

lemma year_2026: "year_ok (utc (GoTime 1767225600000000000 0))" "year_ok (utc (GoTime 1767225600000000001 0))"
  by code_simp+

theorem lease_expiry_order_witness:
  "fmt_lease (utc (GoTime 1767225600000000000 0)) < fmt_lease (utc (GoTime 1767225600000000001 0)) \<longleftrightarrow>
   inst (GoTime 1767225600000000000 0) < inst (GoTime 1767225600000000001 0)"
  by (rule lease_expiry_order [OF year_2026])

text \<open>
  Once an instance holds a lease, no other instance gets it before the TTL has run
  out: whatever acquires, releases and renewals the other instances perform up to the
  expiry, with whatever statement faults, their acquire of the task is refused.
\<close>
theorem lease_protected_until_expiry:
  assumes acq: "LeaseAcquire a t0 n T = (Some tok, T1)"
    and e: "e = add_time (utc t0) (ls_ttl a)" "year_ok e"
    and ops: "list_all (op_before (ls_owner a) e) ops"
    and b: "op_before (ls_owner a) e (LAcquire b t n)"
  shows "fst (LeaseAcquire b t n (lease_run ops T1)) = None"
proof -
  have ee: "utc e = e" by (simp add: e(1) add_time_def utc_def)
  have "new_row a t0 n \<in> set (lt_rows T1)" using LeaseAcquire_Some(3) [OF acq] by simp
  then have "new_row a t0 n \<in> set (lt_rows (lease_run ops T1))"
    by (rule lease_run_keeps [OF _ _ _ _ ops]) (simp_all add: new_row_def ee e flip: e(1))
  then have "new_row a t0 n \<in> set (live_rows t (lease_run ops T1))"
    by (rule live_row_kept [where e = e]) (use b e ee in \<open>simp_all add: new_row_def\<close>)
  then show ?thesis by (rule held_refused) (simp add: new_row_def)
qed

abbreviation inst_a :: Lease where "inst_a \<equiv> \<lparr>ls_ttl = 1000000000, ls_owner = ''h:1:a''\<rparr>"
abbreviation inst_b :: Lease where "inst_b \<equiv> \<lparr>ls_ttl = 1000000000, ls_owner = ''h:2:b''\<rparr>"
abbreviation t_2026 :: gotime where "t_2026 \<equiv> GoTime 1767225600000000000 0"
abbreviation empty_table :: LeaseTable where "empty_table \<equiv> \<lparr>lt_rows = [], lt_faults = []\<rparr>"

lemma acquire_empty:
  "LeaseAcquire inst_a t_2026 ''x'' empty_table =
    (Some \<lparr>tok_Name = ''x'', tok_Gen = 0, tok_addr = 0\<rparr>,
     \<lparr>lt_rows = [new_row inst_a t_2026 ''x''], lt_faults = []\<rparr>)"
  by (simp add: LeaseAcquire_no_faults live_rows_def)

theorem lease_protected_until_expiry_witness:
  "fst (LeaseAcquire inst_b (GoTime 1767225600500000000 0) ''x''
     (lease_run [LAcquire inst_b t_2026 ''x'', LRelease inst_b \<lparr>tok_Name = ''x'', tok_Gen = 0, tok_addr = 0\<rparr>]
       \<lparr>lt_rows = [new_row inst_a t_2026 ''x''], lt_faults = []\<rparr>)) = None"
proof (rule lease_protected_until_expiry [OF acquire_empty refl])
  show "year_ok (add_time (utc t_2026) (ls_ttl inst_a))" by code_simp
  have "year_ok (utc t_2026)" "year_ok (utc (GoTime 1767225600500000000 0))" by code_simp+
  then show "list_all (op_before (ls_owner inst_a) (add_time (utc t_2026) (ls_ttl inst_a)))
      [LAcquire inst_b t_2026 ''x'', LRelease inst_b \<lparr>tok_Name = ''x'', tok_Gen = 0, tok_addr = 0\<rparr>]"
    and "op_before (ls_owner inst_a) (add_time (utc t_2026) (ls_ttl inst_a))
      (LAcquire inst_b (GoTime 1767225600500000000 0) ''x'')"
    by (simp_all add: less_eq_gotime_def add_time_def utc_def)
qed

text \<open>
  A crashed instance blocks a task only until its TTL has run out: when no row of the
  task has an expiry at or after the current time, an acquire by any instance succeeds.
\<close>
theorem lease_expired_is_free:
  assumes "lt_faults T = []"
    and "\<forall>r \<in> set (lt_rows T). lr_name r = n \<longrightarrow>
      (\<exists>e. lr_expires_at r = fmt_lease (utc e) \<and> year_ok (utc e) \<and> e < now)"
    and "year_ok (utc now)"
  shows "\<exists>t T'. LeaseAcquire l now n T = (Some t, T') \<and> new_row l now n \<in> set (lt_rows T')"
proof -
  have "\<forall>r \<in> set (live_rows now T). lr_name r \<noteq> n"
    using assms(2,3) by (auto simp: live_rows_def expiry_not_past less_gotime_def)
  then show ?thesis by (auto simp: LeaseAcquire_no_faults [OF assms(1)])
qed

theorem lease_expired_is_free_witness:
  "\<exists>t T'. LeaseAcquire inst_b (GoTime 1767225601000000001 0) ''x''
      \<lparr>lt_rows = [new_row inst_a t_2026 ''x''], lt_faults = []\<rparr> = (Some t, T') \<and>
    new_row inst_b (GoTime 1767225601000000001 0) ''x'' \<in> set (lt_rows T')"
proof (rule lease_expired_is_free)
  have y: "year_ok (utc (GoTime 1767225601000000000 0))" "year_ok (utc (GoTime 1767225601000000001 0))"
    by code_simp+
  then show "year_ok (utc (GoTime 1767225601000000001 0))" by simp
  show "\<forall>r \<in> set (lt_rows \<lparr>lt_rows = [new_row inst_a t_2026 ''x''], lt_faults = []\<rparr>). lr_name r = ''x'' \<longrightarrow>
      (\<exists>e. lr_expires_at r = fmt_lease (utc e) \<and> year_ok (utc e) \<and> e < GoTime 1767225601000000001 0)"
    using y by (auto simp: new_row_def add_time_def utc_def less_gotime_def
        intro!: exI [of _ "GoTime 1767225601000000000 0"])
qed simp

text \<open>
  C40: within one instance the release is by name, not by token: when an instance's lease
  expired and it acquired the task again, the late release of the first token frees the
  second run's lease, and any instance can acquire the task at once. (The in-process
  registry refuses such a release.)
\<close>
theorem lease_stale_release_frees:
  assumes nf: "lt_faults T2 = []" and ok: "table_ok T2"
    and second: "LeaseAcquire a t1 n T1 = (Some tok2, T2)"
    and first: "LeaseAcquire a t0 n T0 = (Some tok1, T0')"
  shows "\<exists>tok T'. LeaseAcquire b t n (LeaseRelease a (Some tok1) T2) = (Some tok, T')"
proof -
  have n: "tok_Name tok1 = n" using LeaseAcquire_Some(1) [OF first] .
  have rel: "LeaseRelease a (Some tok1) T2 =
      T2\<lparr>lt_rows := filter (\<lambda>r. \<not> (lr_name r = n \<and> lr_owner r = ls_owner a)) (lt_rows T2)\<rparr>"
    by (simp add: LeaseRelease_def lease_fault_none [OF nf] n)
  have "new_row a t1 n \<in> set (lt_rows T2)" using LeaseAcquire_Some(3) [OF second] by simp
  then have "lr_owner r = ls_owner a" if "r \<in> set (lt_rows T2)" "lr_name r = n" for r
  proof -
    have "inj_on lr_name (set (lt_rows T2))" using ok by (simp add: table_ok_def distinct_map)
    moreover have "lr_name r = lr_name (new_row a t1 n)" using that by (simp add: new_row_def)
    ultimately have "r = new_row a t1 n"
      using \<open>new_row a t1 n \<in> set (lt_rows T2)\<close> that(1) by (meson inj_onD)
    then show ?thesis by (simp add: new_row_def)
  qed
  then have free: "\<not> (\<exists>r \<in> set (live_rows t (LeaseRelease a (Some tok1) T2)). lr_name r = n)"
    by (simp add: rel live_rows_def) blast
  have "lt_faults (LeaseRelease a (Some tok1) T2) = []" using nf by (simp add: rel)
  from LeaseAcquire_no_faults [OF this, of b t n] free show ?thesis by (simp only: if_False) blast
qed

theorem lease_stale_release_frees_witness:
  "\<exists>tok T'. LeaseAcquire inst_b (GoTime 1767225602000000000 0) ''x''
     (LeaseRelease inst_a (Some \<lparr>tok_Name = ''x'', tok_Gen = 0, tok_addr = 0\<rparr>)
       \<lparr>lt_rows = [new_row inst_a (GoTime 1767225602000000000 0) ''x''], lt_faults = []\<rparr>) = (Some tok, T')"
proof (rule lease_stale_release_frees [OF _ _ _ acquire_empty])
  have y: "year_ok (utc (GoTime 1767225601000000000 0))" "year_ok (utc (GoTime 1767225602000000000 0))"
    by code_simp+
  then have "live_rows (GoTime 1767225602000000000 0)
      \<lparr>lt_rows = [new_row inst_a t_2026 ''x''], lt_faults = []\<rparr> = []"
    using expiry_not_past [OF y]
    by (simp add: live_rows_def new_row_def add_time_def utc_def)
  then show "LeaseAcquire inst_a (GoTime 1767225602000000000 0) ''x''
      \<lparr>lt_rows = [new_row inst_a t_2026 ''x''], lt_faults = []\<rparr> =
    (Some \<lparr>tok_Name = ''x'', tok_Gen = 0, tok_addr = 0\<rparr>,
     \<lparr>lt_rows = [new_row inst_a (GoTime 1767225602000000000 0) ''x''], lt_faults = []\<rparr>)"
    by (simp add: LeaseAcquire_no_faults)
qed (simp_all add: table_ok_def)

end
