(* ===== verification/Engine.thy ===== *)
theory Engine
  imports Watermark Config Bulk Lease
begin

text \<open>
  \<open>internal/engine/engine.go\<close>: one execution of a task, from the lock to the final record.

  The interfaces the engine calls (locker, source, target) are records of operations, as in
  the code, with \<open>'w\<close> the databases' world; the run log is the store of theory Runlog. The
  clock is a stream of times, read one by one. The log lines of \<open>slog\<close> are left out: nothing
  reads them. \<open>None\<close> as a result means that the call does not return: a loop that never
  ends, or a panic (a slice expression out of range, a page that cannot be allocated).
\<close>

section \<open>Interfaces\<close>

record ('t, 'l) Locker =
  lk_Acquire :: "gotime \<Rightarrow> string \<Rightarrow> 'l \<Rightarrow> 't option \<times> 'l"
  lk_Release :: "'t \<Rightarrow> 'l \<Rightarrow> 'l"
  lk_Renew :: "(gotime \<Rightarrow> 't \<Rightarrow> 'l \<Rightarrow> 'l) option"    \<comment> \<open>the optional \<open>Renewer\<close>\<close>

record ('s, 'w) SourceConn =
  src_Stream :: "string \<Rightarrow> int \<Rightarrow> ('s \<times> 'w) page_fn \<Rightarrow> 's \<times> 'w \<Rightarrow> (int \<times> error option \<times> 's \<times> 'w) option"
  src_Close :: "'w \<Rightarrow> error option \<times> 'w"

record 'w TargetConn =
  tgt_UpsertRows :: "string \<Rightarrow> string list \<Rightarrow> string list \<Rightarrow> row list \<Rightarrow> 'w \<Rightarrow> (error + int) \<times> 'w"
  tgt_InsertRows :: "string \<Rightarrow> string list \<Rightarrow> row list \<Rightarrow> 'w \<Rightarrow> (error + int) \<times> 'w"
  tgt_BulkLoad :: "(string \<Rightarrow> string list \<Rightarrow> string list \<Rightarrow> row list \<Rightarrow> 'w \<Rightarrow> (error + int) \<times> 'w) option"
    \<comment> \<open>the optional \<open>BulkLoader\<close>\<close>
  tgt_Close :: "'w \<Rightarrow> error option \<times> 'w"

text \<open>An observation handed to \<open>Metrics.ObserveRun\<close>.\<close>

record observation =
  ob_task :: string
  ob_status :: RunStatus
  ob_ok :: int
  ob_fail :: int
  ob_duration :: int

text \<open>
  What the engine works on beside the databases: the locker's state, the run log, the
  observations made, the clock readings so far. The history \<open>es_trace\<close> is no state of the
  program: each call that could change the lock or the log leaves there what it became
  (\<open>Inl\<close> the lock, \<open>Inr\<close> the log), oldest first, so that the order of these calls can be
  spoken about. Nothing reads it.
\<close>

record 'l EngineState =
  es_lock :: 'l
  es_runs :: Store
  es_met :: "observation list"
  es_ticks :: nat
  es_trace :: "('l + Store) list"

definition set_lock :: "'l \<Rightarrow> 'l EngineState \<Rightarrow> 'l EngineState" where
  "set_lock l e = e\<lparr>es_lock := l, es_trace := es_trace e @ [Inl l]\<rparr>"

definition set_runs :: "Store \<Rightarrow> 'l EngineState \<Rightarrow> 'l EngineState" where
  "set_runs S e = e\<lparr>es_runs := S, es_trace := es_trace e @ [Inr S]\<rparr>"

lemma set_lock_simps [simp]:
  "es_lock (set_lock l e) = l" "es_runs (set_lock l e) = es_runs e" "es_met (set_lock l e) = es_met e"
  "es_ticks (set_lock l e) = es_ticks e" "es_trace (set_lock l e) = es_trace e @ [Inl l]"
  by (simp_all add: set_lock_def)

lemma set_runs_simps [simp]:
  "es_lock (set_runs S e) = es_lock e" "es_runs (set_runs S e) = S" "es_met (set_runs S e) = es_met e"
  "es_ticks (set_runs S e) = es_ticks e" "es_trace (set_runs S e) = es_trace e @ [Inr S]"
  by (simp_all add: set_runs_def)

text \<open>The variables shared by \<open>RunTask\<close> and its page callback.\<close>

record 'l PageState =
  ps_es :: "'l EngineState"
  ps_res :: RunResult
  ps_keysChecked :: bool
  ps_totalSeen :: int
  ps_wm :: "watermarkTracker option"

record ('t, 'l, 'w) Engine =
  en_Reg :: "('t, 'l) Locker"
  en_OpenSource :: "string \<Rightarrow> string \<Rightarrow> 'w \<Rightarrow> (error + ('l PageState, 'w) SourceConn) \<times> 'w"
  en_OpenTarget :: "string \<Rightarrow> string \<Rightarrow> 'w \<Rightarrow> (error + 'w TargetConn) \<times> 'w"
  en_clock :: "nat \<Rightarrow> gotime"
  en_float :: float_text

definition time_Now :: "(nat \<Rightarrow> gotime) \<Rightarrow> 'l EngineState \<Rightarrow> gotime \<times> 'l EngineState" where
  "time_Now clk e = (clk (es_ticks e), e\<lparr>es_ticks := es_ticks e + 1\<rparr>)"

definition ObserveRun :: "string \<Rightarrow> RunStatus \<Rightarrow> int \<Rightarrow> int \<Rightarrow> int \<Rightarrow> 'l EngineState \<Rightarrow> 'l EngineState" where
  "ObserveRun task st ok fail d e =
     e\<lparr>es_met := es_met e @ [\<lparr>ob_task = task, ob_status = st, ob_ok = ok, ob_fail = fail, ob_duration = d\<rparr>]\<rparr>"

section \<open>Batches\<close>

definition maxSamples :: nat where "maxSamples = 20"

definition sortedCols :: "row \<Rightarrow> string list" where
  "sortedCols r = sort (map fst r)"

definition clampBatch :: "int \<Rightarrow> int \<Rightarrow> int" where
  "clampBatch batch cols =
     (if cols \<le> 0 then 1
      else let m = 2000 div cols in if m < batch then max m 1 else batch)"

definition writeChunk ::
  "'w TargetConn \<Rightarrow> Task \<Rightarrow> string list \<Rightarrow> row list \<Rightarrow> 'w \<Rightarrow> (error + int) \<times> 'w" where
  "writeChunk tgt t cols chunk w =
     (if tg_Mode (tk_Target t) = ''insert'' then tgt_InsertRows tgt (tg_Table (tk_Target t)) cols chunk w
      else tgt_UpsertRows tgt (tg_Table (tk_Target t)) (tg_Keys (tk_Target t)) cols chunk w)"

text \<open>The row-by-row fallback.\<close>

fun write_rows ::
  "'w TargetConn \<Rightarrow> Task \<Rightarrow> string list \<Rightarrow> row list \<Rightarrow> RunResult \<times> 'w \<Rightarrow> RunResult \<times> 'w" where
  "write_rows tgt t cols [] s = s"
| "write_rows tgt t cols (r # rs) (res, w) =
     (case writeChunk tgt t cols [r] w of
        (Inl e, w) \<Rightarrow>
          write_rows tgt t cols rs
            (let res = res\<lparr>rr_FailRows := rr_FailRows res + 1\<rparr>
             in if length (rr_Samples res) < maxSamples then res\<lparr>rr_Samples := rr_Samples res @ [e]\<rparr> else res, w)
      | (Inr _, w) \<Rightarrow> write_rows tgt t cols rs (res\<lparr>rr_OKRows := rr_OKRows res + 1\<rparr>, w))"

definition write_regular ::
  "'w TargetConn \<Rightarrow> Task \<Rightarrow> string list \<Rightarrow> row list \<Rightarrow> RunResult \<times> 'w \<Rightarrow> RunResult \<times> 'w" where
  "write_regular tgt t cols chunk s =
     (case s of (res, w) \<Rightarrow>
        (case writeChunk tgt t cols chunk w of
           (Inl e, w) \<Rightarrow> write_rows tgt t cols chunk (res, w)
         | (Inr n, w) \<Rightarrow> (res\<lparr>rr_OKRows := rr_OKRows res + n\<rparr>, w)))"

text \<open>One iteration of the batch loop: the bulk path when the task asks for it and the target
  has one, with any of its errors leading to the regular write.\<close>

definition write_batch ::
  "'w TargetConn \<Rightarrow> Task \<Rightarrow> string list \<Rightarrow> row list \<Rightarrow> RunResult \<times> 'w \<Rightarrow> RunResult \<times> 'w" where
  "write_batch tgt t cols chunk s =
     (case (if tg_Bulk (tk_Target t) then tgt_BulkLoad tgt else None) of
        None \<Rightarrow> write_regular tgt t cols chunk s
      | Some bulk \<Rightarrow>
          (case s of (res, w) \<Rightarrow>
             (case bulk (tg_Table (tk_Target t)) (tg_Keys (tk_Target t)) cols chunk w of
                (Inr n, w) \<Rightarrow> (res\<lparr>rr_OKRows := rr_OKRows res + n\<rparr>, w)
              | (Inl e, w) \<Rightarrow> write_regular tgt t cols chunk (res, w))))"

text \<open>The batch loop: \<open>page[off:end]\<close> panics when \<open>end\<close> is before \<open>off\<close>.\<close>

partial_function (option) batch_loop ::
  "'w TargetConn \<Rightarrow> Task \<Rightarrow> string list \<Rightarrow> int \<Rightarrow> row list \<Rightarrow> int \<Rightarrow> RunResult \<times> 'w \<Rightarrow> (RunResult \<times> 'w) option" where
  "batch_loop tgt t cols batch page off s =
     (if off < int (length page) then
        (let end = min (off + batch) (int (length page))
         in if end < off then None
            else batch_loop tgt t cols batch page end
              (write_batch tgt t cols (take (nat (end - off)) (drop (nat off) page)) s))
      else Some s)"

section \<open>Pages\<close>

fun first_missing :: "string list \<Rightarrow> row \<Rightarrow> string option" where
  "first_missing [] r = None"
| "first_missing (k # ks) r = (if row_has r k then first_missing ks r else Some k)"

definition check_keys :: "Task \<Rightarrow> string list \<Rightarrow> row \<Rightarrow> error option" where
  "check_keys t cols r =
     (case first_missing (tg_Keys (tk_Target t)) r of
        Some k \<Rightarrow> Some (Errorf ''upsert key %q missing from source columns %v'' [AStr k, AStrs cols])
      | None \<Rightarrow>
          (case tk_Incremental t of
             Some inc \<Rightarrow>
               if row_has r (inc_Column inc) then None
               else Some (Errorf ''incremental.column %q missing from source columns %v'' [AStr (inc_Column inc), AStrs cols])
           | None \<Rightarrow> None))"

fun check_widths :: "nat \<Rightarrow> nat \<Rightarrow> row list \<Rightarrow> error option" where
  "check_widths i n [] = None"
| "check_widths i n (r # rs) =
     (if length r \<noteq> n
      then Some (Errorf ''row %d has %d columns, expected %d: heterogeneous result sets are unsupported''
        [AInt (int i), AInt (int (length r)), AInt (int n)])
      else check_widths (i + 1) n rs)"

text \<open>The end of a page: renewal of an expiring lease and the progress event.\<close>

definition page_done ::
  "('t, 'l, 'w) Engine \<Rightarrow> 't \<Rightarrow> int \<Rightarrow> int \<Rightarrow> RunResult \<Rightarrow> 'l EngineState \<Rightarrow> 'l EngineState" where
  "page_done E tok runID seen res e =
     (let e = (case lk_Renew (en_Reg E) of
                 None \<Rightarrow> e
               | Some renew \<Rightarrow>
                   (case time_Now (en_clock E) e of
                      (now, e) \<Rightarrow> set_lock (renew now tok (es_lock e)) e))
      in if 0 < runID then
           (case time_Now (en_clock E) e of
              (now, e) \<Rightarrow>
                set_runs (snd (Event now runID ''progress''
                  (PProgress seen (rr_OKRows res) (rr_FailRows res)) (es_runs e))) e)
         else e)"

definition observe_page :: "watermarkTracker option \<Rightarrow> row list \<Rightarrow> error option \<times> watermarkTracker option" where
  "observe_page wm page =
     (case wm of
        None \<Rightarrow> (None, None)
      | Some w \<Rightarrow>
          (case observe page w of
             (Some e, w') \<Rightarrow> (Some (Wrapf ''watermark column %q: %w'' [AStr (wt_column w)] e), Some w')
           | (None, w') \<Rightarrow> (None, Some w')))"

text \<open>The callback given to \<open>Stream\<close>.\<close>

definition page_step ::
  "('t, 'l, 'w) Engine \<Rightarrow> 'w TargetConn \<Rightarrow> Task \<Rightarrow> 't \<Rightarrow> int \<Rightarrow> ('l PageState \<times> 'w) page_fn" where
  "page_step E tgt t tok runID page s =
     (case s of (p, w) \<Rightarrow>
        if page = [] then Some (None, p, w)
        else
          let cols = sortedCols (hd page) in
          case ValidateColumns cols of
            Some e \<Rightarrow> Some (Some (Wrapf ''source column names rejected: %w'' [] e), p, w)
          | None \<Rightarrow>
              (case (if ps_keysChecked p then None else check_keys t cols (hd page)) of
                 Some e \<Rightarrow> Some (Some e, p, w)
               | None \<Rightarrow>
                   let p = p\<lparr>ps_keysChecked := True\<rparr> in
                   case check_widths 0 (length cols) page of
                     Some e \<Rightarrow> Some (Some e, p, w)
                   | None \<Rightarrow>
                       (case observe_page (ps_wm p) page of
                          (Some e, wm) \<Rightarrow> Some (Some e, p\<lparr>ps_wm := wm\<rparr>, w)
                        | (None, wm) \<Rightarrow>
                            (case batch_loop tgt t cols (clampBatch (tg_BatchSize (tk_Target t)) (int (length cols)))
                               page 0 (ps_res p, w) of
                               None \<Rightarrow> None
                             | Some (res, w) \<Rightarrow>
                                 let seen = ps_totalSeen p + int (length page)
                                 in Some (None, p\<lparr>ps_res := res, ps_wm := wm, ps_totalSeen := seen,
                                      ps_es := page_done E tok runID seen res (ps_es p)\<rparr>, w)))))"

section \<open>RunTask\<close>

text \<open>The query with the watermark substituted and the fresh tracker, or the error text.\<close>

definition prepare_query ::
  "float_text \<Rightarrow> Task \<Rightarrow> Store \<Rightarrow> (error + string \<times> watermarkTracker option) \<times> Store" where
  "prepare_query F t S =
     (let query = ep_Query (tk_Source t) in
      case tk_Incremental t of
        None \<Rightarrow> (Inr (query, None), S)
      | Some inc \<Rightarrow>
          if \<not> contains query watermarkToken
          then (Inl (Errorf ''incremental task query must reference :watermark'' []), S)
          else case GetWatermark F (tk_Name t) S of
            (Inl e, S) \<Rightarrow> (Inl (Errorf ''read watermark: %v'' [AErr e]), S)
          | (Inr prev, S) \<Rightarrow>
              (case (if prev = VNil then Inr (inc_Initial inc) else watermarkLiteral F prev) of
                 Inl e \<Rightarrow> (Inl (Errorf ''render watermark: %v'' [AErr e]), S)
               | Inr lit \<Rightarrow> (Inr (replace_all query watermarkToken lit, Some (new_tracker (inc_Column inc))), S)))"

definition finalizeWatermark ::
  "('t, 'l, 'w) Engine \<Rightarrow> Task \<Rightarrow> int \<Rightarrow> RunResult \<Rightarrow> watermarkTracker \<Rightarrow> 'l EngineState \<Rightarrow> 'l EngineState" where
  "finalizeWatermark E t runID res wm e =
     (if 0 < rr_FailRows res then
        (if 0 < runID then
           (case time_Now (en_clock E) e of
              (now, e) \<Rightarrow> set_runs (snd (Event now runID ''watermark_held''
                (PHeld ''failed rows'' (rr_FailRows res)) (es_runs e))) e)
         else e)
      else if wt_max wm = VNil then e
      else case SetWatermark (en_float E) (tk_Name t) (wt_max wm) (es_runs e) of
        (Some err, S) \<Rightarrow> set_runs S e
      | (None, S) \<Rightarrow>
          let e = set_runs S e
          in if 0 < runID then
               (case time_Now (en_clock E) e of
                  (now, e) \<Rightarrow> set_runs (snd (Event now runID ''watermark_advanced''
                    (PValue (show_value (en_float E) (wt_max wm))) (es_runs e))) e)
             else e)"

text \<open>What follows a \<open>Stream\<close> that returned with \<open>err\<close>.\<close>

definition conclude ::
  "('t, 'l, 'w) Engine \<Rightarrow> Task \<Rightarrow> int \<Rightarrow> error option \<Rightarrow> 'l PageState \<Rightarrow> RunResult \<times> 'l EngineState" where
  "conclude E t runID err p =
     (let res = (ps_res p)\<lparr>rr_TotalRows := ps_totalSeen p\<rparr> in
      case err of
        Some e \<Rightarrow> (res\<lparr>rr_Status := Failed, rr_Err := Some e\<rparr>, ps_es p)
      | None \<Rightarrow>
          let res = res\<lparr>rr_Status := Succeeded\<rparr>;
              res = (if 0 < rr_TotalRows res \<and> rr_OKRows res = 0 \<and> 0 < rr_FailRows res
                     then res\<lparr>rr_Status := Failed,
                       rr_Err := Some (Errorf ''all %d rows failed (see samples)'' [AInt (rr_FailRows res)])\<rparr>
                     else res)
          in (res, case ps_wm p of None \<Rightarrow> ps_es p | Some wm \<Rightarrow> finalizeWatermark E t runID res wm (ps_es p)))"

text \<open>From the open target on; its deferred close runs on every return.\<close>

definition run_stream ::
  "('t, 'l, 'w) Engine \<Rightarrow> ('l PageState, 'w) SourceConn \<Rightarrow> 'w TargetConn \<Rightarrow> Task \<Rightarrow> 't \<Rightarrow> int \<Rightarrow> RunResult \<Rightarrow>
    'l EngineState \<times> 'w \<Rightarrow> (RunResult \<times> 'l EngineState \<times> 'w) option" where
  "run_stream E src tgt t tok runID res s =
     (case s of (e, w) \<Rightarrow>
        (case prepare_query (en_float E) t (es_runs e) of
           (Inl err, S) \<Rightarrow>
             Some (res\<lparr>rr_Status := Failed, rr_Err := Some err\<rparr>, set_runs S e, snd (tgt_Close tgt w))
         | (Inr (query, wm), S) \<Rightarrow>
             (case src_Stream src query (tk_PageSize t) (page_step E tgt t tok runID)
                 (\<lparr>ps_es = set_runs S e, ps_res = res, ps_keysChecked = False, ps_totalSeen = 0, ps_wm = wm\<rparr>, w) of
                None \<Rightarrow> None
              | Some (_, err, p, w) \<Rightarrow>
                  (case conclude E t runID err p of (res, e) \<Rightarrow> Some (res, e, snd (tgt_Close tgt w))))))"

definition run_body ::
  "('t, 'l, 'w) Engine \<Rightarrow> Task \<Rightarrow> 't \<Rightarrow> int \<Rightarrow> RunResult \<Rightarrow> 'l EngineState \<times> 'w \<Rightarrow>
    (RunResult \<times> 'l EngineState \<times> 'w) option" where
  "run_body E t tok runID res s =
     (case s of (e, w) \<Rightarrow>
        (case en_OpenSource E (ep_Type (tk_Source t)) (ep_DSN (tk_Source t)) w of
           (Inl err, w) \<Rightarrow>
             Some (res\<lparr>rr_Status := Failed, rr_Err := Some (Errorf ''open source: %v'' [AErr err])\<rparr>, e, w)
         | (Inr src, w) \<Rightarrow>
             (case en_OpenTarget E (ep_Type (tg_Endpoint (tk_Target t))) (ep_DSN (tg_Endpoint (tk_Target t))) w of
                (Inl err, w) \<Rightarrow>
                  Some (res\<lparr>rr_Status := Failed, rr_Err := Some (Errorf ''open target: %v'' [AErr err])\<rparr>, e,
                    snd (src_Close src w))
              | (Inr tgt, w) \<Rightarrow>
                  (case run_stream E src tgt t tok runID res (e, w) of
                     None \<Rightarrow> None
                   | Some (res, e, w) \<Rightarrow> Some (res, e, snd (src_Close src w))))))"

text \<open>The deferred closure that finalizes the run, then the deferred release: the history keeps
  that the row is final before the lock is free.\<close>

definition finish ::
  "('t, 'l, 'w) Engine \<Rightarrow> Task \<Rightarrow> gotime \<Rightarrow> 't \<Rightarrow> int \<Rightarrow> RunResult \<times> 'l EngineState \<Rightarrow> RunResult \<times> 'l EngineState" where
  "finish E t start tok runID s =
     (case s of (res, e) \<Rightarrow>
        (case time_Now (en_clock E) e of
           (now, e) \<Rightarrow>
             let res = res\<lparr>rr_Duration := inst now - inst start\<rparr>;
                 e = (if 0 < runID then
                        (case time_Now (en_clock E) e of
                           (now, e) \<Rightarrow> set_runs (snd (FinishRun (en_float E) now runID res (es_runs e))) e)
                      else e);
                 e = ObserveRun (tk_Name t) (rr_Status res) (rr_OKRows res) (rr_FailRows res) (rr_Duration res) e
             in (res, set_lock (lk_Release (en_Reg E) tok (es_lock e)) e)))"

definition empty_result :: "string \<Rightarrow> string \<Rightarrow> RunResult" where
  "empty_result task trigger =
     \<lparr>rr_Task = task, rr_Trigger = trigger, rr_Status = NoStatus, rr_TotalRows = 0, rr_OKRows = 0,
      rr_FailRows = 0, rr_Duration = 0, rr_Err = None, rr_Samples = []\<rparr>"

text \<open>The branch taken when the lock is held elsewhere.\<close>

definition run_skipped ::
  "('t, 'l, 'w) Engine \<Rightarrow> Task \<Rightarrow> string \<Rightarrow> gotime \<Rightarrow> RunResult \<Rightarrow> 'l EngineState \<Rightarrow> RunResult \<times> 'l EngineState" where
  "run_skipped E t trigger start res e =
     (case time_Now (en_clock E) e of
        (now, e) \<Rightarrow>
          let res = res\<lparr>rr_Status := Skipped, rr_Err := Some (Errorf ''previous run still active'' []),
                rr_Duration := inst now - inst start\<rparr>;
              e = ObserveRun (tk_Name t) (rr_Status res) 0 0 (rr_Duration res) e
          in (case time_Now (en_clock E) e of
                (now, e) \<Rightarrow>
                  (case StartRun now (tk_Name t) trigger (es_runs e) of
                     (Inl _, S) \<Rightarrow> (res, set_runs S e)
                   | (Inr i, S) \<Rightarrow>
                       (case time_Now (en_clock E) (set_runs S e) of
                          (now, e) \<Rightarrow> (res, set_runs (snd (FinishRun (en_float E) now i res (es_runs e))) e)))))"

definition RunTask ::
  "('t, 'l, 'w) Engine \<Rightarrow> Task \<Rightarrow> string \<Rightarrow> 'l EngineState \<times> 'w \<Rightarrow> (RunResult \<times> 'l EngineState \<times> 'w) option" where
  "RunTask E t trigger s =
     (case s of (e, w) \<Rightarrow>
        (case time_Now (en_clock E) e of
           (start, e) \<Rightarrow>
             let res = empty_result (tk_Name t) trigger in
             (case time_Now (en_clock E) e of
                (now, e) \<Rightarrow>
                  (case lk_Acquire (en_Reg E) now (tk_Name t) (es_lock e) of
                     (None, l) \<Rightarrow>
                       (case run_skipped E t trigger start res (set_lock l e) of (res, e) \<Rightarrow> Some (res, e, w))
                   | (Some tok, l) \<Rightarrow>
                       (case time_Now (en_clock E) (set_lock l e) of
                          (now, e) \<Rightarrow>
                            (case StartRun now (tk_Name t) trigger (es_runs e) of
                               (r, S) \<Rightarrow>
                                 let runID = (case r of Inl _ \<Rightarrow> 0 | Inr i \<Rightarrow> i)
                                 in (case run_body E t tok runID res (set_runs S e, w) of
                                       None \<Rightarrow> None
                                     | Some (res, e, w) \<Rightarrow>
                                         (case finish E t start tok runID (res, e) of
                                            (res, e) \<Rightarrow> Some (res, e, w)))))))))"

section \<open>The engine's parts as the program assembles them\<close>

definition registry_locker :: "(Token, Registry) Locker" where
  "registry_locker = \<lparr>lk_Acquire = \<lambda>_. Acquire, lk_Release = \<lambda>t. Release (Some t), lk_Renew = None\<rparr>"

definition lease_locker :: "Lease \<Rightarrow> (Token, LeaseTable) Locker" where
  "lease_locker l = \<lparr>lk_Acquire = LeaseAcquire l, lk_Release = \<lambda>t. LeaseRelease l (Some t),
     lk_Renew = Some (\<lambda>now t. LeaseRenew l now (Some t))\<rparr>"

text \<open>A connection as a source: the query runs in the world the callbacks then go on with.\<close>

definition sql_source :: "('w, 'x) drivers_scheme \<Rightarrow> sqlConn \<Rightarrow> ('s, 'w) SourceConn" where
  "sql_source D c =
     \<lparr>src_Stream = (\<lambda>q n fn (s, w).
        case drv_query D (conn_driver c) (sc_dsn c) q w of (qres, w) \<Rightarrow> Stream c qres n fn (s, w)),
      src_Close = Close D c\<rparr>"

definition sql_target :: "('w, 'x) bulk_drivers_scheme \<Rightarrow> sqlConn \<Rightarrow> 'w TargetConn" where
  "sql_target D c =
     \<lparr>tgt_UpsertRows = UpsertRows D c, tgt_InsertRows = InsertRows D c,
      tgt_BulkLoad = Some (BulkLoad D c), tgt_Close = Close D c\<rparr>"

definition NewEngine ::
  "('w, 'x) bulk_drivers_scheme \<Rightarrow> ('t, 'l) Locker \<Rightarrow> (nat \<Rightarrow> gotime) \<Rightarrow> float_text \<Rightarrow> ('t, 'l, 'w) Engine" where
  "NewEngine D reg clk F =
     \<lparr>en_Reg = reg,
      en_OpenSource = (\<lambda>typ dsn w. case OpenSource D typ dsn w of (r, w) \<Rightarrow> (map_sum id (sql_source D) r, w)),
      en_OpenTarget = (\<lambda>typ dsn w. case OpenTarget D typ dsn w of (r, w) \<Rightarrow> (map_sum id (sql_target D) r, w)),
      en_clock = clk, en_float = F\<rparr>"

end
