(* ===== verification/EngineFacts.thy ===== *)
theory EngineFacts
  imports Engine
begin

text \<open>
  Facts about the engine's parts: the batch loop is chunking, counting targets and paged
  sources as interfaces with the code's connections as instances, and what each step keeps
  of the run log, the locker and the counters.
\<close>

section \<open>The batch loop\<close>

lemma batch_loop_end: "int (length page) \<le> off \<Longrightarrow> batch_loop tgt t cols b page off s = Some s"
  by (subst batch_loop.simps) simp

lemma batch_loop_step:
  assumes "0 \<le> off" "off < int (length page)" "0 < b"
  shows "batch_loop tgt t cols b page off s =
    batch_loop tgt t cols b page (min (off + b) (int (length page)))
      (write_batch tgt t cols (take (nat b) (drop (nat off) page)) s)"
proof -
  have "take (nat (min (off + b) (int (length page)) - off)) (drop (nat off) page) =
      take (nat b) (drop (nat off) page)"
    using assms by (cases "off + b \<le> int (length page)") (simp_all add: min_def)
  moreover have "\<not> min (off + b) (int (length page)) < off" using assms by (simp add: min_def)
  ultimately show ?thesis using assms by (subst batch_loop.simps) (simp add: Let_def)
qed

lemma batch_loop_chunks:
  assumes "0 < b" "0 \<le> off"
  shows "batch_loop tgt t cols b page off s =
    Some (fold (write_batch tgt t cols) (chunks (nat b) (drop (nat off) page)) s)"
  using assms(2)
proof (induction "nat (int (length page) - off)" arbitrary: off s rule: less_induct)
  case less
  show ?case
  proof (cases "off < int (length page)")
    case False
    then show ?thesis by (simp add: batch_loop_end)
  next
    case True
    let ?stop = "min (off + b) (int (length page))"
    have dr: "drop (nat ?stop) page = drop (nat b) (drop (nat off) page)"
      using assms(1) less.prems True
      by (cases "off + b \<le> int (length page)") (simp_all add: min_def nat_add_distrib add.commute)
    have "drop (nat off) page \<noteq> []" "0 < nat b" using True assms(1) less.prems by auto
    then have ch: "chunks (nat b) (drop (nat off) page) =
        take (nat b) (drop (nat off) page) # chunks (nat b) (drop (nat ?stop) page)"
      unfolding dr by (simp add: chunks_step)
    have "batch_loop tgt t cols b page ?stop s' =
        Some (fold (write_batch tgt t cols) (chunks (nat b) (drop (nat ?stop) page)) s')" for s'
      using less.hyps [of ?stop s'] True assms(1) less.prems by (simp add: min_def)
    then show ?thesis
      unfolding batch_loop_step [OF less.prems True assms(1)] ch by simp
  qed
qed

lemma clampBatch_pos: "0 < batch \<Longrightarrow> 0 < clampBatch batch cols"
  by (simp add: clampBatch_def Let_def less_max_iff_disj)

lemma clampBatch_le: "0 < batch \<Longrightarrow> clampBatch batch cols \<le> batch"
  by (auto simp: clampBatch_def Let_def)

lemma clampBatch_params:
  assumes "0 < cols" "cols \<le> 2000"
  shows "clampBatch batch cols * cols \<le> 2000"
proof -
  have m: "2000 div cols * cols \<le> 2000" using floor_within [of cols 2000] assms by simp
  have "1 \<le> 2000 div cols"
  proof (rule ccontr)
    assume "\<not> 1 \<le> 2000 div cols"
    then have "2000 div cols * cols \<le> 0" using assms by (simp add: mult_nonpos_nonneg)
    with floor_within [of cols 2000] assms show False by simp
  qed
  then have "clampBatch batch cols \<le> 2000 div cols" using assms by (auto simp: clampBatch_def Let_def max_def)
  then have "clampBatch batch cols * cols \<le> 2000 div cols * cols" using assms by (simp add: mult_right_mono)
  with m show ?thesis by linarith
qed

section \<open>Counting targets\<close>

text \<open>The contract of \<open>TargetConn\<close> and \<open>BulkLoader\<close> that the counters rest on: a success
  reports as many rows as it was given.\<close>

locale counting_target =
  fixes tgt :: "'w TargetConn"
  assumes upsert_count: "tgt_UpsertRows tgt table keys cols rows w = (Inr n, w') \<Longrightarrow> n = int (length rows)"
    and insert_count: "tgt_InsertRows tgt table cols rows w = (Inr n, w') \<Longrightarrow> n = int (length rows)"
    and bulk_count: "tgt_BulkLoad tgt = Some bulk \<Longrightarrow> bulk table keys cols rows w = (Inr n, w') \<Longrightarrow> n = int (length rows)"

text \<open>The counters of a result account for \<open>n\<close> rows, with the first failures as samples.\<close>

definition counted :: "int \<Rightarrow> RunResult \<Rightarrow> bool" where
  "counted n res \<longleftrightarrow>
     rr_OKRows res + rr_FailRows res = n \<and> 0 \<le> rr_OKRows res \<and> 0 \<le> rr_FailRows res \<and>
     int (length (rr_Samples res)) = min (rr_FailRows res) 20"

text \<open>The fields the writers leave alone.\<close>

definition same_head :: "RunResult \<Rightarrow> RunResult \<Rightarrow> bool" where
  "same_head r r' \<longleftrightarrow>
     rr_Task r' = rr_Task r \<and> rr_Trigger r' = rr_Trigger r \<and> rr_Status r' = rr_Status r \<and> rr_Err r' = rr_Err r"

lemma same_head_refl [simp]: "same_head r r"
  and same_head_trans: "same_head r r' \<Longrightarrow> same_head r' r'' \<Longrightarrow> same_head r r''"
  by (simp_all add: same_head_def)

context counting_target
begin

lemma writeChunk_count: "writeChunk tgt t cols chunk w = (Inr n, w') \<Longrightarrow> n = int (length chunk)"
  by (auto simp: writeChunk_def dest: upsert_count insert_count split: if_splits)

lemma write_rows_counted:
  "counted n res \<Longrightarrow> write_rows tgt t cols rs (res, w) = (res', w') \<Longrightarrow>
    counted (n + int (length rs)) res' \<and> same_head res res'"
proof (induction rs arbitrary: n res w)
  case (Cons r rs)
  obtain x w1 where x: "writeChunk tgt t cols [r] w = (x, w1)" by (cases "writeChunk tgt t cols [r] w")
  define res1 where "res1 = (case x of
      Inl e \<Rightarrow> (let res = res\<lparr>rr_FailRows := rr_FailRows res + 1\<rparr>
             in if length (rr_Samples res) < maxSamples then res\<lparr>rr_Samples := rr_Samples res @ [e]\<rparr> else res)
    | Inr _ \<Rightarrow> res\<lparr>rr_OKRows := rr_OKRows res + 1\<rparr>)"
  have "counted (n + 1) res1" "same_head res res1"
    using Cons.prems(1)
    by (auto simp: res1_def counted_def same_head_def maxSamples_def Let_def min_def split: sum.splits if_splits)
  moreover have "write_rows tgt t cols rs (res1, w1) = (res', w')"
    using Cons.prems(2) x by (cases x) (simp_all add: res1_def)
  ultimately have "counted (n + 1 + int (length rs)) res' \<and> same_head res1 res'" using Cons.IH by blast
  with \<open>same_head res res1\<close> show ?case by (auto simp: algebra_simps dest: same_head_trans)
qed simp

lemma write_regular_counted:
  assumes "counted n res" "write_regular tgt t cols chunk (res, w) = (res', w')"
  shows "counted (n + int (length chunk)) res' \<and> same_head res res'"
proof -
  obtain x w1 where x: "writeChunk tgt t cols chunk w = (x, w1)" by (cases "writeChunk tgt t cols chunk w")
  show ?thesis
  proof (cases x)
    case (Inl e)
    with assms x have "write_rows tgt t cols chunk (res, w1) = (res', w')" by (simp add: write_regular_def)
    from write_rows_counted [OF assms(1) this] show ?thesis .
  next
    case (Inr k)
    with x have "k = int (length chunk)" using writeChunk_count by simp
    with Inr assms x show ?thesis by (auto simp: write_regular_def counted_def same_head_def)
  qed
qed

lemma write_batch_counted:
  assumes "counted n res" "write_batch tgt t cols chunk (res, w) = (res', w')"
  shows "counted (n + int (length chunk)) res' \<and> same_head res res'"
proof (cases "if tg_Bulk (tk_Target t) then tgt_BulkLoad tgt else None")
  case None
  with assms(2) have "write_regular tgt t cols chunk (res, w) = (res', w')" by (simp add: write_batch_def)
  from write_regular_counted [OF assms(1) this] show ?thesis .
next
  case (Some bulk)
  then have bulk: "tgt_BulkLoad tgt = Some bulk" by (simp split: if_splits)
  obtain x w1 where x: "bulk (tg_Table (tk_Target t)) (tg_Keys (tk_Target t)) cols chunk w = (x, w1)"
    by (cases "bulk (tg_Table (tk_Target t)) (tg_Keys (tk_Target t)) cols chunk w")
  show ?thesis
  proof (cases x)
    case (Inl e)
    with assms x Some have "write_regular tgt t cols chunk (res, w1) = (res', w')"
      by (simp add: write_batch_def)
    from write_regular_counted [OF assms(1) this] show ?thesis .
  next
    case (Inr k)
    with x have "k = int (length chunk)" using bulk_count [OF bulk] by blast
    with Inr assms x Some show ?thesis by (auto simp: write_batch_def counted_def same_head_def)
  qed
qed

lemma batches_counted:
  "counted n res \<Longrightarrow> fold (write_batch tgt t cols) cs (res, w) = (res', w') \<Longrightarrow>
    counted (n + int (length (concat cs))) res' \<and> same_head res res'"
proof (induction cs arbitrary: n res w)
  case (Cons c cs)
  obtain res1 w1 where 1: "write_batch tgt t cols c (res, w) = (res1, w1)"
    by (cases "write_batch tgt t cols c (res, w)")
  from write_batch_counted [OF Cons.prems(1) 1] have c1: "counted (n + int (length c)) res1" "same_head res res1" by auto
  from Cons.IH [OF c1(1)] Cons.prems(2) 1 have "counted (n + int (length c) + int (length (concat cs))) res' \<and> same_head res1 res'"
    by simp
  with c1(2) show ?case by (auto simp: algebra_simps dest: same_head_trans)
qed simp

end

interpretation sql: counting_target "sql_target D c" for D c
proof
  show "n = int (length rows)" if "tgt_UpsertRows (sql_target D c) table keys cols rows w = (Inr n, w')"
    for table keys cols rows w n w'
    using that by (auto simp: sql_target_def UpsertRows_def Let_def split: if_splits sum.splits option.splits prod.splits)
  show "n = int (length rows)" if "tgt_InsertRows (sql_target D c) table cols rows w = (Inr n, w')"
    for table cols rows w n w'
    using that by (auto simp: sql_target_def InsertRows_def Let_def split: if_splits sum.splits option.splits prod.splits)
  show "n = int (length rows)" if "tgt_BulkLoad (sql_target D c) = Some bulk" "bulk table keys cols rows w = (Inr n, w')"
    for bulk table keys cols rows w n w'
    using that by (auto simp: sql_target_def dest: BulkLoad_count)
qed

end
