(* ===== verification/EngineRuns.thy ===== *)
theory EngineRuns
  imports EngineFacts
begin

text \<open>
  Whole runs: what \<open>RunTask\<close> returns and leaves behind, over any source that delivers pages
  and any target that counts, with the program's own connections as the instances.
\<close>

section \<open>Paged sources\<close>

definition end_with :: "error option \<Rightarrow> (int \<times> error option \<times> 's) option \<Rightarrow> (int \<times> error option \<times> 's) option" where
  "end_with err r = (case r of Some (t, None, s) \<Rightarrow> Some (t, err, s) | _ \<Rightarrow> r)"

text \<open>Pages of size \<open>n\<close>: none empty, all but the last one full.\<close>

definition paged :: "nat \<Rightarrow> row list list \<Rightarrow> bool" where
  "paged n pages \<longleftrightarrow>
     list_all (\<lambda>p. p \<noteq> [] \<and> length p \<le> n) pages \<and> list_all (\<lambda>p. length p = n) (butlast pages)"

text \<open>The contract of \<open>SourceConn\<close>: which pages a query delivers does not depend on the
  callback; nor does the error at the end. With a page size that no slice can hold it may
  panic instead.\<close>

locale paged_source =
  fixes src :: "('s, 'w) SourceConn"
  assumes stream_pages: "maxPageCap < n \<and> (\<forall>fn s. src_Stream src q n fn (s, w) = None) \<or>
    (\<exists>w1 pages err. paged (page_size n) pages \<and>
      (\<forall>fn s. src_Stream src q n fn (s, w) = end_with err (feed fn pages 0 (s, w1))))"

lemma fetches_split: "\<exists>vs fs. fetches = map FRow vs @ fs \<and> (fs = [] \<or> (\<exists>e fs'. fs = FScanErr e # fs'))"
proof (induction fetches)
  case Nil
  show ?case by (intro exI [of _ "[]"]) simp
next
  case (Cons f fetches)
  then obtain vs fs where IH: "fetches = map FRow vs @ fs" "fs = [] \<or> (\<exists>e fs'. fs = FScanErr e # fs')" by blast
  show ?case
  proof (cases f)
    case (FRow v)
    with IH show ?thesis by (intro exI [of _ "v # vs"] exI [of _ fs]) auto
  next
    case (FScanErr e)
    then show ?thesis by (intro exI [of _ "[]"] exI [of _ "f # fetches"]) simp
  qed
qed

lemma chunk_pages: "0 < n \<Longrightarrow> paged n (chunks n xs)"
  by (auto simp: paged_def list_all_iff dest: chunks_bounds chunks_all_full_but_last)

lemma Stream_pages:
  "maxPageCap < n \<and> (\<forall>(fn :: 's page_fn) s. Stream c qres n fn s = None) \<or>
   (\<exists>pages err. paged (page_size n) pages \<and>
     (\<forall>(fn :: 's page_fn) s. Stream c qres n fn s = end_with err (feed fn pages 0 s)))"
proof (cases qres)
  case (Inl e)
  then show ?thesis
    by (intro disjI2 exI [of _ "[]"] exI [of _ "Some (Wrapf ''%s query failed: %w'' [AStr (d_name (sc_dialect c))] e)"])
      (simp add: Stream_def end_with_def paged_def)
next
  case (Inr rs)
  show ?thesis
  proof (cases "rs_cols rs")
    case (Inl e)
    with Inr show ?thesis
      by (intro disjI2 exI [of _ "[]"] exI [of _ "Some e"]) (simp add: Stream_def end_with_def paged_def)
  next
    case cols: (Inr cols)
    obtain vs fs where f: "rs_fetches rs = map FRow vs @ fs" "fs = [] \<or> (\<exists>e fs'. fs = FScanErr e # fs')"
      using fetches_split by blast
    have rs: "rs = \<lparr>rs_cols = Inr cols, rs_fetches = map FRow vs @ fs, rs_err = rs_err rs\<rparr>"
      using cols f(1) by (cases rs) simp
    let ?all = "chunks (page_size n) (map (scan_row cols) vs)"
    let ?full = "full_pages (page_size n) (map (scan_row cols) vs)"
    have pg: "paged (page_size n) ?all" "paged (page_size n) ?full"
      by (simp_all add: chunk_pages page_size_pos full_pages_def)
    consider (panic) "maxPageCap < n" | (ends) "n \<le> maxPageCap" "fs = [] \<and> rs_err rs = None"
      | (fails) e where "n \<le> maxPageCap" "(\<exists>fs'. fs = FScanErr e # fs') \<or> (fs = [] \<and> rs_err rs = Some e)"
      using f(2) by (cases "maxPageCap < n"; cases "rs_err rs") (force simp: not_less)+
    then show ?thesis
    proof cases
      case panic
      have "Stream c qres n fn s = None" for fn :: "'s page_fn" and s
        unfolding Inr by (subst rs) (rule Stream_panics [OF panic])
      with panic show ?thesis by blast
    next
      case ends
      then have "Stream c qres n fn s = feed fn ?all 0 s" for fn :: "'s page_fn" and s
        using Inr rs Stream_delivers [of n c cols vs fn s] by simp
      then show ?thesis using pg(1)
        by (intro disjI2 exI [of _ ?all] exI [of _ None]) (auto simp: end_with_def split: option.splits)
    next
      case fails
      have "Stream c qres n fn s = then_fail e (feed fn ?full 0 s)" for fn :: "'s page_fn" and s
        unfolding Inr by (subst rs) (use fails(2) in \<open>auto simp: Stream_scan_error [OF fails(1)] Stream_cursor_error [OF fails(1)]\<close>)
      then show ?thesis using pg(2)
        by (intro disjI2 exI [of _ ?full] exI [of _ "Some e"]) (auto simp: end_with_def then_fail_def split: option.splits)
    qed
  qed
qed

lemma sql_source_pages:
  fixes D :: "('w, 'x) drivers_scheme"
  shows "maxPageCap < n \<and> (\<forall>(fn :: ('s \<times> 'w) page_fn) s. src_Stream (sql_source D c) q n fn (s, w) = None) \<or>
   (\<exists>w1 pages err. paged (page_size n) pages \<and>
     (\<forall>(fn :: ('s \<times> 'w) page_fn) s. src_Stream (sql_source D c) q n fn (s, w) = end_with err (feed fn pages 0 (s, w1))))"
proof -
  obtain qres w1 where q: "drv_query D (conn_driver c) (sc_dsn c) q w = (qres, w1)"
    by (cases "drv_query D (conn_driver c) (sc_dsn c) q w")
  from Stream_pages [of n c qres, where ?'s = "'s \<times> 'w"] show ?thesis
    by (simp add: sql_source_def q) blast
qed

interpretation sql_src: paged_source "sql_source D c" for D c
  by unfold_locales (rule sql_source_pages)

section \<open>Feeding pages\<close>

lemma feed_returns:
  assumes "\<And>p s. p \<in> set pages \<Longrightarrow> P s \<Longrightarrow> \<exists>e s'. fn p s = Some (e, s') \<and> P s'" "P s"
  shows "\<exists>t' e s'. feed fn pages t s = Some (t', e, s') \<and> P s'"
  using assms
proof (induction pages arbitrary: t s)
  case (Cons p pages)
  have rest: "\<And>q s. q \<in> set pages \<Longrightarrow> P s \<Longrightarrow> \<exists>e s'. fn q s = Some (e, s') \<and> P s'"
    by (rule Cons.prems(1)) simp_all
  obtain e s1 where 1: "fn p s = Some (e, s1)" "P s1"
    using Cons.prems(1) [of p s] Cons.prems(2) by auto
  show ?case
  proof (cases e)
    case None
    have "\<exists>t' e s'. feed fn pages (t + int (length p)) s1 = Some (t', e, s') \<and> P s'"
      by (rule Cons.IH [OF rest 1(2)])
    with 1 None show ?thesis by simp
  next
    case (Some x)
    with 1 show ?thesis by simp
  qed
qed simp

lemma feed_inv:
  assumes "\<And>p s e s'. p \<in> set pages \<Longrightarrow> P s \<Longrightarrow> fn p s = Some (e, s') \<Longrightarrow> P s'" "P s"
    and "feed fn pages t s = Some (t', e, s')"
  shows "P s'"
  using assms
proof (induction pages arbitrary: t s)
  case (Cons p pages)
  have rest: "\<And>q s e s'. q \<in> set pages \<Longrightarrow> P s \<Longrightarrow> fn q s = Some (e, s') \<Longrightarrow> P s'"
    by (rule Cons.prems(1)) simp_all
  from Cons.prems(3) obtain e1 s1 where 1: "fn p s = Some (e1, s1)" by (auto split: option.splits)
  have P1: "P s1" using Cons.prems(1) [OF _ Cons.prems(2) 1] by simp
  show ?case
  proof (cases e1)
    case None
    then have f: "feed fn pages (t + int (length p)) s1 = Some (t', e, s')" using Cons.prems(3) 1 by simp
    show ?thesis by (rule Cons.IH [OF rest P1 f])
  next
    case (Some x)
    with Cons.prems(3) 1 P1 show ?thesis by simp
  qed
qed simp

lemma end_with_Some:
  assumes "end_with err r = Some (t, e, s)"
  obtains e' where "r = Some (t, e', s)" "e = (if e' = None then err else e')"
proof (cases r)
  case (Some x)
  obtain t0 e0 s0 where x: "x = (t0, e0, s0)" by (cases x)
  show thesis
  proof (cases e0)
    case None
    then show thesis using assms Some x by (intro that [of None]) (simp_all add: end_with_def)
  next
    case e0: (Some y)
    then show thesis using assms Some x by (intro that [of e0]) (auto simp: end_with_def)
  qed
qed (use assms in \<open>simp add: end_with_def\<close>)

section \<open>What the steps of a run keep\<close>

text \<open>Nothing of the engine's state but events and, for an expiring locker, the lock changes.\<close>

definition frame :: "('t, 'l, 'w) Engine \<Rightarrow> 'l EngineState \<Rightarrow> 'l EngineState \<Rightarrow> bool" where
  "frame E e e' \<longleftrightarrow>
     st_runs (es_runs e') = st_runs (es_runs e) \<and> st_run_seq (es_runs e') = st_run_seq (es_runs e) \<and>
     st_state (es_runs e') = st_state (es_runs e) \<and> es_met e' = es_met e \<and>
     (store_ok (es_runs e) \<longrightarrow> store_ok (es_runs e')) \<and>
     (st_faults (es_runs e) = [] \<longrightarrow> st_faults (es_runs e') = []) \<and>
     (lk_Renew (en_Reg E) = None \<longrightarrow> es_lock e' = es_lock e)"

lemma frame_refl [simp]: "frame E e e"
  and frame_trans: "frame E e e' \<Longrightarrow> frame E e' e'' \<Longrightarrow> frame E e e''"
  by (auto simp: frame_def)

lemma sql_faults: "sql S = (f, S') \<Longrightarrow> st_faults S = [] \<Longrightarrow> st_faults S' = [] \<and> f = None"
  by (simp add: sql_def)

lemma Event_store:
  assumes "Event now i k p S = (e, S')"
  shows "st_runs S' = st_runs S" "st_run_seq S' = st_run_seq S" "st_state S' = st_state S"
    "store_ok S \<Longrightarrow> store_ok S'" "st_faults S = [] \<Longrightarrow> st_faults S' = []"
proof -
  show "st_runs S' = st_runs S" "st_run_seq S' = st_run_seq S" "st_state S' = st_state S"
    using assms by (auto elim!: Event_cases)
  show "store_ok S'" if "store_ok S"
    using log_step_ok [OF that, of _ "OEvent now i k p" "[]" S' "[]"] assms by simp
  show "st_faults S' = []" if "st_faults S = []"
    using assms that by (auto simp: Event_def sql_def Let_def)
qed

lemma frame_event:
  "frame E e (set_runs (snd (Event now i k p (es_runs e))) (e\<lparr>es_ticks := n\<rparr>))"
proof -
  obtain x S where "Event now i k p (es_runs e) = (x, S)" by (cases "Event now i k p (es_runs e)")
  from Event_store [OF this] this show ?thesis by (simp add: frame_def set_runs_def)
qed

lemma page_done_frame: "frame E e (page_done E tok runID seen res e)"
proof -
  define e1 where "e1 = (case lk_Renew (en_Reg E) of
      None \<Rightarrow> e
    | Some renew \<Rightarrow> set_lock (renew (en_clock E (es_ticks e)) tok (es_lock e)) (e\<lparr>es_ticks := es_ticks e + 1\<rparr>))"
  have 1: "frame E e e1" by (auto simp: e1_def frame_def set_lock_def split: option.split)
  have "page_done E tok runID seen res e = (if 0 < runID then
      set_runs (snd (Event (en_clock E (es_ticks e1)) runID ''progress''
        (PProgress seen (rr_OKRows res) (rr_FailRows res)) (es_runs e1))) (e1\<lparr>es_ticks := es_ticks e1 + 1\<rparr>) else e1)"
    by (simp add: page_done_def time_Now_def e1_def Let_def split: option.split)
  with 1 show ?thesis using frame_event [of E e1] by (auto intro: frame_trans)
qed

lemma prepare_query_store:
  assumes "prepare_query F t S = (r, S')"
  shows "\<exists>fs. S' = S\<lparr>st_faults := fs\<rparr> \<and> (st_faults S = [] \<longrightarrow> fs = [])"
proof -
  have self: "\<exists>fs. S = S\<lparr>st_faults := fs\<rparr> \<and> (st_faults S = [] \<longrightarrow> fs = [])"
    by (rule exI [of _ "st_faults S"]) simp
  have get: "\<exists>fs. snd (GetWatermark F n S) = S\<lparr>st_faults := fs\<rparr> \<and> (st_faults S = [] \<longrightarrow> fs = [])" for n
  proof -
    obtain f S1 where f: "sql S = (f, S1)" by (cases "sql S")
    then obtain fs where "S1 = S\<lparr>st_faults := fs\<rparr>" by (rule sql_cases)
    then show ?thesis using f sql_faults [OF f]
      by (auto simp: GetWatermark_def split: option.split)
  qed
  show ?thesis
    using assms self get [of "tk_Name t"]
    by (auto simp: prepare_query_def Let_def split: option.splits if_splits prod.splits sum.splits)
qed

section \<open>One page\<close>

context counting_target
begin

lemma page_step_cases:
  assumes batch: "0 < tg_BatchSize (tk_Target t)" and page: "page \<noteq> []"
  obtains (refused) e p' where "page_step E tgt t tok runID page (p, w) = Some (Some e, p', w)"
    "ps_es p' = ps_es p" "ps_res p' = ps_res p" "ps_totalSeen p' = ps_totalSeen p" "ps_wm p' = None \<longleftrightarrow> ps_wm p = None"
  | (accepted) p' w' where "page_step E tgt t tok runID page (p, w) = Some (None, p', w')"
    "fold (write_batch tgt t (sortedCols (hd page)))
       (chunks (nat (clampBatch (tg_BatchSize (tk_Target t)) (int (length (sortedCols (hd page)))))) page)
       (ps_res p, w) = (ps_res p', w')"
    "ps_totalSeen p' = ps_totalSeen p + int (length page)"
    "ps_es p' = page_done E tok runID (ps_totalSeen p') (ps_res p') (ps_es p)"
    "observe_page (ps_wm p) page = (None, ps_wm p')"
proof -
  let ?cols = "sortedCols (hd page)"
  let ?b = "clampBatch (tg_BatchSize (tk_Target t)) (int (length ?cols))"
  let ?chk = "if ps_keysChecked p then None else check_keys t ?cols (hd page)"
  have loop: "batch_loop tgt t ?cols ?b page 0 s = Some (fold (write_batch tgt t ?cols) (chunks (nat ?b) page) s)" for s
    using batch_loop_chunks [OF clampBatch_pos [OF batch], of 0] by simp
  show thesis
  proof (cases "ValidateColumns ?cols")
    case (Some e)
    then show thesis using page by (intro refused) (simp_all add: page_step_def Let_def)
  next
    case cols: None
    show thesis
    proof (cases ?chk)
      case (Some e)
      show thesis
        by (rule refused [where e = e and p' = p])
          (simp_all only: page_step_def Let_def prod.case cols Some option.case page if_False)
    next
      case chk: None
      show thesis
      proof (cases "check_widths 0 (length ?cols) page")
        case (Some e)
        show thesis
          by (rule refused [where e = e and p' = "p\<lparr>ps_keysChecked := True\<rparr>"])
            (simp_all only: page_step_def Let_def prod.case cols chk Some option.case page if_False, simp_all?)
      next
        case widths: None
        obtain oe wm where o: "observe_page (ps_wm p) page = (oe, wm)" by (cases "observe_page (ps_wm p) page")
        have o': "observe_page (ps_wm (p\<lparr>ps_keysChecked := True\<rparr>)) page = (oe, wm)" using o by simp
        show thesis
        proof (cases oe)
          case (Some e)
          have wm: "wm = None \<longleftrightarrow> ps_wm p = None"
            using o Some by (auto simp: observe_page_def split: option.splits prod.splits)
          show thesis
            by (rule refused [where e = e and p' = "p\<lparr>ps_keysChecked := True, ps_wm := wm\<rparr>"])
              (simp_all only: page_step_def Let_def prod.case cols chk widths o' Some option.case page if_False, simp_all add: wm)
        next
          case None
          obtain res w' where f: "fold (write_batch tgt t ?cols) (chunks (nat ?b) page) (ps_res p, w) = (res, w')"
            by (cases "fold (write_batch tgt t ?cols) (chunks (nat ?b) page) (ps_res p, w)")
          show thesis
            by (rule accepted [where p' = "p\<lparr>ps_keysChecked := True, ps_res := res, ps_wm := wm,
                  ps_totalSeen := ps_totalSeen p + int (length page),
                  ps_es := page_done E tok runID (ps_totalSeen p + int (length page)) res (ps_es p)\<rparr>" and w' = w'])
              (simp_all only: page_step_def Let_def prod.case cols chk widths o' None option.case page if_False loop, simp_all add: f o None)
        qed
      qed
    qed
  qed
qed

end

section \<open>One stream\<close>

definition page_inv :: "('t, 'l, 'w) Engine \<Rightarrow> Task \<Rightarrow> RunResult \<Rightarrow> 'l EngineState \<Rightarrow> 'l PageState \<Rightarrow> bool" where
  "page_inv E t res0 e0 p \<longleftrightarrow>
     counted (ps_totalSeen p) (ps_res p) \<and> same_head res0 (ps_res p) \<and> frame E e0 (ps_es p) \<and>
     (ps_wm p = None \<longleftrightarrow> tk_Incremental t = None)"

lemma observe_page_None: "observe_page wm page = (oe, wm') \<Longrightarrow> wm' = None \<longleftrightarrow> wm = None"
  by (auto simp: observe_page_def split: option.splits prod.splits)


context counting_target
begin

lemma page_inv_step:
  assumes "0 < tg_BatchSize (tk_Target t)" "page \<noteq> []" "page_inv E t res0 e0 p"
  shows "\<exists>eo p' w'. page_step E tgt t tok runID page (p, w) = Some (eo, p', w') \<and> page_inv E t res0 e0 p'"
  using assms(1,2)
proof (cases rule: page_step_cases [of t page E tok runID p w])
  case (refused e p')
  then show ?thesis using assms(3) by (auto simp: page_inv_def)
next
  case (accepted p' w')
  let ?b = "clampBatch (tg_BatchSize (tk_Target t)) (int (length (sortedCols (hd page))))"
  have "0 < nat ?b" using clampBatch_pos [OF assms(1)] by simp
  then have "counted (ps_totalSeen p') (ps_res p') \<and> same_head (ps_res p) (ps_res p')"
    using batches_counted [OF _ accepted(2), of "ps_totalSeen p"] assms(3) by (simp add: accepted(3) page_inv_def)
  moreover have "frame E e0 (ps_es p')"
    using assms(3) frame_trans [OF _ page_done_frame [of E "ps_es p" tok runID "ps_totalSeen p'" "ps_res p'"], of e0]
    unfolding accepted(4) by (simp add: page_inv_def)
  moreover have "ps_wm p' = None \<longleftrightarrow> tk_Incremental t = None"
    using observe_page_None [OF accepted(5)] assms(3) by (simp add: page_inv_def)
  ultimately have "page_inv E t res0 e0 p'"
    using assms(3) by (auto simp: page_inv_def dest: same_head_trans)
  with accepted(1) show ?thesis by blast
qed

lemma stream_inv:
  assumes src: "paged_source src" and batch: "0 < tg_BatchSize (tk_Target t)" and inv: "page_inv E t res0 e0 p"
  shows "maxPageCap < psz \<and> src_Stream src query psz (page_step E tgt t tok runID) (p, w) = None \<or>
    (\<exists>n err p' w'. src_Stream src query psz (page_step E tgt t tok runID) (p, w) = Some (n, err, p', w') \<and>
      page_inv E t res0 e0 p')"
proof (cases "maxPageCap < psz \<and> src_Stream src query psz (page_step E tgt t tok runID) (p, w) = None")
  case False
  then obtain w1 pages err where pages: "paged (page_size psz) pages"
    and st: "\<forall>fn s. src_Stream src query psz fn (s, w) = end_with err (feed fn pages 0 (s, w1))"
    using paged_source.stream_pages [OF src, of psz query w] by blast
  have "\<exists>n e s. feed (page_step E tgt t tok runID) pages 0 (p, w1) = Some (n, e, s) \<and> page_inv E t res0 e0 (fst s)"
  proof (rule feed_returns)
    show "\<exists>e s'. page_step E tgt t tok runID page s = Some (e, s') \<and> page_inv E t res0 e0 (fst s')"
      if "page \<in> set pages" "page_inv E t res0 e0 (fst s)" for page s
    proof -
      have "page \<noteq> []" using pages that(1) by (auto simp: paged_def list_all_iff)
      from page_inv_step [OF batch this that(2), of tok runID "snd s"] show ?thesis by auto
    qed
    show "page_inv E t res0 e0 (fst (p, w1))" using inv by simp
  qed
  then obtain n e p' w' where f: "feed (page_step E tgt t tok runID) pages 0 (p, w1) = Some (n, e, p', w')"
    "page_inv E t res0 e0 p'" by auto
  show ?thesis unfolding st [rule_format] f(1) using f(2) by (cases e) (auto simp: end_with_def)
qed simp

end

section \<open>The outcome\<close>

definition outcome :: "RunResult \<Rightarrow> RunResult \<Rightarrow> bool" where
  "outcome res0 res \<longleftrightarrow>
     counted (rr_TotalRows res) res \<and> rr_Task res = rr_Task res0 \<and> rr_Trigger res = rr_Trigger res0 \<and>
     (rr_Status res = Succeeded \<and> rr_Err res = None \<and> (rr_TotalRows res = 0 \<or> 0 < rr_OKRows res) \<or>
      rr_Status res = Failed \<and> rr_Err res \<noteq> None)"

text \<open>Stored watermarks are untouched, or only the task's own one changed, after a clean
  successful run of an incremental task.\<close>

definition wm_step :: "Task \<Rightarrow> RunResult \<Rightarrow> Store \<Rightarrow> Store \<Rightarrow> bool" where
  "wm_step t res S S' \<longleftrightarrow>
     st_state S' = st_state S \<or>
     (rr_Status res = Succeeded \<and> rr_FailRows res = 0 \<and> tk_Incremental t \<noteq> None \<and>
      (\<forall>n. n \<noteq> tk_Name t \<longrightarrow> st_state S' n = st_state S n))"

text \<open>The state relation of a run's body: the frame up to the stored watermarks.\<close>

definition body_rel :: "('t, 'l, 'w) Engine \<Rightarrow> Task \<Rightarrow> RunResult \<Rightarrow> 'l EngineState \<Rightarrow> 'l EngineState \<Rightarrow> bool" where
  "body_rel E t res e e' \<longleftrightarrow>
     frame E e (e'\<lparr>es_runs := (es_runs e')\<lparr>st_state := st_state (es_runs e)\<rparr>\<rparr>) \<and>
     wm_step t res (es_runs e) (es_runs e')"

lemma store_ok_state [simp]: "store_ok (S\<lparr>st_state := m\<rparr>) = store_ok S"
  by (simp add: store_ok_def)

lemma frame_body_rel: "frame E e e' \<Longrightarrow> body_rel E t res e e'"
  by (simp add: body_rel_def wm_step_def frame_def)

lemma body_rel_frame: "frame E e e1 \<Longrightarrow> body_rel E t res e1 e' \<Longrightarrow> body_rel E t res e e'"
  by (auto simp: body_rel_def wm_step_def frame_def)

lemma SetWatermark_store:
  assumes "SetWatermark F n v S = (oe, S')"
  shows "\<exists>fs m. S' = S\<lparr>st_faults := fs, st_state := m\<rparr> \<and> (st_faults S = [] \<longrightarrow> fs = []) \<and>
    (oe \<noteq> None \<longrightarrow> m = st_state S) \<and> (\<forall>k. k \<noteq> n \<longrightarrow> m k = st_state S k)"
proof -
  have nf: "st_faults S' = []" if "st_faults S = []"
    using assms that by (auto simp: SetWatermark_def sql_def split: sum.splits prod.splits)
  from assms show ?thesis
  proof (cases rule: SetWatermark_cases)
    case (1 fs)
    then show ?thesis using nf by (intro exI [of _ fs] exI [of _ "st_state S"]) simp
  next
    case (2 fs kr)
    then show ?thesis using nf by (intro exI [of _ fs] exI [of _ "(st_state S)(n \<mapsto> kr)"]) simp
  qed
qed

lemma finalizeWatermark_rel:
  assumes "rr_Status res = Succeeded \<or> 0 < rr_FailRows res" "tk_Incremental t \<noteq> None" "0 \<le> rr_FailRows res"
  shows "body_rel E t res e (finalizeWatermark E t runID res wm e)"
proof (cases "0 < rr_FailRows res \<or> wt_max wm = VNil")
  case True
  then have "frame E e (finalizeWatermark E t runID res wm e)"
    using frame_event [of E e] by (auto simp: finalizeWatermark_def time_Now_def)
  then show ?thesis by (rule frame_body_rel)
next
  case False
  obtain oe S where s: "SetWatermark (en_float E) (tk_Name t) (wt_max wm) (es_runs e) = (oe, S)"
    by (cases "SetWatermark (en_float E) (tk_Name t) (wt_max wm) (es_runs e)")
  obtain fs m where S: "S = (es_runs e)\<lparr>st_faults := fs, st_state := m\<rparr>" "st_faults (es_runs e) = [] \<longrightarrow> fs = []"
    "oe \<noteq> None \<longrightarrow> m = st_state (es_runs e)" "\<forall>k. k \<noteq> tk_Name t \<longrightarrow> m k = st_state (es_runs e) k"
    using SetWatermark_store [OF s] by blast
  let ?e = "set_runs S e"
  have r: "body_rel E t res e e'" if "frame E ?e e'" for e'
    using that S assms False by (auto simp: body_rel_def wm_step_def frame_def set_runs_def)
  have "frame E ?e (finalizeWatermark E t runID res wm e)"
    using False s frame_event [of E ?e] by (auto simp: finalizeWatermark_def time_Now_def Let_def split: option.split)
  then show ?thesis by (rule r)
qed

lemma conclude_outcome:
  assumes inv: "page_inv E t res0 e0 p" and res0: "rr_Err res0 = None"
    and c: "conclude E t runID err p = (res, e')"
  shows "outcome res0 res \<and> body_rel E t res e0 e'"
proof -
  define r where "r = (ps_res p)\<lparr>rr_TotalRows := ps_totalSeen p\<rparr>"
  have cnt: "counted (rr_TotalRows r) r" and hd: "same_head res0 r" and fr: "frame E e0 (ps_es p)"
    and wm: "ps_wm p = None \<longleftrightarrow> tk_Incremental t = None"
    using inv by (auto simp: page_inv_def r_def counted_def same_head_def)
  show ?thesis
  proof (cases err)
    case (Some x)
    then have "res = r\<lparr>rr_Status := Failed, rr_Err := Some x\<rparr>" "e' = ps_es p"
      using c by (simp_all add: conclude_def r_def Let_def)
    then show ?thesis using cnt hd fr frame_body_rel by (auto simp: outcome_def counted_def same_head_def)
  next
    case None
    define r1 where "r1 = (if 0 < rr_TotalRows r \<and> rr_OKRows r = 0 \<and> 0 < rr_FailRows r
        then r\<lparr>rr_Status := Failed, rr_Err := Some (Errorf ''all %d rows failed (see samples)'' [AInt (rr_FailRows r)])\<rparr>
        else r\<lparr>rr_Status := Succeeded\<rparr>)"
    have res: "res = r1" and e': "e' = (case ps_wm p of None \<Rightarrow> ps_es p
        | Some wm \<Rightarrow> finalizeWatermark E t runID r1 wm (ps_es p))"
    proof -
      have "conclude E t runID None p = (r1, case ps_wm p of None \<Rightarrow> ps_es p
          | Some wm \<Rightarrow> finalizeWatermark E t runID r1 wm (ps_es p))"
        unfolding conclude_def r_def [symmetric] Let_def option.case
        by (cases "ps_wm p") (simp_all add: r1_def)
      then show "res = r1" "e' = (case ps_wm p of None \<Rightarrow> ps_es p
          | Some wm \<Rightarrow> finalizeWatermark E t runID r1 wm (ps_es p))"
        using c None by auto
    qed
    have "outcome res0 res"
      using cnt hd res0 by (auto simp: res r1_def outcome_def counted_def same_head_def)
    moreover have "body_rel E t res e0 e'"
    proof (cases "ps_wm p")
      case None
      then show ?thesis using fr frame_body_rel e' by simp
    next
      case (Some w)
      have "body_rel E t r1 (ps_es p) (finalizeWatermark E t runID r1 w (ps_es p))"
        by (rule finalizeWatermark_rel) (use Some wm cnt in \<open>auto simp: r1_def counted_def\<close>)
      with body_rel_frame [OF fr] Some e' res show ?thesis by simp
    qed
    ultimately show ?thesis ..
  qed
qed

section \<open>One run\<close>

lemma map_sum_eq_Inr: "map_sum f g x = Inr y \<Longrightarrow> \<exists>z. x = Inr z \<and> y = g z"
  by (cases x) auto

definition fresh_result :: "RunResult \<Rightarrow> bool" where
  "fresh_result res \<longleftrightarrow> counted 0 res \<and> rr_TotalRows res = 0 \<and> rr_Err res = None"

lemma fresh_empty: "fresh_result (empty_result task trigger)"
  by (simp add: fresh_result_def empty_result_def counted_def)

lemma fresh_failed: "fresh_result res \<Longrightarrow> outcome res (res\<lparr>rr_Status := Failed, rr_Err := Some e\<rparr>)"
  by (simp add: fresh_result_def outcome_def counted_def)

context counting_target
begin

lemma run_stream_outcome:
  assumes "paged_source src" "0 < tg_BatchSize (tk_Target t)" "fresh_result res"
  shows "maxPageCap < tk_PageSize t \<and> run_stream E src tgt t tok runID res (e, w) = None \<or>
    (\<exists>res' e' w'. run_stream E src tgt t tok runID res (e, w) = Some (res', e', w') \<and>
      outcome res res' \<and> body_rel E t res' e e')"
proof -
  obtain q S where q: "prepare_query (en_float E) t (es_runs e) = (q, S)"
    by (cases "prepare_query (en_float E) t (es_runs e)")
  let ?e = "set_runs S e"
  have fr: "frame E e ?e"
    using prepare_query_store [OF q] by (auto simp: frame_def set_runs_def)
  show ?thesis
  proof (cases q)
    case (Inl err)
    with q have "run_stream E src tgt t tok runID res (e, w) =
        Some (res\<lparr>rr_Status := Failed, rr_Err := Some err\<rparr>, ?e, snd (tgt_Close tgt w))"
      by (simp add: run_stream_def)
    with fresh_failed [OF assms(3)] frame_body_rel [OF fr] show ?thesis by blast
  next
    case (Inr x)
    obtain query wm where x: "x = (query, wm)" by (cases x)
    let ?p = "\<lparr>ps_es = ?e, ps_res = res, ps_keysChecked = False, ps_totalSeen = 0, ps_wm = wm\<rparr>"
    have "wm = None \<longleftrightarrow> tk_Incremental t = None"
      using q Inr x by (auto simp: prepare_query_def Let_def split: option.splits if_splits prod.splits sum.splits)
    then have inv: "page_inv E t res e ?p"
      using fr assms(3) by (simp add: page_inv_def fresh_result_def)
    show ?thesis
    proof (cases "src_Stream src query (tk_PageSize t) (page_step E tgt t tok runID) (?p, w)")
      case None
      then show ?thesis using stream_inv [OF assms(1,2) inv, of "tk_PageSize t" query tok runID w] q Inr x by (simp add: run_stream_def)
    next
      case (Some y)
    then obtain n err p' w' where s: "src_Stream src query (tk_PageSize t) (page_step E tgt t tok runID) (?p, w) = Some (n, err, p', w')"
      "page_inv E t res e p'"
      using stream_inv [OF assms(1,2) inv, of "tk_PageSize t" query tok runID w] by auto
    obtain res' e' where c: "conclude E t runID err p' = (res', e')" by (cases "conclude E t runID err p'")
    have "run_stream E src tgt t tok runID res (e, w) = Some (res', e', snd (tgt_Close tgt w'))"
      using q Inr x s(1) c by (simp add: run_stream_def)
    moreover have "outcome res res' \<and> body_rel E t res' e e'"
      using conclude_outcome [OF s(2) _ c] assms(3) by (simp add: fresh_result_def)
    ultimately show ?thesis by blast
    qed
  qed
qed

end

text \<open>The state handed to the skipped branch, and the one the body starts in.\<close>

definition refused_state :: "'l \<Rightarrow> 'l EngineState \<Rightarrow> 'l EngineState" where
  "refused_state l e = e\<lparr>es_ticks := es_ticks e + 2, es_lock := l, es_trace := es_trace e @ [Inl l]\<rparr>"

definition started_state :: "'l \<Rightarrow> Store \<Rightarrow> 'l EngineState \<Rightarrow> 'l EngineState" where
  "started_state l S e = e\<lparr>es_lock := l, es_ticks := es_ticks e + 3, es_runs := S,
     es_trace := es_trace e @ [Inl l, Inr S]\<rparr>"

lemma refused_state_simps [simp]:
  "es_lock (refused_state l e) = l" "es_runs (refused_state l e) = es_runs e" "es_met (refused_state l e) = es_met e"
  "es_ticks (refused_state l e) = es_ticks e + 2" "es_trace (refused_state l e) = es_trace e @ [Inl l]"
  by (simp_all add: refused_state_def)

lemma started_state_simps [simp]:
  "es_lock (started_state l S e) = l" "es_runs (started_state l S e) = S" "es_met (started_state l S e) = es_met e"
  "es_ticks (started_state l S e) = es_ticks e + 3" "es_trace (started_state l S e) = es_trace e @ [Inl l, Inr S]"
  by (simp_all add: started_state_def)

text \<open>What the engine relies on of its openers: they open paged sources and counting targets.\<close>

locale engine_contract =
  fixes E :: "('t, 'l, 'w) Engine"
  assumes sources: "en_OpenSource E typ dsn w = (Inr src, w') \<Longrightarrow> paged_source src"
    and targets: "en_OpenTarget E typ dsn w = (Inr tgt, w') \<Longrightarrow> counting_target tgt"
begin

lemma run_body_outcome:
  assumes "0 < tg_BatchSize (tk_Target t)" "fresh_result res"
  shows "maxPageCap < tk_PageSize t \<and> run_body E t tok runID res (e, w) = None \<or>
    (\<exists>res' e' w'. run_body E t tok runID res (e, w) = Some (res', e', w') \<and>
      outcome res res' \<and> body_rel E t res' e e')"
proof -
  obtain so w1 where so: "en_OpenSource E (ep_Type (tk_Source t)) (ep_DSN (tk_Source t)) w = (so, w1)"
    by (cases "en_OpenSource E (ep_Type (tk_Source t)) (ep_DSN (tk_Source t)) w")
  show ?thesis
  proof (cases so)
    case (Inl x)
    with so fresh_failed [OF assms(2)] frame_body_rel [OF frame_refl] show ?thesis
      by (auto simp: run_body_def)
  next
    case src: (Inr src)
    obtain ta w2 where ta: "en_OpenTarget E (ep_Type (tg_Endpoint (tk_Target t))) (ep_DSN (tg_Endpoint (tk_Target t))) w1 = (ta, w2)"
      by (cases "en_OpenTarget E (ep_Type (tg_Endpoint (tk_Target t))) (ep_DSN (tg_Endpoint (tk_Target t))) w1")
    show ?thesis
    proof (cases ta)
      case (Inl x)
      with so src ta fresh_failed [OF assms(2)] frame_body_rel [OF frame_refl] show ?thesis
        by (auto simp: run_body_def)
    next
      case (Inr tgt)
      have "paged_source src" "counting_target tgt"
        using sources so src targets ta Inr by blast+
      from counting_target.run_stream_outcome [OF this(2,1) assms, of E tok runID e w2]
      show ?thesis using so src ta Inr by (auto simp: run_body_def)
    qed
  qed
qed

text \<open>The ways through \<open>RunTask\<close>: the lock refused, or granted and then the body.\<close>

lemma RunTask_skipped:
  assumes "lk_Acquire (en_Reg E) (en_clock E (es_ticks e + 1)) (tk_Name t) (es_lock e) = (None, l)"
  shows "RunTask E t trigger (e, w) =
    (case run_skipped E t trigger (en_clock E (es_ticks e)) (empty_result (tk_Name t) trigger)
       (refused_state l e) of (res, e) \<Rightarrow> Some (res, e, w))"
  using assms by (simp add: RunTask_def time_Now_def Let_def refused_state_def set_lock_def)

lemma RunTask_acquired:
  assumes "lk_Acquire (en_Reg E) (en_clock E (es_ticks e + 1)) (tk_Name t) (es_lock e) = (Some tok, l)"
    and "StartRun (en_clock E (es_ticks e + 2)) (tk_Name t) trigger (es_runs e) = (r, S)"
    and "0 < tg_BatchSize (tk_Target t)"
  defines "e2 \<equiv> started_state l S e"
    and "runID \<equiv> (case r of Inl _ \<Rightarrow> 0 | Inr i \<Rightarrow> i)"
  shows "maxPageCap < tk_PageSize t \<and> RunTask E t trigger (e, w) = None \<or>
    (\<exists>res1 e1 w1. run_body E t tok runID (empty_result (tk_Name t) trigger) (e2, w) = Some (res1, e1, w1) \<and>
      outcome (empty_result (tk_Name t) trigger) res1 \<and> body_rel E t res1 e2 e1 \<and>
      RunTask E t trigger (e, w) =
        (case finish E t (en_clock E (es_ticks e)) tok runID (res1, e1) of (res, e') \<Rightarrow> Some (res, e', w1)))"
proof -
  have "RunTask E t trigger (e, w) =
      (case run_body E t tok runID (empty_result (tk_Name t) trigger) (e2, w) of
         None \<Rightarrow> None
       | Some (res, e', w) \<Rightarrow>
           (case finish E t (en_clock E (es_ticks e)) tok runID (res, e') of (res, e') \<Rightarrow> Some (res, e', w)))"
    using assms(1,2) unfolding e2_def runID_def
    by (simp add: RunTask_def time_Now_def Let_def numeral_3_eq_3 started_state_def set_lock_def set_runs_def)
  with run_body_outcome [OF assms(3) fresh_empty, of tok runID "tk_Name t" trigger e2 w] show ?thesis by auto
qed


end

lemma NewEngine_float [simp]: "en_float (NewEngine D reg clk F) = F"
  by (simp add: NewEngine_def)

lemma NewEngine_source:
  "en_OpenSource (NewEngine D reg clk F) typ dsn w = (Inr src, w') \<Longrightarrow> \<exists>c. src = sql_source D c"
  by (auto simp: NewEngine_def split: prod.splits dest!: map_sum_eq_Inr)

lemma NewEngine_target:
  "en_OpenTarget (NewEngine D reg clk F) typ dsn w = (Inr tgt, w') \<Longrightarrow> \<exists>c. tgt = sql_target D c"
  by (auto simp: NewEngine_def split: prod.splits dest!: map_sum_eq_Inr)

interpretation prog: engine_contract "NewEngine D reg clk F" for D reg clk F
  by (rule engine_contract.intro)
    (auto dest!: NewEngine_source NewEngine_target simp: sql_src.paged_source_axioms sql.counting_target_axioms)

end
