(* ===== verification/EngineProps.thy ===== *)
theory EngineProps
  imports EngineRuns
begin

text \<open>
  The properties of \<open>RunTask\<close> with the program's own connections (\<open>NewEngine\<close>), for every
  behaviour of the database drivers, every locker, clock and run log.
\<close>

section \<open>The end of a run\<close>

lemma FinishRun_store:
  assumes "FinishRun F now i res S = (oe, S')"
  shows "st_state S' = st_state S" "st_faults S = [] \<Longrightarrow> st_faults S' = [] \<and>
      st_runs S' = map (\<lambda>row. if rw_id row = i then finish_row F now res row else row) (st_runs S) \<and>
      st_run_seq S' = st_run_seq S"
proof -
  show "st_state S' = st_state S" using assms by (auto elim!: FinishRun_cases)
  show "st_faults S' = [] \<and>
      st_runs S' = map (\<lambda>row. if rw_id row = i then finish_row F now res row else row) (st_runs S) \<and>
      st_run_seq S' = st_run_seq S" if "st_faults S = []"
    using assms that by (auto simp: FinishRun_def sql_def)
qed

lemma StartRun_state: "StartRun now task trigger S = (r, S') \<Longrightarrow> st_state S' = st_state S"
  by (auto elim!: StartRun_cases)

definition observed :: "Task \<Rightarrow> RunResult \<Rightarrow> observation" where
  "observed t res = \<lparr>ob_task = tk_Name t, ob_status = rr_Status res, ob_ok = rr_OKRows res,
     ob_fail = rr_FailRows res, ob_duration = rr_Duration res\<rparr>"

lemma finish_facts:
  assumes "finish E t start tok runID (res, e) = (res', e')"
  shows "\<exists>d. res' = res\<lparr>rr_Duration := d\<rparr>"
    and "es_met e' = es_met e @ [observed t res']"
    and "es_lock e' = lk_Release (en_Reg E) tok (es_lock e)"
    and "st_state (es_runs e') = st_state (es_runs e)"
    and "st_faults (es_runs e) = [] \<Longrightarrow> 0 < runID \<Longrightarrow> \<exists>now. st_runs (es_runs e') =
      map (\<lambda>row. if rw_id row = runID then finish_row (en_float E) now res' row else row) (st_runs (es_runs e))"
proof -
  define r where "r = res\<lparr>rr_Duration := inst (en_clock E (es_ticks e)) - inst start\<rparr>"
  define now where "now = en_clock E (es_ticks e + 1)"
  obtain oe S where f: "FinishRun (en_float E) now runID r (es_runs e) = (oe, S)" by (cases "FinishRun (en_float E) now runID r (es_runs e)")
  have res': "res' = r" and e': "e' = (let e1 = (if 0 < runID then set_runs S (e\<lparr>es_ticks := es_ticks e + 2\<rparr>)
        else e\<lparr>es_ticks := es_ticks e + 1\<rparr>)
      in set_lock (lk_Release (en_Reg E) tok (es_lock e)) (e1\<lparr>es_met := es_met e @ [observed t r]\<rparr>))"
    using assms f unfolding r_def now_def
    by (auto simp: finish_def time_Now_def Let_def ObserveRun_def observed_def set_runs_def set_lock_def)
  show "\<exists>d. res' = res\<lparr>rr_Duration := d\<rparr>" unfolding res' r_def by blast
  show "es_met e' = es_met e @ [observed t res']" "es_lock e' = lk_Release (en_Reg E) tok (es_lock e)"
    by (simp_all add: e' res' Let_def set_runs_def set_lock_def)
  show "st_state (es_runs e') = st_state (es_runs e)"
    using FinishRun_store(1) [OF f] by (simp add: e' Let_def set_runs_def set_lock_def)
  show "\<exists>now. st_runs (es_runs e') =
      map (\<lambda>row. if rw_id row = runID then finish_row (en_float E) now res' row else row) (st_runs (es_runs e))"
    if "st_faults (es_runs e) = []" "0 < runID"
    using FinishRun_store(2) [OF f that(1)] that(2) by (intro exI [of _ now]) (simp add: e' res' Let_def set_runs_def set_lock_def)
qed

section \<open>Both ways through a run\<close>

definition final :: "Task \<Rightarrow> string \<Rightarrow> RunResult \<Rightarrow> bool" where
  "final t trigger res \<longleftrightarrow>
     counted (rr_TotalRows res) res \<and> rr_Task res = tk_Name t \<and> rr_Trigger res = trigger \<and>
     (rr_Status res = Succeeded \<and> rr_Err res = None \<and> (rr_TotalRows res = 0 \<or> 0 < rr_OKRows res) \<or>
      rr_Status res = Failed \<and> rr_Err res \<noteq> None)"

lemma final_outcome:
  "outcome (empty_result (tk_Name t) trigger) res \<Longrightarrow> final t trigger (res\<lparr>rr_Duration := d\<rparr>)"
  by (auto simp: outcome_def final_def empty_result_def counted_def)

text \<open>The result of the skipped branch.\<close>

definition skipped_result :: "Task \<Rightarrow> string \<Rightarrow> int \<Rightarrow> RunResult" where
  "skipped_result t trigger d =
     \<lparr>rr_Task = tk_Name t, rr_Trigger = trigger, rr_Status = Skipped, rr_TotalRows = 0, rr_OKRows = 0,
      rr_FailRows = 0, rr_Duration = d, rr_Err = Some (Errorf ''previous run still active'' []), rr_Samples = []\<rparr>"

lemma run_skipped_facts:
  assumes "run_skipped E t trigger start (empty_result (tk_Name t) trigger) e = (res, e')"
  shows "\<exists>d. res = skipped_result t trigger d"
    and "es_met e' = es_met e @ [observed t res]" "es_lock e' = es_lock e"
    and "st_state (es_runs e') = st_state (es_runs e)"
    and "st_faults (es_runs e) = [] \<Longrightarrow> store_ok (es_runs e) \<Longrightarrow>
      \<exists>t0 t1. st_runs (es_runs e') = st_runs (es_runs e) @
        [finish_row (en_float E) t1 res (started_row t0 (tk_Name t) trigger (st_run_seq (es_runs e) + 1))]"
proof -
  define r where "r = skipped_result t trigger (inst (en_clock E (es_ticks e)) - inst start)"
  define t0 where "t0 = en_clock E (es_ticks e + 1)"
  define t1 where "t1 = en_clock E (es_ticks e + 2)"
  obtain x S where s: "StartRun t0 (tk_Name t) trigger (es_runs e) = (x, S)"
    by (cases "StartRun t0 (tk_Name t) trigger (es_runs e)")
  have eqs: "res = r" "es_met e' = es_met e @ [observed t r]" "es_lock e' = es_lock e"
    "es_runs e' = (case x of Inl _ \<Rightarrow> S | Inr i \<Rightarrow> snd (FinishRun (en_float E) t1 i r S))"
    using assms s unfolding r_def t0_def t1_def
    by (auto simp: run_skipped_def time_Now_def Let_def ObserveRun_def observed_def empty_result_def
        skipped_result_def numeral_2_eq_2 set_runs_def split: sum.splits prod.splits)
  show "\<exists>d. res = skipped_result t trigger d" unfolding eqs r_def by blast
  show "es_met e' = es_met e @ [observed t res]" "es_lock e' = es_lock e" by (simp_all add: eqs)
  show "st_state (es_runs e') = st_state (es_runs e)"
    using StartRun_state [OF s] FinishRun_store(1) [of "en_float E" t1 _ r S, OF prod.collapse [symmetric]]
    by (simp add: eqs split: sum.split)
  show "\<exists>t0 t1. st_runs (es_runs e') = st_runs (es_runs e) @
      [finish_row (en_float E) t1 res (started_row t0 (tk_Name t) trigger (st_run_seq (es_runs e) + 1))]"
    if "st_faults (es_runs e) = []" "store_ok (es_runs e)"
  proof -
    let ?i = "st_run_seq (es_runs e) + 1"
    have S: "x = Inr ?i" "st_faults S = []" "st_runs S = st_runs (es_runs e) @ [started_row t0 (tk_Name t) trigger ?i]"
      using s that(1) by (auto simp: StartRun_def sql_def Let_def)
    have "\<forall>r \<in> set (st_runs (es_runs e)). rw_id r \<noteq> ?i" using that(2) by (auto simp: store_ok_def)
    then have "map (\<lambda>row. if rw_id row = ?i then finish_row (en_float E) t1 r row else row) (st_runs S) =
        st_runs (es_runs e) @ [finish_row (en_float E) t1 r (started_row t0 (tk_Name t) trigger ?i)]"
      by (simp add: S(3) started_row_def map_idI)
    then show ?thesis
      using FinishRun_store(2) [of "en_float E" t1 ?i r S, OF prod.collapse [symmetric] S(2)] by (auto simp: eqs S(1))
  qed
qed

context engine_contract
begin

lemma RunTask_skips:
  assumes "lk_Acquire (en_Reg E) (en_clock E (es_ticks e + 1)) (tk_Name t) (es_lock e) = (None, l)"
  obtains res e' d where "RunTask E t trigger (e, w) = Some (res, e', w)" "res = skipped_result t trigger d"
    "es_met e' = es_met e @ [observed t res]" "es_lock e' = l"
    "st_state (es_runs e') = st_state (es_runs e)"
    "st_faults (es_runs e) = [] \<Longrightarrow> store_ok (es_runs e) \<Longrightarrow>
      \<exists>t0 t1. st_runs (es_runs e') = st_runs (es_runs e) @
        [finish_row (en_float E) t1 res (started_row t0 (tk_Name t) trigger (st_run_seq (es_runs e) + 1))]"
proof -
  let ?e = "refused_state l e"
  obtain res e' where s: "run_skipped E t trigger (en_clock E (es_ticks e)) (empty_result (tk_Name t) trigger) ?e = (res, e')"
    by (cases "run_skipped E t trigger (en_clock E (es_ticks e)) (empty_result (tk_Name t) trigger) ?e")
  have "RunTask E t trigger (e, w) = Some (res, e', w)" using RunTask_skipped [OF assms, of trigger w] s by simp
  with run_skipped_facts [OF s] show thesis by (auto intro: that)
qed

lemma RunTask_runs:
  assumes acq: "lk_Acquire (en_Reg E) (en_clock E (es_ticks e + 1)) (tk_Name t) (es_lock e) = (Some tok, l)"
    and batch: "0 < tg_BatchSize (tk_Target t)"
  obtains (panicked) "maxPageCap < tk_PageSize t" "RunTask E t trigger (e, w) = None"
  | (ran) res e' w' where "RunTask E t trigger (e, w) = Some (res, e', w')" "final t trigger res"
    "es_met e' = es_met e @ [observed t res]"
    "wm_step t res (es_runs e) (es_runs e')"
    "lk_Renew (en_Reg E) = None \<Longrightarrow> es_lock e' = lk_Release (en_Reg E) tok l"
    "st_faults (es_runs e) = [] \<Longrightarrow> store_ok (es_runs e) \<Longrightarrow>
      \<exists>t0 t1. st_runs (es_runs e') = st_runs (es_runs e) @
        [finish_row (en_float E) t1 res (started_row t0 (tk_Name t) trigger (st_run_seq (es_runs e) + 1))]"
proof -
  obtain r S where st: "StartRun (en_clock E (es_ticks e + 2)) (tk_Name t) trigger (es_runs e) = (r, S)"
    by (cases "StartRun (en_clock E (es_ticks e + 2)) (tk_Name t) trigger (es_runs e)")
  define e2 where "e2 = started_state l S e"
  define runID where "runID = (case r of Inl _ \<Rightarrow> 0 | Inr i \<Rightarrow> i)"
  show thesis
  proof (cases "maxPageCap < tk_PageSize t \<and> RunTask E t trigger (e, w) = None")
    case False
  then obtain res1 e1 w1 where b: "outcome (empty_result (tk_Name t) trigger) res1" "body_rel E t res1 e2 e1"
    "RunTask E t trigger (e, w) =
      (case finish E t (en_clock E (es_ticks e)) tok runID (res1, e1) of (res, e') \<Rightarrow> Some (res, e', w1))"
    using RunTask_acquired [OF acq st batch, of w] unfolding e2_def runID_def by blast
  obtain res e' where f: "finish E t (en_clock E (es_ticks e)) tok runID (res1, e1) = (res, e')"
    by (cases "finish E t (en_clock E (es_ticks e)) tok runID (res1, e1)")
  obtain d where d: "res = res1\<lparr>rr_Duration := d\<rparr>" using finish_facts(1) [OF f] by blast
  show thesis
  proof (rule ran)
    show "RunTask E t trigger (e, w) = Some (res, e', w1)" using b(3) f by simp
    show "final t trigger res" using final_outcome [OF b(1)] by (simp add: d)
    show "es_met e' = es_met e @ [observed t res]"
      using finish_facts(2) [OF f] b(2) by (simp add: body_rel_def frame_def e2_def)
    show "wm_step t res (es_runs e) (es_runs e')"
      using finish_facts(4) [OF f] b(2) StartRun_state [OF st]
      by (simp add: body_rel_def wm_step_def e2_def d)
    show "es_lock e' = lk_Release (en_Reg E) tok l" if "lk_Renew (en_Reg E) = None"
      using finish_facts(3) [OF f] b(2) that by (simp add: body_rel_def frame_def e2_def)
    show "\<exists>t0 t1. st_runs (es_runs e') = st_runs (es_runs e) @
        [finish_row (en_float E) t1 res (started_row t0 (tk_Name t) trigger (st_run_seq (es_runs e) + 1))]"
      if "st_faults (es_runs e) = []" "store_ok (es_runs e)"
    proof -
      let ?i = "st_run_seq (es_runs e) + 1" and ?t0 = "en_clock E (es_ticks e + 2)"
      have S: "r = Inr ?i" "st_faults S = []" "st_runs S = st_runs (es_runs e) @ [started_row ?t0 (tk_Name t) trigger ?i]"
        using st that(1) by (auto simp: StartRun_def sql_def Let_def)
      have e1: "st_faults (es_runs e1) = []" "st_runs (es_runs e1) = st_runs S"
        using b(2) S(2) by (auto simp: body_rel_def frame_def e2_def)
      have "0 < runID" using that(2) S(1) by (simp add: runID_def store_ok_def)
      then obtain t1 where m: "st_runs (es_runs e') =
          map (\<lambda>row. if rw_id row = runID then finish_row (en_float E) t1 res row else row) (st_runs (es_runs e1))"
        using finish_facts(5) [OF f e1(1)] by blast
      have "\<forall>r \<in> set (st_runs (es_runs e)). rw_id r \<noteq> ?i" using that(2) by (auto simp: store_ok_def)
      then have "st_runs (es_runs e') = st_runs (es_runs e) @
          [finish_row (en_float E) t1 res (started_row ?t0 (tk_Name t) trigger ?i)]"
        by (simp add: m e1(2) S(3) runID_def S(1) started_row_def map_idI)
      then show ?thesis by blast
    qed
  qed
  qed (use panicked in blast)
qed

lemma RunTask_result:
  assumes "0 < tg_BatchSize (tk_Target t)"
  obtains (panicked) "maxPageCap < tk_PageSize t" "RunTask E t trigger (e, w) = None"
  | (skipped) l res e' d where
    "lk_Acquire (en_Reg E) (en_clock E (es_ticks e + 1)) (tk_Name t) (es_lock e) = (None, l)"
    "RunTask E t trigger (e, w) = Some (res, e', w)" "res = skipped_result t trigger d"
    "es_met e' = es_met e @ [observed t res]" "es_lock e' = l"
    "st_state (es_runs e') = st_state (es_runs e)"
    "st_faults (es_runs e) = [] \<Longrightarrow> store_ok (es_runs e) \<Longrightarrow>
      \<exists>t0 t1. st_runs (es_runs e') = st_runs (es_runs e) @
        [finish_row (en_float E) t1 res (started_row t0 (tk_Name t) trigger (st_run_seq (es_runs e) + 1))]"
  | (ran) tok l res e' w' where
    "lk_Acquire (en_Reg E) (en_clock E (es_ticks e + 1)) (tk_Name t) (es_lock e) = (Some tok, l)"
    "RunTask E t trigger (e, w) = Some (res, e', w')" "final t trigger res"
    "es_met e' = es_met e @ [observed t res]"
    "wm_step t res (es_runs e) (es_runs e')"
    "lk_Renew (en_Reg E) = None \<Longrightarrow> es_lock e' = lk_Release (en_Reg E) tok l"
    "st_faults (es_runs e) = [] \<Longrightarrow> store_ok (es_runs e) \<Longrightarrow>
      \<exists>t0 t1. st_runs (es_runs e') = st_runs (es_runs e) @
        [finish_row (en_float E) t1 res (started_row t0 (tk_Name t) trigger (st_run_seq (es_runs e) + 1))]"
proof -
  obtain a l where a: "lk_Acquire (en_Reg E) (en_clock E (es_ticks e + 1)) (tk_Name t) (es_lock e) = (a, l)"
    by (cases "lk_Acquire (en_Reg E) (en_clock E (es_ticks e + 1)) (tk_Name t) (es_lock e)")
  show thesis
  proof (cases a)
    case None
    then show thesis using RunTask_skips a skipped by metis
  next
    case (Some tok)
    with a have acq: "lk_Acquire (en_Reg E) (en_clock E (es_ticks e + 1)) (tk_Name t) (es_lock e) = (Some tok, l)" by simp
    from acq assms show thesis
      by (rule RunTask_runs [where trigger = trigger and w = w]) (rule panicked, assumption+, rule ran [OF acq])
  qed
qed

end

text \<open>What a run needs of its task to return: batches that advance and pages that can be
  allocated.\<close>

definition sizes_ok :: "Task \<Rightarrow> bool" where
  "sizes_ok t \<longleftrightarrow> 0 < tg_BatchSize (tk_Target t) \<and> tk_PageSize t \<le> maxPageCap"

context engine_contract
begin

lemma RunTask_returns:
  assumes "sizes_ok t"
  obtains res e' w' where "RunTask E t trigger (e, w) = Some (res, e', w')"
proof -
  from assms have "0 < tg_BatchSize (tk_Target t)" by (simp add: sizes_ok_def)
  then show thesis
    by (cases rule: RunTask_result [where trigger = trigger and e = e and w = w])
      (use assms that in \<open>auto simp: sizes_ok_def\<close>)
qed

end

section \<open>A concrete run\<close>

text \<open>Drivers whose query returns three rows and whose world is the list of values written; a
  statement with a bad value among its arguments fails.\<close>

definition demo_rows :: "go_value list list" where
  "demo_rows = [[VInt64 1, VBytes ''a''], [VInt64 2, VBytes ''b''], [VInt64 3, VNil]]"

definition demo_drivers :: "(go_value \<Rightarrow> bool) \<Rightarrow> go_value list bulk_drivers" where
  "demo_drivers bad =
     \<lparr>drv_open = \<lambda>_ _ w. (None, w), drv_ping = \<lambda>_ _ w. (None, w), drv_close = \<lambda>_ _ w. (None, w),
      drv_query = \<lambda>_ _ q w. (Inr \<lparr>rs_cols = Inr [''id'', ''v''], rs_fetches = map FRow demo_rows, rs_err = None\<rparr>, w),
      drv_exec = \<lambda>_ _ q args w. (if list_ex bad args then (Some (External ''rejected''), w) else (None, w @ args)),
      bd_conn = \<lambda>_ _ w. (None, w), bd_conn_close = \<lambda>_ _ w. (None, w), bd_exec = \<lambda>_ _ q w. (None, w),
      bd_is_pgx = False, bd_copy = \<lambda>_ dst cols rows w. (None, w), bd_prepare = \<lambda>_ stage cols w. (None, w),
      bd_send = \<lambda>_ vals w. (None, w), bd_flush = \<lambda>_ w. (None, w), bd_stmt_close = \<lambda>_ w. (None, w),
      bd_now = \<lambda>w. (GoTime 0 0, w)\<rparr>"

definition demo_clock :: "nat \<Rightarrow> gotime" where
  "demo_clock n = GoTime (int n) 0"

definition demo_engine :: "(go_value \<Rightarrow> bool) \<Rightarrow> (Token, Registry, go_value list) Engine" where
  "demo_engine bad = NewEngine (demo_drivers bad) registry_locker demo_clock bits_text"

definition demo_task :: Task where
  "demo_task = \<lparr>tk_Name = ''t'', tk_Schedule = [], tk_Timeout = [], tk_Enabled = None, tk_PageSize = 5000,
     tk_Source = \<lparr>ep_Type = ''sqlite'', ep_DSN = ''s'', ep_DSNEnv = [], ep_Query = ''SELECT''\<rparr>,
     tk_Target = \<lparr>tg_Endpoint = \<lparr>ep_Type = ''sqlite'', ep_DSN = ''d'', ep_DSNEnv = [], ep_Query = []\<rparr>,
       tg_Table = ''users'', tg_Mode = ''upsert'', tg_Keys = [''id''], tg_BatchSize = 500, tg_Bulk = False\<rparr>,
     tk_Incremental = None, tk_TimeoutDur = 1800000000000, tk_IsEnabled = True\<rparr>"

definition never :: "go_value \<Rightarrow> bool" where
  "never v = False"

definition is_null :: "go_value \<Rightarrow> bool" where
  "is_null v = (v = VNil)"

definition demo_state :: "Registry EngineState" where
  "demo_state = \<lparr>es_lock = NewRegistry, es_runs = new_store, es_met = [], es_ticks = 0, es_trace = []\<rparr>"

lemma demo_sizes: "sizes_ok demo_task"
  by (simp add: sizes_ok_def demo_task_def maxPageCap_def)

lemma demo_returns:
  obtains res e' w' where "RunTask (demo_engine bad) demo_task trigger (demo_state, w) = Some (res, e', w')"
  by (rule prog.RunTask_returns [OF demo_sizes, where D = "demo_drivers bad" and reg = registry_locker and clk = demo_clock
      and F = bits_text, folded demo_engine_def, where e = demo_state and trigger = trigger and w = w]) (rule that)

lemma registry_kept:
  assumes "RunTask (NewEngine D registry_locker clk F) t trigger (e, w) = Some (res, e', w')"
    and "0 < tg_BatchSize (tk_Target t)"
  shows "reg_running (es_lock e') = reg_running (es_lock e)"
  using assms(2)
proof (cases rule: prog.RunTask_result [where D = D and reg = registry_locker and clk = clk and F = F and trigger = trigger and e = e and w = w])
  case panicked
  with assms(1) show ?thesis by simp
next
  case skipped
  with assms(1) show ?thesis by (auto simp: NewEngine_def registry_locker_def lock_simps)
next
  case (ran tok l res1 e1 w1)
  have acq: "Acquire (tk_Name t) (es_lock e) = (Some tok, l)"
    using ran(1) by (simp add: NewEngine_def registry_locker_def)
  have "es_lock e' = Release (Some tok) l"
    using ran(2,6) assms(1) by (simp add: NewEngine_def registry_locker_def)
  with acq show ?thesis by (auto simp: lock_simps Release_def)
qed

lemma recorded_once:
  assumes "RunTask (NewEngine D reg clk F) t trigger (e, w) = Some (res, e', w')"
    and "0 < tg_BatchSize (tk_Target t)" and "st_faults (es_runs e) = []" "store_ok (es_runs e)"
  shows "es_met e' = es_met e @ [observed t res] \<and>
    (\<exists>row t1. st_runs (es_runs e') = st_runs (es_runs e) @ [row] \<and>
      rw_id row = st_run_seq (es_runs e) + 1 \<and> rw_task row = tk_Name t \<and> rw_trigger_kind row = trigger \<and>
      rw_status row = rr_Status res \<and> rw_total_rows row = rr_TotalRows res \<and> rw_ok_rows row = rr_OKRows res \<and>
      rw_fail_rows row = rr_FailRows res \<and> rw_error row = Some (opt_text F (rr_Err res)) \<and> rw_samples row = Some (samples_text F (rr_Samples res)) \<and>
      rw_finished_at row = Some (nowUTC t1))"
proof -
  have "es_met e' = es_met e @ [observed t res] \<and>
    (\<exists>t0 t1. st_runs (es_runs e') = st_runs (es_runs e) @
        [finish_row F t1 res (started_row t0 (tk_Name t) trigger (st_run_seq (es_runs e) + 1))])"
    using assms(2)
  proof (cases rule: prog.RunTask_result [where D = D and reg = reg and clk = clk and F = F and trigger = trigger and e = e and w = w])
    case panicked
    with assms(1) show ?thesis by simp
  next
    case skipped
    with assms(1) show ?thesis using skipped(7) assms(3,4) by auto
  next
    case ran
    with assms(1) show ?thesis using ran(7) assms(3,4) by auto
  qed
  then show ?thesis by (auto simp: finish_row_def started_row_def)
qed

section \<open>Properties\<close>

text \<open>
  C12: a task of a validated configuration whose pages can be allocated always runs to its
  end: for every behaviour of the drivers (open, ping, query, scan, statement and bulk errors
  included), every locker and run log, \<open>RunTask\<close> returns a result; the batch loop ends and
  slices no page out of range. The bound on the page size is needed, as validation sets none
  and a larger page makes the run panic (\<open>huge_page_size_panics\<close>); cursors are finite, as the
  deadline of the run ends them.
\<close>
theorem run_task_returns:
  assumes "Validate env c = (None, c')" "t \<in> set c'" "tk_PageSize t \<le> maxPageCap"
  shows "\<exists>res e' w'. RunTask (NewEngine D reg clk F) t trigger (e, w) = Some (res, e', w')"
proof -
  have "sizes_ok t" using validated_batch [OF assms(1,2)] assms(3) by (simp add: sizes_ok_def)
  then show ?thesis by (rule prog.RunTask_returns) blast
qed

theorem run_task_returns_witness:
  "\<exists>res e' w'. RunTask (demo_engine never) (validated no_env sample_task) ''manual'' (demo_state, []) = Some (res, e', w')"
  unfolding demo_engine_def
  by (rule run_task_returns [OF sample_validates]) (simp_all add: sample_task_def validated_def sample_endpoint_def maxPageCap_def)

text \<open>A larger page size passes validation and panics at the first query that succeeds.\<close>

definition huge_task :: Task where
  "huge_task = sample_task\<lparr>tk_PageSize := 99999999999999\<rparr>"

theorem huge_page_size_panics:
  "Validate no_env [huge_task] = (None, [validated no_env huge_task]) \<and>
    RunTask (demo_engine never) (validated no_env huge_task) ''manual'' (demo_state, []) = None"
proof
  have "ParseDuration ''90s'' = Some 90000000000" by code_simp
  then show "Validate no_env [huge_task] = (None, [validated no_env huge_task])"
    by (simp add: Validate_ok acceptable_def huge_task_def sample_task_def sample_endpoint_def no_env_def supportedTypes_def
        resolveDSN_def incremental_ok_def)
  have "maxPageCap < tk_PageSize (validated no_env huge_task)" by (simp add: validated_def huge_task_def maxPageCap_def)
  then have "Stream c (Inr \<lparr>rs_cols = Inr cols, rs_fetches = fs, rs_err = re\<rparr>) (tk_PageSize (validated no_env huge_task)) fn s = None"
    for c cols fs re s and fn :: "(Registry PageState \<times> go_value list) page_fn"
    by (rule Stream_panics)
  moreover have "ep_Type (tk_Source (validated no_env huge_task)) = ''sqlite''"
    "ep_Type (tg_Endpoint (tk_Target (validated no_env huge_task))) = ''sqlite''" "tk_Incremental (validated no_env huge_task) = None"
    by (simp_all add: validated_def huge_task_def sample_task_def sample_endpoint_def)
  ultimately show "RunTask (demo_engine never) (validated no_env huge_task) ''manual'' (demo_state, []) = None"
    by (simp add: RunTask_def run_body_def run_stream_def prepare_query_def demo_engine_def NewEngine_def demo_drivers_def
        sql_source_def OpenSource_def OpenTarget_def open_conn_def Connect_def time_Now_def registry_locker_def demo_state_def
        Acquire_def NewRegistry_def set_lock_def set_runs_def Let_def split: prod.split)
qed

text \<open>
  C7: every row handed over is accounted for, exactly once: whatever the path each batch
  took (bulk, batch or row by row), rows written plus rows failed is the number of rows
  the source delivered, neither count is negative, and one error is kept for each of the
  first twenty failed rows.
\<close>
theorem run_accounts_rows:
  assumes "RunTask (NewEngine D reg clk F) t trigger (e, w) = Some (res, e', w')"
    and "0 < tg_BatchSize (tk_Target t)"
  shows "rr_OKRows res + rr_FailRows res = rr_TotalRows res \<and> 0 \<le> rr_OKRows res \<and> 0 \<le> rr_FailRows res \<and>
    int (length (rr_Samples res)) = min (rr_FailRows res) 20"
  using assms(2)
proof (cases rule: prog.RunTask_result [where D = D and reg = reg and clk = clk and F = F and trigger = trigger and e = e and w = w])
  case panicked
  with assms(1) show ?thesis by simp
next
  case skipped
  with assms(1) show ?thesis by (auto simp: skipped_result_def)
next
  case ran
  with assms(1) show ?thesis by (auto simp: final_def counted_def)
qed

theorem run_accounts_rows_witness:
  "\<exists>res e' w'. RunTask (demo_engine never) demo_task ''manual'' (demo_state, []) = Some (res, e', w') \<and>
    rr_OKRows res + rr_FailRows res = rr_TotalRows res \<and> 0 \<le> rr_OKRows res \<and> 0 \<le> rr_FailRows res \<and>
    int (length (rr_Samples res)) = min (rr_FailRows res) 20"
proof -
  obtain res e' w' where r: "RunTask (demo_engine never) demo_task ''manual'' (demo_state, []) = Some (res, e', w')"
    by (rule demo_returns)
  show ?thesis
    using r run_accounts_rows [OF r [unfolded demo_engine_def]] by (auto simp: demo_task_def)
qed

text \<open>
  C8: a run ends in exactly one of three ways. Skipped: the lock was refused, and no row
  was touched. Succeeded: no error, and unless the source was empty at least one row was
  written. Failed: with an error text. No other status leaves \<open>RunTask\<close>, and the result
  carries the task's name and the trigger.
\<close>
theorem run_status_cases:
  assumes "RunTask (NewEngine D reg clk F) t trigger (e, w) = Some (res, e', w')"
    and "0 < tg_BatchSize (tk_Target t)"
  shows "rr_Task res = tk_Name t \<and> rr_Trigger res = trigger \<and>
    (case rr_Status res of
       Skipped \<Rightarrow> fst (lk_Acquire reg (clk (es_ticks e + 1)) (tk_Name t) (es_lock e)) = None \<and>
         rr_TotalRows res = 0 \<and> rr_Err res = Some (Errorf ''previous run still active'' [])
     | Succeeded \<Rightarrow> rr_Err res = None \<and> (rr_TotalRows res = 0 \<or> 0 < rr_OKRows res)
     | Failed \<Rightarrow> rr_Err res \<noteq> None
     | _ \<Rightarrow> False)"
  using assms(2)
proof (cases rule: prog.RunTask_result [where D = D and reg = reg and clk = clk and F = F and trigger = trigger and e = e and w = w])
  case panicked
  with assms(1) show ?thesis by simp
next
  case skipped
  with assms(1) show ?thesis by (auto simp: skipped_result_def NewEngine_def)
next
  case ran
  with assms(1) show ?thesis by (auto simp: final_def)
qed

theorem run_status_cases_witness:
  "\<exists>res e' w'. RunTask (demo_engine never) demo_task ''manual'' (demo_state, []) = Some (res, e', w') \<and>
    rr_Task res = ''t'' \<and> rr_Trigger res = ''manual'' \<and> rr_Status res \<notin> {NoStatus, Running, Interrupted}"
proof -
  obtain res e' w' where r: "RunTask (demo_engine never) demo_task ''manual'' (demo_state, []) = Some (res, e', w')"
    by (rule demo_returns)
  show ?thesis
    using r run_status_cases [OF r [unfolded demo_engine_def]] by (auto simp: demo_task_def split: RunStatus.splits)
qed

text \<open>
  C16: a trigger that loses the lock touches nothing it should not: with the lock refused the
  databases are not even opened, no watermark changes and the holder keeps the lock; the
  attempt itself is recorded as one skipped run and observed once.
\<close>
theorem skipped_run_touches_nothing:
  assumes "lk_Acquire reg (clk (es_ticks e + 1)) (tk_Name t) (es_lock e) = (None, l)"
  shows "\<exists>res e'. RunTask (NewEngine D reg clk F) t trigger (e, w) = Some (res, e', w) \<and>
    rr_Status res = Skipped \<and> rr_TotalRows res = 0 \<and> rr_OKRows res = 0 \<and> rr_FailRows res = 0 \<and>
    es_lock e' = l \<and> st_state (es_runs e') = st_state (es_runs e) \<and>
    es_met e' = es_met e @ [observed t res] \<and>
    (st_faults (es_runs e) = [] \<and> store_ok (es_runs e) \<longrightarrow>
      (\<exists>row. st_runs (es_runs e') = st_runs (es_runs e) @ [row] \<and> rw_status row = Skipped))"
proof -
  have acq: "lk_Acquire (en_Reg (NewEngine D reg clk F)) (en_clock (NewEngine D reg clk F) (es_ticks e + 1))
      (tk_Name t) (es_lock e) = (None, l)"
    using assms by (simp add: NewEngine_def)
  obtain res e' d where r: "RunTask (NewEngine D reg clk F) t trigger (e, w) = Some (res, e', w)"
    "res = skipped_result t trigger d" "es_met e' = es_met e @ [observed t res]" "es_lock e' = l"
    "st_state (es_runs e') = st_state (es_runs e)"
    "st_faults (es_runs e) = [] \<Longrightarrow> store_ok (es_runs e) \<Longrightarrow>
      \<exists>t0 t1. st_runs (es_runs e') = st_runs (es_runs e) @
        [finish_row F t1 res (started_row t0 (tk_Name t) trigger (st_run_seq (es_runs e) + 1))]"
    by (rule prog.RunTask_skips [OF acq, where trigger = trigger and w = w, unfolded NewEngine_float]) blast
  show ?thesis
  proof (intro exI [of _ res] exI [of _ e'] conjI impI)
    show "RunTask (NewEngine D reg clk F) t trigger (e, w) = Some (res, e', w)" by (rule r(1))
    assume "st_faults (es_runs e) = [] \<and> store_ok (es_runs e)"
    then show "\<exists>row. st_runs (es_runs e') = st_runs (es_runs e) @ [row] \<and> rw_status row = Skipped"
      using r(2,6) by (auto simp: finish_row_def skipped_result_def)
  qed (use r in \<open>simp_all add: skipped_result_def\<close>)
qed

theorem skipped_run_touches_nothing_witness:
  "\<exists>res e'. RunTask (demo_engine never) demo_task ''cron'' (demo_state\<lparr>es_lock := snd (Acquire ''t'' NewRegistry)\<rparr>, []) =
      Some (res, e', []) \<and> rr_Status res = Skipped \<and> es_lock e' = snd (Acquire ''t'' NewRegistry) \<and>
      (\<exists>row. st_runs (es_runs e') = [row])"
proof -
  let ?e = "demo_state\<lparr>es_lock := snd (Acquire ''t'' NewRegistry)\<rparr>"
  have "lk_Acquire registry_locker (demo_clock (es_ticks ?e + 1)) (tk_Name demo_task) (es_lock ?e) =
      (None, snd (Acquire ''t'' NewRegistry))"
    by (simp add: registry_locker_def demo_state_def demo_task_def Acquire_def NewRegistry_def Let_def)
  from skipped_run_touches_nothing [where reg = registry_locker and clk = demo_clock and e = ?e and t = demo_task
      and D = "demo_drivers never" and F = bits_text and trigger = "''cron''" and w = "[]", OF this, folded demo_engine_def]
  show ?thesis by (auto simp: demo_state_def new_store_def store_ok_def)
qed

text \<open>
  C6: the watermark moves only when it is safe: a stored watermark differs after a run only
  if it is the task's own, the task is incremental, the run succeeded and not a single row
  failed. A failed, partly failed or skipped run leaves every watermark where it was, so
  its window is read again.
\<close>
theorem watermark_moves_only_on_clean_run:
  assumes "RunTask (NewEngine D reg clk F) t trigger (e, w) = Some (res, e', w')"
    and "0 < tg_BatchSize (tk_Target t)"
    and "st_state (es_runs e') n \<noteq> st_state (es_runs e) n"
  shows "n = tk_Name t \<and> tk_Incremental t \<noteq> None \<and> rr_Status res = Succeeded \<and> rr_FailRows res = 0 \<and>
    rr_OKRows res = rr_TotalRows res"
  using assms(2)
proof (cases rule: prog.RunTask_result [where D = D and reg = reg and clk = clk and F = F and trigger = trigger and e = e and w = w])
  case panicked
  with assms(1) show ?thesis by simp
next
  case skipped
  with assms(1,3) show ?thesis by auto
next
  case ran
  with assms(1,3) show ?thesis by (auto simp: wm_step_def final_def counted_def)
qed

text \<open>
  The lock is given back: with the in-process registry a run that got the lock leaves
  exactly the task names running that ran before, whether it succeeded, failed to open a
  database or was refused by the source, so the next trigger of the task is not skipped.
\<close>
theorem registry_free_after_run:
  assumes "RunTask (NewEngine D registry_locker clk F) t trigger (e, w) = Some (res, e', w')"
    and "0 < tg_BatchSize (tk_Target t)"
  shows "reg_running (es_lock e') = reg_running (es_lock e)"
  using assms by (rule registry_kept)

theorem registry_free_after_run_witness:
  "\<exists>res e' w'. RunTask (demo_engine never) demo_task ''manual'' (demo_state, []) = Some (res, e', w') \<and>
    reg_running (es_lock e') = Map.empty"
proof -
  obtain res e' w' where r: "RunTask (demo_engine never) demo_task ''manual'' (demo_state, []) = Some (res, e', w')"
    by (rule demo_returns)
  show ?thesis
    using r registry_free_after_run [OF r [unfolded demo_engine_def]]
    by (auto simp: demo_task_def demo_state_def NewRegistry_def)
qed

text \<open>
  C15: one run, one record, one observation: on a healthy run log every call of \<open>RunTask\<close>
  appends exactly one row, with a fresh id, already finalized with the result it returns
  (status, counts, error, samples, an end time), keeps all earlier rows, and reports that
  same result to the metrics exactly once.
\<close>
theorem run_recorded_once:
  assumes "RunTask (NewEngine D reg clk F) t trigger (e, w) = Some (res, e', w')"
    and "0 < tg_BatchSize (tk_Target t)" and "st_faults (es_runs e) = []" "store_ok (es_runs e)"
  shows "es_met e' = es_met e @ [observed t res] \<and>
    (\<exists>row t1. st_runs (es_runs e') = st_runs (es_runs e) @ [row] \<and>
      rw_id row = st_run_seq (es_runs e) + 1 \<and> rw_task row = tk_Name t \<and> rw_trigger_kind row = trigger \<and>
      rw_status row = rr_Status res \<and> rw_total_rows row = rr_TotalRows res \<and> rw_ok_rows row = rr_OKRows res \<and>
      rw_fail_rows row = rr_FailRows res \<and> rw_error row = Some (opt_text F (rr_Err res)) \<and> rw_samples row = Some (samples_text F (rr_Samples res)) \<and>
      rw_finished_at row = Some (nowUTC t1))"
  using assms by (rule recorded_once)

theorem run_recorded_once_witness:
  "\<exists>res e' w' row. RunTask (demo_engine never) demo_task ''manual'' (demo_state, []) = Some (res, e', w') \<and>
    es_met e' = [observed demo_task res] \<and> st_runs (es_runs e') = [row] \<and> rw_id row = 1 \<and> rw_status row = rr_Status res"
proof -
  obtain res e' w' where r: "RunTask (demo_engine never) demo_task ''manual'' (demo_state, []) = Some (res, e', w')"
    by (rule demo_returns)
  have "0 < tg_BatchSize (tk_Target demo_task)" "st_faults (es_runs demo_state) = []" "store_ok (es_runs demo_state)"
    by (simp_all add: demo_task_def demo_state_def new_store_def store_ok_def)
  from run_recorded_once [OF r [unfolded demo_engine_def] this] r show ?thesis
    by (auto simp: demo_state_def new_store_def)
qed

text \<open>
  C18: the batch loop is chunking: a page is written as its consecutive chunks of the clamped
  batch size, in order and without gap or overlap, each chunk once; and no chunk binds more
  than 2000 parameters as long as a row has at most 2000 columns.
\<close>
theorem batches_are_chunks:
  assumes "0 < batch"
  shows "batch_loop tgt t cols (clampBatch batch (int (length cols))) page 0 s =
      Some (fold (write_batch tgt t cols) (chunks (nat (clampBatch batch (int (length cols)))) page) s) \<and>
    concat (chunks (nat (clampBatch batch (int (length cols)))) page) = page \<and>
    (\<forall>c \<in> set (chunks (nat (clampBatch batch (int (length cols)))) page).
      c \<noteq> [] \<and> int (length c) \<le> batch \<and>
      (length cols \<le> 2000 \<longrightarrow> length c * length cols \<le> 2000))"
proof (intro conjI ballI impI)
  let ?b = "clampBatch batch (int (length cols))"
  have pos: "0 < ?b" using assms by (rule clampBatch_pos)
  then show "batch_loop tgt t cols ?b page 0 s = Some (fold (write_batch tgt t cols) (chunks (nat ?b) page) s)"
    using batch_loop_chunks [of ?b 0] by simp
  show "concat (chunks (nat ?b) page) = page" using pos by (simp add: concat_chunks)
  fix c assume "c \<in> set (chunks (nat ?b) page)"
  then have c: "c \<noteq> []" "length c \<le> nat ?b" using chunks_bounds by auto
  show "c \<noteq> []" by fact
  show "int (length c) \<le> batch" using c(2) pos clampBatch_le [OF assms, of "int (length cols)"] by linarith
  assume le: "length cols \<le> 2000"
  show "length c * length cols \<le> 2000"
  proof (cases "cols = []")
    case False
    have "int (length c) * int (length cols) \<le> ?b * int (length cols)"
      by (rule mult_right_mono) (use c(2) pos in linarith, simp)
    also have "\<dots> \<le> 2000" using clampBatch_params [of "int (length cols)" batch] False le by simp
    finally show ?thesis by (simp flip: of_nat_mult)
  qed simp
qed

theorem batches_are_chunks_witness:
  "batch_loop (sql_target (demo_drivers never) log_conn) demo_task [''a'', ''b''] (clampBatch 500 2) [[], []] 0 (empty_result [] [], []) =
     Some (fold (write_batch (sql_target (demo_drivers never) log_conn) demo_task [''a'', ''b''])
       (chunks (nat (clampBatch 500 2)) [[], []]) (empty_result [] [], []))"
  using batches_are_chunks [of 500 "sql_target (demo_drivers never) log_conn" demo_task "[''a'', ''b'']" "[[], []]"
      "(empty_result [] [], [])"]
  by simp

end
