(* ===== verification/EngineCopy.thy ===== *)
theory EngineCopy
  imports EngineProps
begin

text \<open>
  What a run writes: with a target whose statements are atomic, the bulk, batch and row
  paths of the engine are invisible, and a run of a healthy source is a copy of the good
  rows, in order; with a watermark, its maximum is stored.
\<close>

section \<open>Atomic targets\<close>

text \<open>
  The contract of a SQL statement that writes a batch: it takes all rows when each is
  \<open>good\<close>, and otherwise fails and leaves the world as it was. It idealises: goodness belongs to
  a row alone, not to the table it meets or to the rows beside it, and a statement may be of
  any length (the engine sends at most the batch size, and at most the parameters a server
  admits, see \<open>batches_are_chunks\<close>). What a database does with a text that may also refuse for
  such reasons is the contract of Sqltable.
\<close>

definition atomic_writes ::
  "'w TargetConn \<Rightarrow> Task \<Rightarrow> string list \<Rightarrow> (row \<Rightarrow> bool) \<Rightarrow> (row \<Rightarrow> 'w \<Rightarrow> 'w) \<Rightarrow> bool" where
  "atomic_writes tgt t cols good put \<longleftrightarrow>
     (\<forall>chunk w. chunk \<noteq> [] \<longrightarrow>
       (if list_all good chunk then writeChunk tgt t cols chunk w = (Inr (int (length chunk)), fold put chunk w)
        else \<exists>e. writeChunk tgt t cols chunk w = (Inl e, w)))"

text \<open>\<open>s'\<close> is \<open>s\<close> after the good ones of \<open>rows\<close> were written and the others counted.\<close>

definition written ::
  "(row \<Rightarrow> bool) \<Rightarrow> (row \<Rightarrow> 'w \<Rightarrow> 'w) \<Rightarrow> row list \<Rightarrow> RunResult \<times> 'w \<Rightarrow> RunResult \<times> 'w \<Rightarrow> bool" where
  "written good put rows s s' \<longleftrightarrow>
     rr_OKRows (fst s') = rr_OKRows (fst s) + int (length (filter good rows)) \<and>
     rr_FailRows (fst s') = rr_FailRows (fst s) + int (length (filter (\<lambda>r. \<not> good r) rows)) \<and>
     same_head (fst s) (fst s') \<and> snd s' = fold put (filter good rows) (snd s)"

lemma written_Nil [simp]: "written good put [] s s"
  by (simp add: written_def)

lemma written_append: "written good put xs s s' \<Longrightarrow> written good put ys s' s'' \<Longrightarrow> written good put (xs @ ys) s s''"
  by (auto simp: written_def dest: same_head_trans)

lemma write_rows_atomic:
  "atomic_writes tgt t cols good put \<Longrightarrow> written good put rows s (write_rows tgt t cols rows s)"
proof (induction rows arbitrary: s)
  case (Cons r rs)
  obtain res w where s: "s = (res, w)" by (cases s)
  have a: "if good r then writeChunk tgt t cols [r] w = (Inr 1, put r w) else \<exists>e. writeChunk tgt t cols [r] w = (Inl e, w)"
    using Cons.prems by (auto simp: atomic_writes_def dest: spec [of _ "[r]"])
  obtain s1 where s1: "write_rows tgt t cols (r # rs) s = write_rows tgt t cols rs s1" "written good put [r] s s1"
  proof (cases "good r")
    case True
    with a show thesis by (intro that [of "(res\<lparr>rr_OKRows := rr_OKRows res + 1\<rparr>, put r w)"])
      (simp_all add: s written_def same_head_def)
  next
    case False
    with a obtain e where e: "writeChunk tgt t cols [r] w = (Inl e, w)" by auto
    show thesis
      by (rule that [of "(let res = res\<lparr>rr_FailRows := rr_FailRows res + 1\<rparr>
           in if length (rr_Samples res) < maxSamples then res\<lparr>rr_Samples := rr_Samples res @ [e]\<rparr> else res, w)"])
        (simp_all add: s e False written_def same_head_def Let_def)
  qed
  have "written good put ([r] @ rs) s (write_rows tgt t cols rs s1)"
    by (rule written_append [OF s1(2) Cons.IH [OF Cons.prems]])
  then show ?case by (simp add: s1(1))
qed simp

lemma write_batch_atomic:
  assumes a: "atomic_writes tgt t cols good put" and plain: "\<not> tg_Bulk (tk_Target t)" and chunk: "chunk \<noteq> []"
  shows "written good put chunk s (write_batch tgt t cols chunk s)"
proof -
  obtain res w where s: "s = (res, w)" by (cases s)
  have b: "write_batch tgt t cols chunk s = write_regular tgt t cols chunk s"
    using plain by (simp add: write_batch_def)
  show ?thesis
  proof (cases "list_all good chunk")
    case True
    then have "writeChunk tgt t cols chunk w = (Inr (int (length chunk)), fold put chunk w)"
      using a chunk by (auto simp: atomic_writes_def)
    moreover have "filter good chunk = chunk" "filter (\<lambda>r. \<not> good r) chunk = []"
      using True by (simp_all add: list_all_iff filter_empty_conv)
    ultimately show ?thesis by (simp add: b [unfolded s] s write_regular_def written_def same_head_def)
  next
    case False
    then obtain e where "writeChunk tgt t cols chunk w = (Inl e, w)" using a chunk unfolding atomic_writes_def by metis
    then have "write_batch tgt t cols chunk s = write_rows tgt t cols chunk s" by (simp add: b [unfolded s] s write_regular_def)
    then show ?thesis using write_rows_atomic [OF a] by simp
  qed
qed

lemma batches_atomic:
  assumes "atomic_writes tgt t cols good put" "\<not> tg_Bulk (tk_Target t)" "\<forall>c \<in> set cs. c \<noteq> []"
  shows "written good put (concat cs) s (fold (write_batch tgt t cols) cs s)"
  using assms(3)
proof (induction cs arbitrary: s)
  case (Cons c cs)
  then show ?case using written_append [OF write_batch_atomic [OF assms(1,2)]] by simp
qed simp

lemma batch_loop_atomic:
  assumes "atomic_writes tgt t cols good put" "\<not> tg_Bulk (tk_Target t)" "0 < b"
  shows "\<exists>s'. batch_loop tgt t cols b page 0 s = Some s' \<and> written good put page s s'"
proof -
  have "written good put (concat (chunks (nat b) page)) s (fold (write_batch tgt t cols) (chunks (nat b) page) s)"
    by (rule batches_atomic [OF assms(1,2)]) (use chunks_bounds in blast)
  moreover have "batch_loop tgt t cols b page 0 s = Some (fold (write_batch tgt t cols) (chunks (nat b) page) s)"
    using batch_loop_chunks [OF assms(3), of 0] by simp
  moreover have "concat (chunks (nat b) page) = page" using assms(3) by simp
  ultimately show ?thesis by metis
qed

section \<open>Rows of a healthy source\<close>

lemma scan_row_zip:
  assumes "distinct cols" "length vals = length cols"
  shows "scan_row cols vals = zip cols (map normalize vals)"
proof -
  have "fold (\<lambda>(c, v) m. row_put c (normalize v) m) (zip cols vals) m = m @ zip cols (map normalize vals)"
    if "distinct (map fst m @ cols)" "length vals = length cols" for m
    using that
  proof (induction cols arbitrary: vals m)
    case (Cons c cols)
    obtain v vs where vals: "vals = v # vs" "length vs = length cols"
      using Cons.prems(2) by (cases vals) auto
    have new: "row_put c (normalize v) m = m @ [(c, normalize v)]"
      using Cons.prems(1) by (induction m) (auto simp: row_put_def)
    show ?case
      using Cons.IH [of "m @ [(c, normalize v)]" vs] Cons.prems(1) vals by (simp add: new)
  qed simp
  from this [of "[]"] assms show ?thesis by (simp add: scan_row_def)
qed

lemma scan_row_cols: "distinct cols \<Longrightarrow> length vals = length cols \<Longrightarrow> map fst (scan_row cols vals) = cols"
  by (simp add: scan_row_zip)

lemma check_widths_same: "\<forall>r \<in> set rows. length r = n \<Longrightarrow> check_widths i n rows = None"
  by (induction rows arbitrary: i) auto

lemma first_missing_None: "first_missing ks r = None \<longleftrightarrow> set ks \<subseteq> fst ` set r"
  by (induction ks) (auto simp: row_has_iff)

text \<open>What the engine asks of the columns of a result set.\<close>

definition cols_fit :: "Task \<Rightarrow> string list \<Rightarrow> bool" where
  "cols_fit t cols \<longleftrightarrow>
     distinct cols \<and> list_all identRe cols \<and> set (tg_Keys (tk_Target t)) \<subseteq> set cols \<and>
     (case tk_Incremental t of None \<Rightarrow> True | Some inc \<Rightarrow> inc_Column inc \<in> set cols)"

lemma page_step_good:
  assumes fit: "cols_fit t cols" and page: "page \<noteq> []" "\<forall>r \<in> set page. map fst r = cols"
    and a: "atomic_writes tgt t (sort cols) good put" and plain: "\<not> tg_Bulk (tk_Target t)"
    and batch: "0 < tg_BatchSize (tk_Target t)"
    and o: "observe_page (ps_wm p) page = (None, wm)"
  shows "\<exists>p' w'. page_step E tgt t tok runID page (p, w) = Some (None, p', w') \<and>
    written good put page (ps_res p, w) (ps_res p', w') \<and> ps_wm p' = wm \<and>
    ps_totalSeen p' = ps_totalSeen p + int (length page) \<and>
    ps_es p' = page_done E tok runID (ps_totalSeen p') (ps_res p') (ps_es p)"
proof -
  have sc: "sortedCols (hd page) = sort cols" using page by (simp add: sortedCols_def)
  have hd: "fst ` set (hd page) = set cols" using page by (metis hd_in_set set_map)
  have v: "ValidateColumns (sort cols) = None" using fit by (auto simp: cols_fit_def ValidateColumns_None list_all_iff)
  have k: "check_keys t (sort cols) (hd page) = None"
    using fit by (auto simp: check_keys_def cols_fit_def first_missing_None hd row_has_iff split: option.splits)
  have "\<forall>r \<in> set page. length r = length (sort cols)" using page(2) by (metis length_map length_sort)
  then have wd: "check_widths 0 (length (sort cols)) page = None" by (rule check_widths_same)
  let ?b = "clampBatch (tg_BatchSize (tk_Target t)) (int (length (sort cols)))"
  obtain s' where s': "batch_loop tgt t (sort cols) ?b page 0 (ps_res p, w) = Some s'"
    "written good put page (ps_res p, w) s'"
    using batch_loop_atomic [OF a plain clampBatch_pos [OF batch]] by blast
  obtain res w' where rw: "s' = (res, w')" by (cases s')
  have chk: "(if ps_keysChecked p then None else check_keys t (sort cols) (hd page)) = None" using k by simp
  have o': "observe_page (ps_wm (p\<lparr>ps_keysChecked := True\<rparr>)) page = (None, wm)" using o by simp
  have loop: "batch_loop tgt t (sort cols) ?b page 0 (ps_res (p\<lparr>ps_keysChecked := True\<rparr>), w) = Some (res, w')"
    using s'(1) rw by simp
  let ?p = "p\<lparr>ps_keysChecked := True, ps_res := res, ps_wm := wm,
      ps_totalSeen := ps_totalSeen p + int (length page),
      ps_es := page_done E tok runID (ps_totalSeen p + int (length page)) res (ps_es p)\<rparr>"
  have "page_step E tgt t tok runID page (p, w) = Some (None, ?p, w')"
    unfolding page_step_def sc
    by (simp_all only: Let_def prod.case v chk wd o' loop option.case page(1) if_False, simp_all?)
  with s'(2) rw show ?thesis by (intro exI [of _ ?p] exI [of _ w']) simp
qed

lemma observe_page_append:
  assumes "observe_page wm (xs @ ys) = (None, wm')"
  obtains wm1 where "observe_page wm xs = (None, wm1)" "observe_page wm1 ys = (None, wm')"
proof (cases wm)
  case None
  with assms show thesis by (intro that [of None]) (simp_all add: observe_page_def)
next
  case (Some w)
  obtain e1 w1 where 1: "observe xs w = (e1, w1)" by (cases "observe xs w")
  show thesis
    using assms Some 1 by (cases e1) (auto simp: observe_page_def observe_append split: prod.splits option.splits intro: that [of "Some w1"])
qed

lemma feed_good:
  assumes fit: "cols_fit t cols" and a: "atomic_writes tgt t (sort cols) good put"
    and plain: "\<not> tg_Bulk (tk_Target t)" and batch: "0 < tg_BatchSize (tk_Target t)"
    and rows: "\<forall>pg \<in> set pages. pg \<noteq> [] \<and> (\<forall>r \<in> set pg. map fst r = cols)"
    and o: "observe_page (ps_wm p) (concat pages) = (None, wm)"
  shows "\<exists>p' w'. feed (page_step E tgt t tok runID) pages n (p, w) = Some (n + int (length (concat pages)), None, p', w') \<and>
    written good put (concat pages) (ps_res p, w) (ps_res p', w') \<and> ps_wm p' = wm \<and>
    ps_totalSeen p' = ps_totalSeen p + int (length (concat pages)) \<and> frame E (ps_es p) (ps_es p')"
  using rows o
proof (induction pages arbitrary: p w n)
  case Nil
  have "observe_page wm0 [] = (None, wm0)" for wm0 by (simp add: observe_page_def split: option.split)
  with Nil show ?case by simp
next
  case (Cons pg pages)
  from Cons.prems(2) obtain wm1 where w1: "observe_page (ps_wm p) pg = (None, wm1)" "observe_page wm1 (concat pages) = (None, wm)"
    using observe_page_append [of "ps_wm p" pg "concat pages" wm] by auto
  have pg: "pg \<noteq> []" "\<forall>r \<in> set pg. map fst r = cols" using Cons.prems(1) by simp_all
  obtain p1 v1 where 1: "page_step E tgt t tok runID pg (p, w) = Some (None, p1, v1)"
    "written good put pg (ps_res p, w) (ps_res p1, v1)" "ps_wm p1 = wm1"
    "ps_totalSeen p1 = ps_totalSeen p + int (length pg)"
    "ps_es p1 = page_done E tok runID (ps_totalSeen p1) (ps_res p1) (ps_es p)"
    using page_step_good [OF fit pg a plain batch w1(1)] by metis
  have fr: "frame E (ps_es p) (ps_es p1)" unfolding 1(5) by (rule page_done_frame)
  have rest: "\<forall>pg \<in> set pages. pg \<noteq> [] \<and> (\<forall>r \<in> set pg. map fst r = cols)" using Cons.prems(1) by simp
  obtain p2 v2 where 2: "feed (page_step E tgt t tok runID) pages (n + int (length pg)) (p1, v1) =
      Some (n + int (length pg) + int (length (concat pages)), None, p2, v2)"
    "written good put (concat pages) (ps_res p1, v1) (ps_res p2, v2)" "ps_wm p2 = wm"
    "ps_totalSeen p2 = ps_totalSeen p1 + int (length (concat pages))" "frame E (ps_es p1) (ps_es p2)"
    using Cons.IH [OF rest, of p1 "n + int (length pg)" v1] w1(2) 1(3) by auto
  show ?case
    using 1 2 written_append [OF 1(2) 2(2)] frame_trans [OF fr 2(5)]
    by (intro exI [of _ p2] exI [of _ v2]) simp
qed

section \<open>A healthy run\<close>

text \<open>Both databases of the task open, and its query delivers the rows \<open>vs\<close> under \<open>cols\<close>
  without an error, in pages that can be allocated; \<open>c\<close> is the target's connection, \<open>w'\<close> the
  world at the first page.\<close>

definition source_yields ::
  "('w, 'x) bulk_drivers_scheme \<Rightarrow> Task \<Rightarrow> string \<Rightarrow> 'w \<Rightarrow> sqlConn \<Rightarrow> string list \<Rightarrow> go_value list list \<Rightarrow> 'w \<Rightarrow> bool" where
  "source_yields D t query w c cols vs w' \<longleftrightarrow>
     (\<exists>s w1 w2. OpenSource D (ep_Type (tk_Source t)) (ep_DSN (tk_Source t)) w = (Inr s, w1) \<and>
        OpenTarget D (ep_Type (tg_Endpoint (tk_Target t))) (ep_DSN (tg_Endpoint (tk_Target t))) w1 = (Inr c, w2) \<and>
        drv_query D (conn_driver s) (sc_dsn s) query w2 =
          (Inr \<lparr>rs_cols = Inr cols, rs_fetches = map FRow vs, rs_err = None\<rparr>, w')) \<and>
     cols_fit t cols \<and> (\<forall>v \<in> set vs. length v = length cols) \<and> tk_PageSize t \<le> maxPageCap"

definition rows_of :: "string list \<Rightarrow> go_value list list \<Rightarrow> row list" where
  "rows_of cols vs = map (\<lambda>v. zip cols (map normalize v)) vs"

lemma body_good:
  fixes D :: "('w, 'x) bulk_drivers_scheme" and reg :: "('t, 'l) Locker" and clk :: "nat \<Rightarrow> gotime" and F :: float_text
  defines "E \<equiv> NewEngine D reg clk F"
  assumes y: "source_yields D t query w c cols vs w3"
    and q: "prepare_query F t (es_runs e) = (Inr (query, wm), S)"
    and a: "atomic_writes (sql_target D c) t (sort cols) good put" and plain: "\<not> tg_Bulk (tk_Target t)"
    and batch: "0 < tg_BatchSize (tk_Target t)"
    and o: "observe_page wm (rows_of cols vs) = (None, wm')"
  shows "\<exists>p w4 w5. run_body E t tok runID res (e, w) =
      (case conclude E t runID None p of (res, e) \<Rightarrow> Some (res, e, w5)) \<and>
    w5 \<in> {snd (Close D s (snd (Close D c w4))) | s. True} \<and>
    written good put (rows_of cols vs) (res, w3) (ps_res p, w4) \<and> ps_wm p = wm' \<and>
    ps_totalSeen p = int (length vs) \<and> frame E (set_runs S e) (ps_es p)"
proof -
  from y obtain s w1 w2 where
    opens: "OpenSource D (ep_Type (tk_Source t)) (ep_DSN (tk_Source t)) w = (Inr s, w1)"
      "OpenTarget D (ep_Type (tg_Endpoint (tk_Target t))) (ep_DSN (tg_Endpoint (tk_Target t))) w1 = (Inr c, w2)"
      "drv_query D (conn_driver s) (sc_dsn s) query w2 =
        (Inr \<lparr>rs_cols = Inr cols, rs_fetches = map FRow vs, rs_err = None\<rparr>, w3)"
    and fit: "cols_fit t cols" and len: "\<forall>v \<in> set vs. length v = length cols" and cap: "tk_PageSize t \<le> maxPageCap"
    by (auto simp: source_yields_def)
  have rows: "map (scan_row cols) vs = rows_of cols vs"
    using fit len by (simp add: rows_of_def scan_row_zip cols_fit_def)
  let ?tgt = "sql_target D c"
  let ?src = "sql_source D s :: ('l PageState, 'w) SourceConn"
  let ?p = "\<lparr>ps_es = set_runs S e, ps_res = res, ps_keysChecked = False, ps_totalSeen = 0, ps_wm = wm\<rparr>"
  let ?pages = "chunks (page_size (tk_PageSize t)) (rows_of cols vs)"
  have cat: "concat ?pages = rows_of cols vs" by (simp add: page_size_pos)
  have pg: "\<forall>pg \<in> set ?pages. pg \<noteq> [] \<and> (\<forall>r \<in> set pg. map fst r = cols)"
  proof (intro ballI conjI)
    fix pg r assume pg: "pg \<in> set ?pages"
    then show "pg \<noteq> []" using chunks_bounds by blast
    assume "r \<in> set pg"
    with pg have "r \<in> set (rows_of cols vs)" using cat by (metis UN_I set_concat)
    then show "map fst r = cols" using len by (auto simp: rows_of_def)
  qed
  obtain p w4 where f: "feed (page_step E ?tgt t tok runID) ?pages 0 (?p, w3) =
      Some (int (length (rows_of cols vs)), None, p, w4)"
    "written good put (rows_of cols vs) (res, w3) (ps_res p, w4)" "ps_wm p = wm'"
    "ps_totalSeen p = int (length (rows_of cols vs))" "frame E (set_runs S e) (ps_es p)"
    using feed_good [OF fit a plain batch pg, of ?p wm' E tok runID 0 w3] o unfolding cat by auto
  have st: "src_Stream ?src query (tk_PageSize t) fn (ps, w2) =
      feed fn ?pages 0 (ps, w3)" for fn ps
    by (simp add: sql_source_def opens(3) Stream_delivers [OF cap] rows)
  have fl: "en_float E = F" by (simp add: E_def NewEngine_def)
  let ?w5 = "snd (Close D s (snd (Close D c w4)))"
  have rs: "run_stream E ?src ?tgt t tok runID res (e, w2) =
      (case conclude E t runID None p of (res, e) \<Rightarrow> Some (res, e, snd (Close D c w4)))"
    unfolding run_stream_def fl prod.case q sum.case st f(1) by (simp add: sql_target_def)
  have "run_body E t tok runID res (e, w) = (case conclude E t runID None p of (res, e) \<Rightarrow> Some (res, e, ?w5))"
  proof -
    have os: "en_OpenSource E (ep_Type (tk_Source t)) (ep_DSN (tk_Source t)) w = (Inr ?src, w1)"
      "en_OpenTarget E (ep_Type (tg_Endpoint (tk_Target t))) (ep_DSN (tg_Endpoint (tk_Target t))) w1 = (Inr ?tgt, w2)"
      using opens(1,2) by (simp_all add: E_def NewEngine_def)
    have cl: "src_Close ?src = Close D s" by (simp add: sql_source_def)
    show ?thesis unfolding run_body_def prod.case os sum.case rs
      by (cases "conclude E t runID None p") (simp add: cl)
  qed
  with f show ?thesis by (intro exI [of _ p] exI [of _ w4] exI [of _ ?w5]) (auto simp: rows_of_def)
qed

text \<open>The world after a run: the good rows written, then both connections closed.\<close>

definition closed_after :: "('w, 'x) bulk_drivers_scheme \<Rightarrow> sqlConn \<Rightarrow> 'w \<Rightarrow> 'w \<Rightarrow> bool" where
  "closed_after D c w w' \<longleftrightarrow> (\<exists>s. w' = snd (Close D s (snd (Close D c w))))"

definition copied :: "(row \<Rightarrow> bool) \<Rightarrow> row list \<Rightarrow> RunResult \<Rightarrow> bool" where
  "copied good rows res \<longleftrightarrow>
     rr_TotalRows res = int (length rows) \<and> rr_OKRows res = int (length (filter good rows)) \<and>
     rr_FailRows res = int (length (filter (\<lambda>r. \<not> good r) rows)) \<and>
     rr_Status res = (if rows \<noteq> [] \<and> filter good rows = [] then Failed else Succeeded)"

lemma filter_split_length: "length (filter P xs) + length (filter (\<lambda>x. \<not> P x) xs) = length xs"
  by (induction xs) auto

lemma conclude_copied:
  assumes "written good put rows (empty_result n tr, w) (ps_res p, w')" "ps_totalSeen p = int (length rows)"
  shows "copied good rows (fst (conclude E t runID None p))"
proof -
  have l: "length (filter good rows) + length (filter (\<lambda>r. \<not> good r) rows) = length rows"
    by (rule filter_split_length)
  have c: "rr_OKRows (ps_res p) = int (length (filter good rows))"
    "rr_FailRows (ps_res p) = int (length (filter (\<lambda>r. \<not> good r) rows))"
    using assms(1) by (simp_all add: written_def empty_result_def)
  show ?thesis
  proof (cases "rows \<noteq> [] \<and> filter good rows = []")
    case True
    then have "0 < length (filter (\<lambda>r. \<not> good r) rows)" using l by (metis add_0 length_greater_0_conv list.size(3))
    with True c assms(2) show ?thesis by (simp add: conclude_def Let_def copied_def)
  next
    case False
    then have "\<not> (0 < int (length rows) \<and> int (length (filter good rows)) = 0)" by auto
    with False c assms(2) show ?thesis by (auto simp: conclude_def Let_def copied_def)
  qed
qed

lemma run_good:
  fixes D :: "('w, 'x) bulk_drivers_scheme" and reg :: "('t, 'l) Locker" and clk :: "nat \<Rightarrow> gotime" and F :: float_text
  defines "E \<equiv> NewEngine D reg clk F"
  assumes acq: "lk_Acquire reg (clk (es_ticks e + 1)) (tk_Name t) (es_lock e) = (Some tok, l)"
    and nf: "st_faults (es_runs e) = []"
    and q: "fst (prepare_query F t (es_runs e)) = Inr (query, wm)"
    and y: "source_yields D t query w c cols vs w3"
    and a: "atomic_writes (sql_target D c) t (sort cols) good put" and plain: "\<not> tg_Bulk (tk_Target t)"
    and batch: "0 < tg_BatchSize (tk_Target t)"
    and o: "observe_page wm (rows_of cols vs) = (None, wm')"
  shows "\<exists>p runID res e' w' w4. RunTask E t trigger (e, w) = Some (res, e', w') \<and>
    closed_after D c w4 w' \<and> w4 = fold put (filter good (rows_of cols vs)) w3 \<and>
    ps_wm p = wm' \<and> copied good (rows_of cols vs) res \<and>
    st_faults (es_runs (ps_es p)) = [] \<and> st_state (es_runs (ps_es p)) = st_state (es_runs e) \<and>
    (\<exists>d. res = (fst (conclude E t runID None p))\<lparr>rr_Duration := d\<rparr>) \<and>
    st_state (es_runs e') = st_state (es_runs (snd (conclude E t runID None p)))"
proof -
  have acq': "lk_Acquire (en_Reg E) (en_clock E (es_ticks e + 1)) (tk_Name t) (es_lock e) = (Some tok, l)"
    using acq by (simp add: E_def NewEngine_def)
  obtain r S where st: "StartRun (en_clock E (es_ticks e + 2)) (tk_Name t) trigger (es_runs e) = (r, S)"
    by (cases "StartRun (en_clock E (es_ticks e + 2)) (tk_Name t) trigger (es_runs e)")
  have S: "st_faults S = []" "st_state S = st_state (es_runs e)"
    using st nf by (auto simp: StartRun_def sql_def Let_def)
  define e2 where "e2 = started_state l S e"
  define runID where "runID = (case r of Inl _ \<Rightarrow> 0 | Inr i \<Rightarrow> i)"
  define res0 where "res0 = empty_result (tk_Name t) trigger"
  have q2: "prepare_query F t (es_runs e2) = (Inr (query, wm), S)"
    using q nf S by (auto simp: e2_def prepare_query_def GetWatermark_def sql_none Let_def
        split: option.splits if_splits prod.splits sum.splits)
  obtain p w4 w5 where b: "run_body E t tok runID res0 (e2, w) =
      (case conclude E t runID None p of (res, e) \<Rightarrow> Some (res, e, w5))"
    "w5 \<in> {snd (Close D s (snd (Close D c w4))) | s. True}"
    "written good put (rows_of cols vs) (res0, w3) (ps_res p, w4)" "ps_wm p = wm'"
    "ps_totalSeen p = int (length vs)" "frame E (set_runs S e2) (ps_es p)"
    using body_good [OF y q2 a plain batch o, of reg clk tok runID res0] unfolding E_def by blast
  obtain res1 e1 where c: "conclude E t runID None p = (res1, e1)" by (cases "conclude E t runID None p")
  have run: "RunTask E t trigger (e, w) =
      (case finish E t (en_clock E (es_ticks e)) tok runID (res1, e1) of (res, e') \<Rightarrow> Some (res, e', w5))"
    using prog.RunTask_acquired [of D reg clk F, folded E_def, OF acq' st batch, where w = w, folded e2_def runID_def res0_def] b(1) c y
    by (auto simp: source_yields_def)
  obtain res e' where f: "finish E t (en_clock E (es_ticks e)) tok runID (res1, e1) = (res, e')"
    by (cases "finish E t (en_clock E (es_ticks e)) tok runID (res1, e1)")
  obtain d where d: "res = res1\<lparr>rr_Duration := d\<rparr>" using finish_facts(1) [OF f] by blast
  have len: "ps_totalSeen p = int (length (rows_of cols vs))" using b(5) by (simp add: rows_of_def)
  have "copied good (rows_of cols vs) res"
    using conclude_copied [OF b(3) [unfolded res0_def] len, of E t runID] c by (simp add: d copied_def)
  moreover have "w4 = fold put (filter good (rows_of cols vs)) w3" using b(3) by (simp add: written_def)
  moreover have "st_faults (es_runs (ps_es p)) = []" "st_state (es_runs (ps_es p)) = st_state (es_runs e)"
    using b(6) S by (auto simp: frame_def set_runs_def)
  moreover have "st_state (es_runs e') = st_state (es_runs (snd (conclude E t runID None p)))"
    using finish_facts(4) [OF f] c by simp
  ultimately show ?thesis
    using run f b(2,4) d c
    by (intro exI [of _ p] exI [of _ runID] exI [of _ res] exI [of _ e'] exI [of _ w5] exI [of _ w4])
      (auto simp: closed_after_def)
qed

section \<open>The demonstration drivers\<close>

lemma demo_valid: "list_all identRe [''id'', ''v'']" "sort [''id'', ''v''] = [''id'', ''v'']"
  by code_simp+

definition demo_good :: "(go_value \<Rightarrow> bool) \<Rightarrow> row \<Rightarrow> bool" where
  "demo_good bad r \<longleftrightarrow> \<not> bad (row_get r ''id'') \<and> \<not> bad (row_get r ''v'')"

definition demo_put :: "row \<Rightarrow> go_value list \<Rightarrow> go_value list" where
  "demo_put r w = w @ [row_get r ''id'', row_get r ''v'']"

definition demo_conn :: sqlConn where
  "demo_conn = \<lparr>sc_dialect = sqliteDialect, sc_dsn = ''d'', sc_db = True\<rparr>"

lemma demo_atomic:
  assumes "tg_Mode (tk_Target t) = ''upsert''" "tg_Table (tk_Target t) = ''users''" "tg_Keys (tk_Target t) = [''id'']"
  shows "atomic_writes (sql_target (demo_drivers bad) c) t (sort [''id'', ''v'']) (demo_good bad) demo_put"
proof -
  have v: "ValidateColumns [''id'', ''v''] = None" "ValidateColumns [''id''] = None"
    using demo_valid by (simp_all add: ValidateColumns_None)
  let ?args = "\<lambda>chunk. flatArgs [''id'', ''v''] chunk"
  have ex: "list_ex bad (?args chunk) \<longleftrightarrow> \<not> list_all (demo_good bad) chunk" for chunk
    by (induction chunk) (auto simp: flatArgs_concat demo_good_def)
  have put: "fold demo_put chunk w = w @ ?args chunk" for chunk w
    by (induction chunk arbitrary: w) (simp_all add: flatArgs_concat demo_put_def)
  have "writeChunk (sql_target (demo_drivers bad) c) t [''id'', ''v''] chunk w =
      (if list_all (demo_good bad) chunk then (Inr (int (length chunk)), fold demo_put chunk w)
       else (Inl (Wrapf ''%s upsert into %s failed: %w'' [AStr (d_name (sc_dialect c)), AStr ''users''] (External ''rejected'')), w))"
    if "chunk \<noteq> []" for chunk w
    using that ex [of chunk]
    by (simp add: writeChunk_def sql_target_def UpsertRows_def assms SplitTable_users v Let_def demo_drivers_def put)
  then show ?thesis by (auto simp: atomic_writes_def demo_valid(2))
qed

lemma demo_opens:
  "OpenSource (demo_drivers bad) ''sqlite'' ''s'' w = (Inr (demo_conn\<lparr>sc_dsn := ''s''\<rparr>), w)"
  "OpenTarget (demo_drivers bad) ''sqlite'' ''d'' w = (Inr demo_conn, w)"
  by (simp_all add: OpenSource_def OpenTarget_def open_conn_def Connect_def demo_drivers_def demo_conn_def)

lemma demo_yields:
  assumes "ep_Type (tk_Source t) = ''sqlite''" "ep_DSN (tk_Source t) = ''s''" "tk_Target t = tk_Target demo_task"
    and "case tk_Incremental t of None \<Rightarrow> True | Some inc \<Rightarrow> inc_Column inc \<in> {''id'', ''v''}"
    and "tk_PageSize t \<le> maxPageCap"
  shows "source_yields (demo_drivers bad) t query w demo_conn [''id'', ''v''] demo_rows w"
proof -
  have fit: "cols_fit t [''id'', ''v'']"
    using assms(4) demo_valid(1) by (simp add: cols_fit_def assms(3) demo_task_def split: option.splits)
  have ep: "ep_Type (tk_Source t) = ''sqlite''" "ep_DSN (tk_Source t) = ''s''"
    "ep_Type (tg_Endpoint (tk_Target t)) = ''sqlite''" "ep_DSN (tg_Endpoint (tk_Target t)) = ''d''"
    by (simp_all add: assms demo_task_def)
  show ?thesis
    unfolding source_yields_def ep demo_opens using fit
    by (simp add: demo_drivers_def assms(5)) (simp add: demo_rows_def)
qed

lemma demo_rows_of: "rows_of [''id'', ''v''] demo_rows =
    [[(''id'', VInt64 1), (''v'', VStr ''a'')], [(''id'', VInt64 2), (''v'', VStr ''b'')], [(''id'', VInt64 3), (''v'', VNil)]]"
  by (simp add: rows_of_def demo_rows_def)

section \<open>Incremental runs\<close>

lemma encode_comparable: "kind_of v \<noteq> KNone \<Longrightarrow> \<exists>kr. encodeWatermark F v = Inr kr"
  by (cases v) auto

lemma kind_not_nil: "kind_of v \<noteq> KNone \<Longrightarrow> v \<noteq> VNil"
  by auto

lemma filter_True_all: "filter (\<lambda>_. True) xs = xs"
  by simp

lemma incremental_run:
  fixes D :: "('w, 'x) bulk_drivers_scheme" and reg :: "('t, 'l) Locker" and clk :: "nat \<Rightarrow> gotime" and F :: float_text
  assumes acq: "lk_Acquire reg (clk (es_ticks e + 1)) (tk_Name t) (es_lock e) = (Some tok, l)"
    and nf: "st_faults (es_runs e) = []" and inc: "tk_Incremental t = Some inc"
    and q: "fst (prepare_query F t (es_runs e)) = Inr (query, wm)"
    and y: "source_yields D t query w c cols vs w3"
    and a: "atomic_writes (sql_target D c) t (sort cols) (\<lambda>_. True) put" and plain: "\<not> tg_Bulk (tk_Target t)"
    and batch: "0 < tg_BatchSize (tk_Target t)"
    and kinds: "\<forall>v \<in> set (column_values (inc_Column inc) (rows_of cols vs)). kind_of v = k" "k \<noteq> KNone"
  shows "\<exists>res e' w'. RunTask (NewEngine D reg clk F) t trigger (e, w) = Some (res, e', w') \<and>
    closed_after D c (fold put (rows_of cols vs) w3) w' \<and>
    rr_Status res = Succeeded \<and> rr_OKRows res = int (length vs) \<and>
    (if column_values (inc_Column inc) (rows_of cols vs) = [] then st_state (es_runs e') = st_state (es_runs e)
     else \<exists>m kr. m \<in> set (column_values (inc_Column inc) (rows_of cols vs)) \<and>
       (\<forall>v \<in> set (column_values (inc_Column inc) (rows_of cols vs)). wm_le v m) \<and>
       encodeWatermark F m = Inr kr \<and> st_state (es_runs e') = (st_state (es_runs e))(tk_Name t \<mapsto> kr))"
proof -
  let ?E = "NewEngine D reg clk F" and ?rows = "rows_of cols vs" and ?col = "inc_Column inc"
  have wm: "wm = Some (new_tracker ?col)"
    using q inc by (auto simp: prepare_query_def Let_def split: if_splits prod.splits sum.splits)
  have tr: "fst (observe ?rows (new_tracker ?col)) = None \<and>
    (let m = wt_max (snd (observe ?rows (new_tracker ?col))) in
      if column_values ?col ?rows = [] then m = VNil
      else m \<in> set (column_values ?col ?rows) \<and> (\<forall>v \<in> set (column_values ?col ?rows). wm_le v m))"
    by (rule observe_new [OF kinds])
  define wmf where "wmf = snd (observe ?rows (new_tracker ?col))"
  have o: "observe_page wm ?rows = (None, Some wmf)"
    using tr by (cases "observe ?rows (new_tracker ?col)") (simp add: observe_page_def wm wmf_def)
  obtain p runID res e' w' where r: "RunTask ?E t trigger (e, w) = Some (res, e', w')"
    "ps_wm p = Some wmf" "copied (\<lambda>_. True) ?rows res" "st_faults (es_runs (ps_es p)) = []"
    "st_state (es_runs (ps_es p)) = st_state (es_runs e)"
    "\<exists>d. res = (fst (conclude ?E t runID None p))\<lparr>rr_Duration := d\<rparr>"
    "st_state (es_runs e') = st_state (es_runs (snd (conclude ?E t runID None p)))"
    "closed_after D c (fold put (rows_of cols vs) w3) w'"
    using run_good [where reg = reg and clk = clk and e = e and t = t and trigger = trigger, OF acq nf q y a plain batch o]
    unfolding filter_True_all by blast
  obtain res1 e1 where c: "conclude ?E t runID None p = (res1, e1)" by (cases "conclude ?E t runID None p")
  have ok: "rr_Status res = Succeeded" "rr_OKRows res = int (length vs)" "rr_FailRows res = 0"
    using r(3) by (auto simp: copied_def rows_of_def)
  then have f0: "rr_FailRows res1 = 0" using r(6) c by auto
  have e1: "e1 = finalizeWatermark ?E t runID res1 wmf (ps_es p)"
    using c r(2) by (auto simp: conclude_def Let_def)
  have fl: "en_float ?E = F" by (simp add: NewEngine_def)
  have ev: "st_state (snd (Event now i kd pl S)) = st_state S" for now i kd pl S
    using Event_store(3) [of now i kd pl S, OF prod.collapse [symmetric]] .
  show ?thesis
  proof (cases "column_values ?col ?rows = []")
    case True
    then have "wt_max wmf = VNil" using tr by (simp add: wmf_def)
    then have "st_state (es_runs e1) = st_state (es_runs e)" using f0 r(5) by (simp add: e1 finalizeWatermark_def)
    with True r(1,7,8) c ok show ?thesis by auto
  next
    case False
    define m where "m = wt_max wmf"
    have m: "m \<in> set (column_values ?col ?rows)" "\<forall>v \<in> set (column_values ?col ?rows). wm_le v m"
      using tr False by (simp_all add: m_def wmf_def Let_def)
    have "kind_of m = k" using m(1) kinds(1) by (rule bspec [rotated])
    then have "kind_of m \<noteq> KNone" using kinds(2) by simp
    then obtain kd raw where kr: "encodeWatermark F m = Inr (kd, raw)" using encode_comparable [of m F] by auto
    have "SetWatermark F (tk_Name t) m (es_runs (ps_es p)) =
        (None, (es_runs (ps_es p))\<lparr>st_state := (st_state (es_runs (ps_es p)))(tk_Name t \<mapsto> (kd, raw))\<rparr>)"
      using kr r(4) by (simp add: SetWatermark_def sql_none)
    then have "st_state (es_runs e1) = (st_state (es_runs e))(tk_Name t \<mapsto> (kd, raw))"
      using f0 r(5) kind_not_nil [OF \<open>kind_of m \<noteq> KNone\<close>] unfolding e1 finalizeWatermark_def fl m_def [symmetric]
      by (simp add: time_Now_def Let_def ev)
    with False r(1,7,8) c ok m kr show ?thesis by auto
  qed
qed

section \<open>A task without its token\<close>

lemma body_no_token:
  assumes "tk_Incremental t = Some inc" "\<not> contains (ep_Query (tk_Source t)) watermarkToken"
    and "run_body E t tok runID res (e, w) = Some (res', e', w')"
  shows "rr_Status res' = Failed \<and> rr_TotalRows res' = rr_TotalRows res"
proof -
  have q: "prepare_query F t S = (Inl (Errorf ''incremental task query must reference :watermark'' []), S)" for F S
    using assms(1,2) by (simp add: prepare_query_def Let_def)
  have st: "rr_Status r = Failed \<and> rr_TotalRows r = rr_TotalRows res"
    if "run_stream E src tgt t tok runID res (e, w) = Some (r, e', w')" for src tgt e w r e' w'
    using q that by (auto simp: run_stream_def)
  from assms(3) show ?thesis
    by (auto simp: run_body_def split: prod.splits sum.splits option.splits dest: st)
qed

lemma run_no_token:
  fixes D :: "('w, 'x) bulk_drivers_scheme" and reg :: "('t, 'l) Locker" and clk :: "nat \<Rightarrow> gotime" and F :: float_text
  defines "E \<equiv> NewEngine D reg clk F"
  assumes "tk_Incremental t = Some inc" "\<not> contains (ep_Query (tk_Source t)) watermarkToken"
    and batch: "0 < tg_BatchSize (tk_Target t)"
    and run: "RunTask E t trigger (e, w) = Some (res, e', w')"
  shows "rr_Status res \<in> {Failed, Skipped} \<and> rr_TotalRows res = 0"
proof -
  obtain a l where acq: "lk_Acquire (en_Reg E) (en_clock E (es_ticks e + 1)) (tk_Name t) (es_lock e) = (a, l)"
    by (cases "lk_Acquire (en_Reg E) (en_clock E (es_ticks e + 1)) (tk_Name t) (es_lock e)")
  show ?thesis
  proof (cases a)
    case None
    with acq have "lk_Acquire (en_Reg E) (en_clock E (es_ticks e + 1)) (tk_Name t) (es_lock e) = (None, l)" by simp
    then show ?thesis
      by (rule prog.RunTask_skips [of D reg clk F, folded E_def, where trigger = trigger and w = w])
        (use run in \<open>auto simp: skipped_result_def\<close>)
  next
    case (Some tok)
    with acq have acq': "lk_Acquire (en_Reg E) (en_clock E (es_ticks e + 1)) (tk_Name t) (es_lock e) = (Some tok, l)" by simp
    obtain r S where st: "StartRun (en_clock E (es_ticks e + 2)) (tk_Name t) trigger (es_runs e) = (r, S)"
      by (cases "StartRun (en_clock E (es_ticks e + 2)) (tk_Name t) trigger (es_runs e)")
    let ?id = "case r of Inl _ \<Rightarrow> 0 | Inr i \<Rightarrow> i" and ?r0 = "empty_result (tk_Name t) trigger"
    let ?e = "started_state l S e"
    obtain res1 e1 w1 where b: "run_body E t tok ?id ?r0 (?e, w) = Some (res1, e1, w1)"
      "RunTask E t trigger (e, w) =
        (case finish E t (en_clock E (es_ticks e)) tok ?id (res1, e1) of (res, e') \<Rightarrow> Some (res, e', w1))"
      using prog.RunTask_acquired [of D reg clk F, folded E_def, OF acq' st batch, where w = w] run by auto
    from body_no_token [OF assms(2,3) b(1)] have f: "rr_Status res1 = Failed" "rr_TotalRows res1 = 0"
      by (simp_all add: empty_result_def)
    obtain res2 e2 where fin: "finish E t (en_clock E (es_ticks e)) tok ?id (res1, e1) = (res2, e2)"
      by (cases "finish E t (en_clock E (es_ticks e)) tok ?id (res1, e1)")
    with b(2) run have "res = res2" by simp
    with finish_facts(1) [OF fin] f show ?thesis by auto
  qed
qed

section \<open>Properties\<close>

text \<open>
  C17: how a page is cut into batches cannot be seen in the result: when each statement is
  atomic, for every positive batch size the loop writes exactly the good rows, in their
  order, and counts exactly the bad ones as failed, as writing them one by one would.
\<close>
theorem batching_is_transparent:
  assumes "atomic_writes tgt t cols good put" "\<not> tg_Bulk (tk_Target t)" "0 < b"
  shows "\<exists>res' w'. batch_loop tgt t cols b page 0 (res, w) = Some (res', w') \<and>
    w' = fold put (filter good page) w \<and>
    rr_OKRows res' = rr_OKRows res + int (length (filter good page)) \<and>
    rr_FailRows res' = rr_FailRows res + int (length (filter (\<lambda>r. \<not> good r) page))"
  using batch_loop_atomic [OF assms, of page "(res, w)"] by (auto simp: written_def)

theorem batching_is_transparent_witness:
  "\<exists>res' w'. batch_loop (sql_target (demo_drivers is_null) demo_conn) demo_task [''id'', ''v''] 2
      (rows_of [''id'', ''v''] demo_rows) 0 (empty_result [] [], []) = Some (res', w') \<and>
    w' = [VInt64 1, VStr ''a'', VInt64 2, VStr ''b''] \<and> rr_OKRows res' = 2 \<and> rr_FailRows res' = 1"
proof -
  have t: "tg_Mode (tk_Target demo_task) = ''upsert''" "tg_Table (tk_Target demo_task) = ''users''"
    "tg_Keys (tk_Target demo_task) = [''id'']" "\<not> tg_Bulk (tk_Target demo_task)"
    by (simp_all add: demo_task_def)
  from batching_is_transparent [OF demo_atomic [OF t(1-3), of is_null demo_conn, unfolded demo_valid(2)] t(4), of 2
      "rows_of [''id'', ''v''] demo_rows" "empty_result [] []" "[]"]
  show ?thesis
    by (simp add: demo_rows_of demo_good_def demo_put_def is_null_def row_get_def empty_result_def)
qed

text \<open>
  C1: a full run over a healthy source is a copy: when both databases open, the query
  delivers its rows and the columns fit, the run returns with exactly the good rows written
  to the target, in source order, the bad ones counted and nothing else; it fails only if
  there were rows and none of them was good.
\<close>
theorem run_copies_good_rows:
  assumes "lk_Acquire reg (clk (es_ticks e + 1)) (tk_Name t) (es_lock e) = (Some tok, l)"
    and "st_faults (es_runs e) = []" and "tk_Incremental t = None"
    and "source_yields D t (ep_Query (tk_Source t)) w c cols vs w3"
    and "atomic_writes (sql_target D c) t (sort cols) good put" and "\<not> tg_Bulk (tk_Target t)"
    and "0 < tg_BatchSize (tk_Target t)"
  shows "\<exists>res e' w'. RunTask (NewEngine D reg clk F) t trigger (e, w) = Some (res, e', w') \<and>
    closed_after D c (fold put (filter good (rows_of cols vs)) w3) w' \<and> copied good (rows_of cols vs) res"
proof -
  have "fst (prepare_query F t (es_runs e)) = Inr (ep_Query (tk_Source t), None)"
    by (simp add: prepare_query_def assms(3) Let_def)
  moreover have "observe_page None (rows_of cols vs) = (None, None)" by (simp add: observe_page_def)
  ultimately show ?thesis
    using run_good [where reg = reg and clk = clk and e = e and t = t and trigger = trigger,
        OF assms(1,2) _ assms(4-7)] by blast
qed

theorem run_copies_good_rows_witness:
  "\<exists>res e'. RunTask (demo_engine is_null) demo_task ''manual'' (demo_state, []) =
      Some (res, e', [VInt64 1, VStr ''a'', VInt64 2, VStr ''b'']) \<and>
    rr_Status res = Succeeded \<and> rr_TotalRows res = 3 \<and> rr_OKRows res = 2 \<and> rr_FailRows res = 1"
proof -
  let ?tok = "\<lparr>tok_Name = ''t'', tok_Gen = 1, tok_addr = 0\<rparr>" and ?e = demo_state
  have acq: "lk_Acquire registry_locker (demo_clock (es_ticks ?e + 1)) (tk_Name demo_task) (es_lock ?e) =
      (Some ?tok, snd (Acquire ''t'' NewRegistry))"
    by (simp add: registry_locker_def demo_state_def demo_task_def Acquire_def NewRegistry_def Let_def)
  have t: "tg_Mode (tk_Target demo_task) = ''upsert''" "tg_Table (tk_Target demo_task) = ''users''"
    "tg_Keys (tk_Target demo_task) = [''id'']" "\<not> tg_Bulk (tk_Target demo_task)" "tk_Incremental demo_task = None"
    "0 < tg_BatchSize (tk_Target demo_task)" "st_faults (es_runs demo_state) = []"
    by (simp_all add: demo_task_def demo_state_def new_store_def)
  have y: "source_yields (demo_drivers is_null) demo_task (ep_Query (tk_Source demo_task)) [] demo_conn [''id'', ''v''] demo_rows []"
    by (rule demo_yields) (simp_all add: t, simp_all add: demo_task_def maxPageCap_def)
  have cl: "closed_after (demo_drivers is_null) c w1 w2 \<longleftrightarrow> w2 = w1" for c w1 w2
    by (simp add: closed_after_def Close_def demo_drivers_def)
  have good: "filter (demo_good is_null) (rows_of [''id'', ''v''] demo_rows) =
      [[(''id'', VInt64 1), (''v'', VStr ''a'')], [(''id'', VInt64 2), (''v'', VStr ''b'')]]"
    "filter (\<lambda>r. \<not> demo_good is_null r) (rows_of [''id'', ''v''] demo_rows) = [[(''id'', VInt64 3), (''v'', VNil)]]"
    "length (rows_of [''id'', ''v''] demo_rows) = 3"
    by (simp_all add: demo_rows_of demo_good_def is_null_def row_get_def)
  have put: "fold demo_put [[(''id'', VInt64 1), (''v'', VStr ''a'')], [(''id'', VInt64 2), (''v'', VStr ''b'')]] [] =
      [VInt64 1, VStr ''a'', VInt64 2, VStr ''b'']"
    by (simp add: demo_put_def row_get_def)
  from run_copies_good_rows [where reg = registry_locker and clk = demo_clock and e = ?e and t = demo_task
      and F = bits_text and trigger = "''manual''", OF acq t(7,5) y demo_atomic [OF t(1-3)] t(4,6)]
  show ?thesis unfolding cl good put by (auto simp: demo_engine_def copied_def good)
qed

text \<open>
  C2: a clean incremental run stores the maximum it delivered: over a healthy source whose
  watermark column has values of one kind, with no row failing, the run succeeds, has
  written exactly the delivered rows, in order, and the task's stored watermark becomes the
  encoding of a delivered value that none exceeds; a run that delivers no value keeps the
  stored one.
\<close>
theorem incremental_run_stores_maximum:
  assumes "lk_Acquire reg (clk (es_ticks e + 1)) (tk_Name t) (es_lock e) = (Some tok, l)"
    and "st_faults (es_runs e) = []" and "tk_Incremental t = Some inc"
    and "fst (prepare_query F t (es_runs e)) = Inr (query, wm)"
    and "source_yields D t query w c cols vs w3"
    and "atomic_writes (sql_target D c) t (sort cols) (\<lambda>_. True) put" and "\<not> tg_Bulk (tk_Target t)"
    and "0 < tg_BatchSize (tk_Target t)"
    and "\<forall>v \<in> set (column_values (inc_Column inc) (rows_of cols vs)). kind_of v = k" "k \<noteq> KNone"
  shows "\<exists>res e' w'. RunTask (NewEngine D reg clk F) t trigger (e, w) = Some (res, e', w') \<and>
    closed_after D c (fold put (rows_of cols vs) w3) w' \<and>
    rr_Status res = Succeeded \<and> rr_OKRows res = int (length vs) \<and>
    (if column_values (inc_Column inc) (rows_of cols vs) = [] then st_state (es_runs e') = st_state (es_runs e)
     else \<exists>m kr. m \<in> set (column_values (inc_Column inc) (rows_of cols vs)) \<and>
       (\<forall>v \<in> set (column_values (inc_Column inc) (rows_of cols vs)). wm_le v m) \<and>
       encodeWatermark F m = Inr kr \<and> st_state (es_runs e') = (st_state (es_runs e))(tk_Name t \<mapsto> kr))"
  using assms by (rule incremental_run)

definition demo_inc :: Task where
  "demo_inc = demo_task\<lparr>tk_Source := (tk_Source demo_task)\<lparr>ep_Query := ''id > :watermark''\<rparr>,
     tk_Incremental := Some \<lparr>inc_Column = ''id'', inc_Initial = ''0''\<rparr>\<rparr>"

lemma demo_inc_sizes: "sizes_ok demo_inc" "tk_PageSize demo_inc \<le> maxPageCap"
  by (simp_all add: sizes_ok_def demo_inc_def demo_task_def maxPageCap_def)

text \<open>The hypotheses for the demonstration task, shared by two witnesses.\<close>

lemma demo_inc_hyps:
  shows "lk_Acquire registry_locker (demo_clock (es_ticks demo_state + 1)) (tk_Name demo_inc) (es_lock demo_state) =
      (Some \<lparr>tok_Name = ''t'', tok_Gen = 1, tok_addr = 0\<rparr>, snd (Acquire ''t'' NewRegistry))"
    and "st_faults (es_runs demo_state) = []" "st_state (es_runs demo_state) = Map.empty"
    and "tk_Incremental demo_inc = Some \<lparr>inc_Column = ''id'', inc_Initial = ''0''\<rparr>"
    and "fst (prepare_query bits_text demo_inc (es_runs demo_state)) =
      Inr (''id > 0'', Some (new_tracker ''id''))"
    and "source_yields (demo_drivers never) demo_inc query w demo_conn [''id'', ''v''] demo_rows w"
    and "atomic_writes (sql_target (demo_drivers never) c) demo_inc (sort [''id'', ''v'']) (\<lambda>_. True) demo_put"
    and "\<not> tg_Bulk (tk_Target demo_inc)" "0 < tg_BatchSize (tk_Target demo_inc)" "tk_Name demo_inc = ''t''"
    and "column_values ''id'' (rows_of [''id'', ''v''] demo_rows) = [VInt64 1, VInt64 2, VInt64 3]"
proof -
  let ?q = "''id > :watermark''"
  show "lk_Acquire registry_locker (demo_clock (es_ticks demo_state + 1)) (tk_Name demo_inc) (es_lock demo_state) =
      (Some \<lparr>tok_Name = ''t'', tok_Gen = 1, tok_addr = 0\<rparr>, snd (Acquire ''t'' NewRegistry))"
    by (simp add: registry_locker_def demo_state_def demo_inc_def demo_task_def Acquire_def NewRegistry_def Let_def)
  show s: "st_faults (es_runs demo_state) = []" "st_state (es_runs demo_state) = Map.empty"
    by (simp_all add: demo_state_def new_store_def)
  have c: "contains ?q watermarkToken" "replace_all ?q watermarkToken ''0'' = ''id > 0''"
    by (simp_all add: watermarkToken_def)
  show i: "tk_Incremental demo_inc = Some \<lparr>inc_Column = ''id'', inc_Initial = ''0''\<rparr>"
    and n: "tk_Name demo_inc = ''t''" and "\<not> tg_Bulk (tk_Target demo_inc)" "0 < tg_BatchSize (tk_Target demo_inc)"
    by (simp_all add: demo_inc_def demo_task_def)
  have q: "ep_Query (tk_Source demo_inc) = ?q" by (simp add: demo_inc_def)
  show "fst (prepare_query bits_text demo_inc (es_runs demo_state)) =
      Inr (''id > 0'', Some (new_tracker ''id''))"
    unfolding prepare_query_def Let_def q i option.case GetWatermark_def sql_none [OF s(1)] prod.case s(2) sum.case
    by (simp only: c simp_thms if_False if_True option.case sum.case prod.case Incremental.select_convs fst_conv)
  show "source_yields (demo_drivers never) demo_inc query w demo_conn [''id'', ''v''] demo_rows w"
    by (rule demo_yields) (simp_all add: demo_inc_def, simp_all add: demo_task_def maxPageCap_def)
  have "demo_good never = (\<lambda>_. True)" by (simp add: fun_eq_iff demo_good_def never_def)
  with demo_atomic [of demo_inc never c]
  show "atomic_writes (sql_target (demo_drivers never) c) demo_inc (sort [''id'', ''v'']) (\<lambda>_. True) demo_put"
    by (simp add: demo_inc_def demo_task_def)
  show "column_values ''id'' (rows_of [''id'', ''v''] demo_rows) = [VInt64 1, VInt64 2, VInt64 3]"
    unfolding demo_rows_of by (simp add: column_values_def row_get_def)
qed

text \<open>What the demonstration run does, up to the theorem that says so.\<close>

definition demo_inc_outcome :: "RunResult \<Rightarrow> Registry EngineState \<Rightarrow> bool" where
  "demo_inc_outcome res e' \<longleftrightarrow> rr_Status res = Succeeded \<and> rr_OKRows res = 3 \<and>
     st_state (es_runs e') = [''t'' \<mapsto> (''int'', ''3'')]"

lemma demo_inc_max:
  assumes "if column_values ''id'' (rows_of [''id'', ''v''] demo_rows) = [] then P
     else \<exists>m kr. m \<in> set (column_values ''id'' (rows_of [''id'', ''v''] demo_rows)) \<and>
       (\<forall>v \<in> set (column_values ''id'' (rows_of [''id'', ''v''] demo_rows)). wm_le v m) \<and>
       encodeWatermark bits_text m = Inr kr \<and> st' = (st_state (es_runs demo_state))(tk_Name demo_inc \<mapsto> kr)"
  shows "st' = [''t'' \<mapsto> (''int'', ''3'')]"
proof -
  have e: "itoa 3 = ''3''" by code_simp
  from assms obtain m kr where "m \<in> {VInt64 1, VInt64 2, VInt64 3}" "wm_le (VInt64 3) m"
    "encodeWatermark bits_text m = Inr kr" "st' = [''t'' \<mapsto> kr]"
    by (auto simp: demo_inc_hyps(3,10,11))
  moreover from this(1,2) have "m = VInt64 3" by auto
  ultimately show ?thesis by (simp add: e)
qed

theorem incremental_run_stores_maximum_witness:
  "\<exists>res e' w'. RunTask (demo_engine never) demo_inc ''cron'' (demo_state, []) = Some (res, e', w') \<and>
    demo_inc_outcome res e'"
proof -
  let ?vals = "column_values (inc_Column \<lparr>inc_Column = ''id'', inc_Initial = ''0''\<rparr>) (rows_of [''id'', ''v''] demo_rows)"
  have k: "\<forall>v \<in> set ?vals. kind_of v = KInt" by (simp add: demo_inc_hyps(11))
  obtain res e' w' where r: "RunTask (demo_engine never) demo_inc ''cron'' (demo_state, []) = Some (res, e', w')"
    "rr_Status res = Succeeded" "rr_OKRows res = int (length demo_rows)"
    "if ?vals = [] then st_state (es_runs e') = st_state (es_runs demo_state)
     else \<exists>m kr. m \<in> set ?vals \<and> (\<forall>v \<in> set ?vals. wm_le v m) \<and> encodeWatermark bits_text m = Inr kr \<and>
       st_state (es_runs e') = (st_state (es_runs demo_state))(tk_Name demo_inc \<mapsto> kr)"
    using incremental_run_stores_maximum [where reg = registry_locker and clk = demo_clock and e = demo_state and t = demo_inc
      and trigger = "''cron''" and k = KInt and F = bits_text and w = "[]",
      OF demo_inc_hyps(1,2,4,5,6,7,8,9) k, folded demo_engine_def] by auto
  have "demo_inc_outcome res e'"
    using r(2,3) demo_inc_max [OF r(4) [unfolded Incremental.select_convs]]
    by (simp add: demo_inc_outcome_def demo_rows_def)
  with r(1) show ?thesis by blast
qed

lemma demo_inc_run:
  obtains res e' w' where "RunTask (demo_engine never) demo_inc ''cron'' (demo_state, []) = Some (res, e', w')"
    "st_state (es_runs e') = [''t'' \<mapsto> (''int'', ''3'')]"
proof -
  let ?vals = "column_values (inc_Column \<lparr>inc_Column = ''id'', inc_Initial = ''0''\<rparr>) (rows_of [''id'', ''v''] demo_rows)"
  have k: "\<forall>v \<in> set ?vals. kind_of v = KInt" by (simp add: demo_inc_hyps(11))
  obtain res e' w' where r: "RunTask (demo_engine never) demo_inc ''cron'' (demo_state, []) = Some (res, e', w')"
    "if ?vals = [] then st_state (es_runs e') = st_state (es_runs demo_state)
     else \<exists>m kr. m \<in> set ?vals \<and> (\<forall>v \<in> set ?vals. wm_le v m) \<and> encodeWatermark bits_text m = Inr kr \<and>
       st_state (es_runs e') = (st_state (es_runs demo_state))(tk_Name demo_inc \<mapsto> kr)"
    using incremental_run [where reg = registry_locker and clk = demo_clock and e = demo_state and t = demo_inc
      and trigger = "''cron''" and k = KInt and F = bits_text and w = "[]",
      OF demo_inc_hyps(1,2,4,5,6,7,8,9) k, folded demo_engine_def] by auto
  show thesis by (rule that [OF r(1) demo_inc_max [OF r(2) [unfolded Incremental.select_convs]]])
qed

theorem watermark_moves_only_on_clean_run_witness:
  "\<exists>res e' w'. RunTask (demo_engine never) demo_inc ''cron'' (demo_state, []) = Some (res, e', w') \<and>
    st_state (es_runs e') ''t'' \<noteq> st_state (es_runs demo_state) ''t'' \<and>
    rr_Status res = Succeeded \<and> rr_FailRows res = 0 \<and> rr_OKRows res = rr_TotalRows res"
proof -
  obtain res e' w' where r: "RunTask (demo_engine never) demo_inc ''cron'' (demo_state, []) = Some (res, e', w')"
    "st_state (es_runs e') = [''t'' \<mapsto> (''int'', ''3'')]" by (rule demo_inc_run)
  have d: "st_state (es_runs e') ''t'' \<noteq> st_state (es_runs demo_state) ''t''"
    by (simp add: r(2) demo_inc_hyps(3))
  from watermark_moves_only_on_clean_run [OF r(1) [unfolded demo_engine_def] demo_inc_hyps(9) d] r(1) d
  show ?thesis by blast
qed

text \<open>
  C30: a configuration can be valid and its task still never run: an incremental task whose
  query does not mention \<open>:watermark\<close> passes validation (validation never looks at the
  query's text), and every one of its runs then fails, or is skipped, without a single row.
\<close>
theorem valid_task_without_token_never_runs:
  assumes "Validate env c = (None, c')" "t \<in> set c'" "tk_Incremental t = Some inc"
    and "\<not> contains (ep_Query (tk_Source t)) watermarkToken"
    and "RunTask (NewEngine D reg clk F) t trigger (e, w) = Some (res, e', w')"
  shows "rr_Status res \<in> {Failed, Skipped} \<and> rr_TotalRows res = 0"
proof -
  have "0 < tg_BatchSize (tk_Target t)"
    using assms(1,2) by (rule validated_batch)
  from run_no_token [OF assms(3,4) this assms(5)] show ?thesis .
qed

theorem valid_task_without_token_never_runs_witness:
  "\<exists>t res e' w'. Validate no_env [sample_task\<lparr>tk_Incremental := Some \<lparr>inc_Column = ''id'', inc_Initial = ''0''\<rparr>\<rparr>] = (None, [t]) \<and>
    RunTask (demo_engine never) t ''cron'' (demo_state, []) = Some (res, e', w') \<and> rr_Status res \<in> {Failed, Skipped}"
proof -
  let ?t = "sample_task\<lparr>tk_Incremental := Some \<lparr>inc_Column = ''id'', inc_Initial = ''0''\<rparr>\<rparr>"
  let ?v = "validated no_env ?t"
  have "ParseDuration ''90s'' = Some 90000000000" "identRe ''id''" by code_simp+
  then have v: "Validate no_env [?t] = (None, [?v])"
    by (simp add: Validate_ok acceptable_def sample_task_def sample_endpoint_def no_env_def supportedTypes_def
        resolveDSN_def incremental_ok_def)
  have b: "0 < tg_BatchSize (tk_Target ?v)" "tk_Incremental ?v = Some \<lparr>inc_Column = ''id'', inc_Initial = ''0''\<rparr>"
    "ep_Query (tk_Source ?v) = ''SELECT 1''" "\<not> maxPageCap < tk_PageSize ?v"
    by (simp_all add: validated_def sample_task_def sample_endpoint_def maxPageCap_def)
  have c: "\<not> contains (ep_Query (tk_Source ?v)) watermarkToken"
    unfolding b(3) by (simp add: watermarkToken_def)
  obtain res e' w' where r: "RunTask (demo_engine never) ?v ''cron'' (demo_state, []) = Some (res, e', w')"
    unfolding demo_engine_def by (rule prog.RunTask_result [OF b(1)]) (use b(4) in blast)+
  from valid_task_without_token_never_runs [OF v _ b(2) c r [unfolded demo_engine_def]] v r show ?thesis by auto
qed

section \<open>Insert mode on the bulk path\<close>

lemma bulk_pg_merges:
  assumes "chunk \<noteq> []" "SplitTablePath table = Inr parts" "list_all identRe cols" "list_all identRe keys"
    and "sc_dialect c = pgDialect" "bd_is_pgx D" "keys \<noteq> []"
    and "bd_conn D (conn_driver c) (sc_dsn c) w = (None, w1)"
    and "bd_exec D (conn_driver c) (sc_dsn c) (pg_create parts cols) w1 = (None, w2)"
    and "bd_copy D (sc_dsn c) [pgStageTempTable] cols (map (\<lambda>r. map (row_get r) cols) chunk) w2 = (None, w3)"
    and "bd_exec D (conn_driver c) (sc_dsn c) (pg_merge parts keys cols) w3 = (None, w4)"
  shows "BulkLoad D c table keys cols chunk w = (Inr (int (length chunk)),
    snd (bd_conn_close D (conn_driver c) (sc_dsn c) (snd (bd_exec D (conn_driver c) (sc_dsn c) pg_drop w4))))"
proof -
  have v: "ValidateColumns cols = None" "ValidateColumns keys = None"
    using assms(3,4) by (simp_all add: ValidateColumns_None list_all_iff)
  have "pg_session D c parts keys cols chunk w1 = (None, snd (bd_exec D (conn_driver c) (sc_dsn c) pg_drop w4))"
    using assms(6,7,9-11) by (simp add: pg_session_def drain_from)
  then show ?thesis
    by (simp add: BulkLoad_def assms(1,2,5,8) v bulkPostgres_def)
qed

text \<open>
  C34: a task in insert mode that also names keys passes validation, and with \<open>bulk\<close> its rows
  are merged: on a PostgreSQL target on which everything succeeds the rows reach the table by
  a statement that updates the rows whose keys exist already, where the same task without
  \<open>bulk\<close> sends a plain insert, which a conflict makes fail.
\<close>
theorem bulk_insert_mode_overwrites:
  assumes "tg_Mode (tk_Target t) = ''insert''" "tg_Keys (tk_Target t) \<noteq> []" "chunk \<noteq> []"
    and "SplitTablePath (tg_Table (tk_Target t)) = Inr parts" "list_all identRe cols" "list_all identRe (tg_Keys (tk_Target t))"
    and "sc_dialect c = pgDialect" "bd_is_pgx D"
    and "bd_conn D (conn_driver c) (sc_dsn c) w = (None, w1)"
    and "bd_exec D (conn_driver c) (sc_dsn c) (pg_create parts cols) w1 = (None, w2)"
    and "bd_copy D (sc_dsn c) [pgStageTempTable] cols (map (\<lambda>r. map (row_get r) cols) chunk) w2 = (None, w3)"
    and "bd_exec D (conn_driver c) (sc_dsn c) (pg_merge parts (tg_Keys (tk_Target t)) cols) w3 = (None, w4)"
  shows "write_batch (sql_target D c) (t\<lparr>tk_Target := (tk_Target t)\<lparr>tg_Bulk := True\<rparr>\<rparr>) cols chunk (res, w) =
      (res\<lparr>rr_OKRows := rr_OKRows res + int (length chunk)\<rparr>,
       snd (bd_conn_close D (conn_driver c) (sc_dsn c) (snd (bd_exec D (conn_driver c) (sc_dsn c) pg_drop w4)))) \<and>
    (\<exists>p s. pg_merge parts (tg_Keys (tk_Target t)) cols =
      p @ '' ON CONFLICT ('' @ quotedList (tg_Keys (tk_Target t)) quoteDouble @ '') DO UPDATE SET '' @ s) \<and>
    write_batch (sql_target D c) (t\<lparr>tk_Target := (tk_Target t)\<lparr>tg_Bulk := False\<rparr>\<rparr>) cols chunk (res, w) =
      write_regular (sql_target D c) (t\<lparr>tk_Target := (tk_Target t)\<lparr>tg_Bulk := False\<rparr>\<rparr>) cols chunk (res, w) \<and>
    writeChunk (sql_target D c) (t\<lparr>tk_Target := (tk_Target t)\<lparr>tg_Bulk := False\<rparr>\<rparr>) cols chunk w =
      InsertRows D c (tg_Table (tk_Target t)) cols chunk w"
proof (intro conjI)
  have "BulkLoad D c (tg_Table (tk_Target t)) (tg_Keys (tk_Target t)) cols chunk w = (Inr (int (length chunk)),
    snd (bd_conn_close D (conn_driver c) (sc_dsn c) (snd (bd_exec D (conn_driver c) (sc_dsn c) pg_drop w4))))"
    using assms by (intro bulk_pg_merges)
  then show "write_batch (sql_target D c) (t\<lparr>tk_Target := (tk_Target t)\<lparr>tg_Bulk := True\<rparr>\<rparr>) cols chunk (res, w) =
      (res\<lparr>rr_OKRows := rr_OKRows res + int (length chunk)\<rparr>,
       snd (bd_conn_close D (conn_driver c) (sc_dsn c) (snd (bd_exec D (conn_driver c) (sc_dsn c) pg_drop w4))))"
    by (simp add: write_batch_def sql_target_def)
  show "\<exists>p s. pg_merge parts (tg_Keys (tk_Target t)) cols =
      p @ '' ON CONFLICT ('' @ quotedList (tg_Keys (tk_Target t)) quoteDouble @ '') DO UPDATE SET '' @ s"
    by (rule exI [of _ "''INSERT INTO '' @ qualify parts quoteDouble @ '' ('' @ quotedList cols quoteDouble @ '') SELECT '' @
          quotedList cols quoteDouble @ '' FROM '' @ quoteDouble pgStageTempTable"],
        rule exI [of _ "conflictSets (tg_Keys (tk_Target t)) cols quoteDouble"])
      (simp add: pg_merge_def)
qed (simp_all add: write_batch_def writeChunk_def sql_target_def assms(1))

definition no_fault :: "string \<Rightarrow> error option" where
  "no_fault q = None"

theorem bulk_insert_mode_overwrites_witness:
  "\<exists>t. Validate no_env [sample_task\<lparr>tk_Target := (tk_Target sample_task)\<lparr>tg_Endpoint := sample_endpoint\<lparr>ep_Type := ''postgres''\<rparr>,
      tg_Mode := ''insert'', tg_Bulk := True\<rparr>\<rparr>] = (None, [t]) \<and>
    snd (write_batch (sql_target (trace_bulk no_fault) pg_conn) t [''id'', ''name''] [[(''id'', VInt64 1), (''name'', VStr ''x'')]]
      (empty_result [] [], [])) =
    [''conn'', pg_create [''users''] [''id'', ''name''], ''copy'',
     ''INSERT INTO \"users\" (\"id\", \"name\") SELECT \"id\", \"name\" FROM \"_replicron_bulk_stage\" ON CONFLICT (\"id\") DO UPDATE SET \"name\" = excluded.\"name\"'',
     pg_drop, ''close'']"
proof -
  let ?t = "sample_task\<lparr>tk_Target := (tk_Target sample_task)\<lparr>tg_Endpoint := sample_endpoint\<lparr>ep_Type := ''postgres''\<rparr>,
      tg_Mode := ''insert'', tg_Bulk := True\<rparr>\<rparr>"
  let ?v = "validated no_env ?t" and ?D = "trace_bulk no_fault" and ?cols = "[''id'', ''name'']"
  have d: "ParseDuration ''90s'' = Some 90000000000" and i: "list_all identRe ?cols" "list_all identRe [''id'']" by code_simp+
  have v: "Validate no_env [?t] = (None, [?v])"
    using d by (simp add: Validate_ok acceptable_def sample_task_def sample_endpoint_def no_env_def supportedTypes_def
        resolveDSN_def incremental_ok_def)
  have tgt: "tg_Mode (tk_Target ?v) = ''insert''" "tg_Keys (tk_Target ?v) = [''id'']" "tg_Table (tk_Target ?v) = ''users''"
    "?v\<lparr>tk_Target := (tk_Target ?v)\<lparr>tg_Bulk := True\<rparr>\<rparr> = ?v"
    by (simp_all add: validated_def sample_task_def)
  have m: "pg_merge [''users''] [''id''] ?cols =
      ''INSERT INTO \"users\" (\"id\", \"name\") SELECT \"id\", \"name\" FROM \"_replicron_bulk_stage\" ON CONFLICT (\"id\") DO UPDATE SET \"name\" = excluded.\"name\"''"
    by code_simp
  have "write_batch (sql_target ?D pg_conn) (?v\<lparr>tk_Target := (tk_Target ?v)\<lparr>tg_Bulk := True\<rparr>\<rparr>) ?cols
      [[(''id'', VInt64 1), (''name'', VStr ''x'')]] (empty_result [] [], []) =
      ((empty_result [] [])\<lparr>rr_OKRows := rr_OKRows (empty_result [] []) + int (length [[(''id'', VInt64 1), (''name'', VStr ''x'')]])\<rparr>,
       snd (bd_conn_close ?D (conn_driver pg_conn) (sc_dsn pg_conn) (snd (bd_exec ?D (conn_driver pg_conn) (sc_dsn pg_conn) pg_drop
         [''conn'', pg_create [''users''] ?cols, ''copy'', pg_merge [''users''] [''id''] ?cols]))))"
    by (rule bulk_insert_mode_overwrites [where parts = "[''users'']", THEN conjunct1])
      (use i in \<open>simp_all add: tgt SplitTable_users trace_bulk_def pg_conn_def no_fault_def\<close>)
  then show ?thesis using v unfolding tgt m by (auto simp: trace_bulk_def no_fault_def)
qed

section \<open>Reading a window again\<close>

text \<open>The effect of an upsert on a keyed table.\<close>

definition upsert_row :: "(row \<Rightarrow> 'k) \<Rightarrow> row \<Rightarrow> ('k \<rightharpoonup> row) \<Rightarrow> 'k \<rightharpoonup> row" where
  "upsert_row key r m = m(key r \<mapsto> r)"

lemma fold_upsert: "fold (upsert_row key) rows m k =
    (case find (\<lambda>r. key r = k) (rev rows) of None \<Rightarrow> m k | Some r \<Rightarrow> Some r)"
proof (induction rows arbitrary: m)
  case (Cons r rows)
  have "find P (xs @ [x]) = (case find P xs of None \<Rightarrow> if P x then Some x else None | Some y \<Rightarrow> Some y)" for P :: "row \<Rightarrow> bool" and xs x
    by (induction xs) auto
  with Cons show ?case by (auto simp: upsert_row_def split: option.split)
qed simp

lemma upsert_again: "fold (upsert_row key) (pre @ post) (fold (upsert_row key) pre m) = fold (upsert_row key) (pre @ post) m"
proof
  fix k
  have f: "find P (xs @ ys) = (case find P xs of None \<Rightarrow> find P ys | Some y \<Rightarrow> Some y)" for P :: "row \<Rightarrow> bool" and xs ys
    by (induction xs) auto
  show "fold (upsert_row key) (pre @ post) (fold (upsert_row key) pre m) k = fold (upsert_row key) (pre @ post) m k"
    unfolding fold_upsert by (simp add: f split: option.split)
qed

text \<open>
  Upserts absorb a window that is read again: if a run wrote only a first part of its
  rows and the next one, whose watermark was held, writes the whole window, then the keyed
  target is what one complete run would have made of it, whatever the batch sizes.
\<close>
theorem replayed_window_is_absorbed:
  assumes "atomic_writes tgt t cols (\<lambda>_. True) (upsert_row key)" "\<not> tg_Bulk (tk_Target t)" "0 < b" "0 < b'"
    and "batch_loop tgt t cols b pre 0 (res1, m) = Some (res1', m1)"
    and "batch_loop tgt t cols b' (pre @ post) 0 (res2, m1) = Some (res2', m2)"
    and "batch_loop tgt t cols b' (pre @ post) 0 (res3, m) = Some (res3', m3)"
  shows "m2 = m3"
proof -
  have w: "m' = fold (upsert_row key) page m" if "0 < b" "batch_loop tgt t cols b page 0 (res, m) = Some (res', m')"
    for b page res res' m m'
    using batch_loop_atomic [OF assms(1,2) that(1), of page "(res, m)"] that(2) by (auto simp: written_def)
  show ?thesis
    using w [OF assms(3,5)] w [OF assms(4,6)] w [OF assms(4,7)] upsert_again by metis
qed

text \<open>A target that is the keyed table itself.\<close>

definition table_target :: "(go_value \<rightharpoonup> row) TargetConn" where
  "table_target =
     \<lparr>tgt_UpsertRows = \<lambda>_ _ _ rows m. (Inr (int (length rows)), fold (upsert_row (\<lambda>r. row_get r ''id'')) rows m),
      tgt_InsertRows = \<lambda>_ _ rows m. (Inl (External ''duplicate key''), m),
      tgt_BulkLoad = None, tgt_Close = \<lambda>m. (None, m)\<rparr>"

theorem replayed_window_is_absorbed_witness:
  "\<exists>r1 m1 r2 m2 r3. batch_loop table_target demo_task [''id''] 2 [[(''id'', VInt64 1)]] 0 (empty_result [] [], Map.empty) = Some (r1, m1) \<and>
    batch_loop table_target demo_task [''id''] 3 ([[(''id'', VInt64 1)]] @ [[(''id'', VInt64 2)]]) 0 (empty_result [] [], m1) = Some (r2, m2) \<and>
    batch_loop table_target demo_task [''id''] 3 ([[(''id'', VInt64 1)]] @ [[(''id'', VInt64 2)]]) 0 (empty_result [] [], Map.empty) = Some (r3, m2)"
proof -
  have a: "atomic_writes table_target demo_task [''id''] (\<lambda>_. True) (upsert_row (\<lambda>r. row_get r ''id''))"
    by (simp add: atomic_writes_def writeChunk_def table_target_def demo_task_def list_all_iff)
  have b: "\<not> tg_Bulk (tk_Target demo_task)" by (simp add: demo_task_def)
  have loop: "\<exists>r m'. batch_loop table_target demo_task [''id''] n page 0 (empty_result [] [], m) = Some (r, m')"
    if "0 < n" for n page m
    using batch_loop_atomic [OF a b that, of page "(empty_result [] [], m)"] by auto
  let ?p = "[[(''id'', VInt64 1)]]" and ?q = "[[(''id'', VInt64 2)]]"
  obtain r1 m1 where 1: "batch_loop table_target demo_task [''id''] 2 ?p 0 (empty_result [] [], Map.empty) = Some (r1, m1)"
    using loop [of 2 ?p Map.empty] by auto
  obtain r2 m2 where 2: "batch_loop table_target demo_task [''id''] 3 (?p @ ?q) 0 (empty_result [] [], m1) = Some (r2, m2)"
    using loop [of 3 "?p @ ?q" m1] by auto
  obtain r3 m3 where 3: "batch_loop table_target demo_task [''id''] 3 (?p @ ?q) 0 (empty_result [] [], Map.empty) = Some (r3, m3)"
    using loop [of 3 "?p @ ?q" Map.empty] by auto
  have "m2 = m3" by (rule replayed_window_is_absorbed [OF a b _ _ 1 2 3]) simp_all
  with 1 2 3 show ?thesis by blast
qed

end
