(* ===== verification/Metrics.thy ===== *)
theory Metrics
  imports EngineProps
begin

text \<open>
  \<open>internal/metrics/metrics.go\<close>: the counters and the histogram \<open>ObserveRun\<close> feeds, and how they
  agree with the run log over a sequence of runs. A counter vector is a total function from
  label values (an absent series reads as zero) to the sum of what was added; the histogram
  keeps the observations of each series. (The library adds \<open>float64\<close> values; sums up to
  \<open>2^53\<close> are exact, so below that a sum of integers is the integer here.)
\<close>

section \<open>The metrics\<close>

record M =
  m_runs :: "string \<times> string \<Rightarrow> int"    \<comment> \<open>\<open>runs_total\<close>, by task and status\<close>
  m_rows :: "string \<times> string \<Rightarrow> int"    \<comment> \<open>\<open>rows_total\<close>, by task and outcome\<close>
  m_dur :: "string \<Rightarrow> int list"           \<comment> \<open>\<open>run_duration_seconds\<close>, in nanoseconds\<close>

definition New :: M where
  "New = \<lparr>m_runs = \<lambda>_. 0, m_rows = \<lambda>_. 0, m_dur = \<lambda>_. []\<rparr>"

definition MObserveRun :: "string \<Rightarrow> RunStatus \<Rightarrow> int \<Rightarrow> int \<Rightarrow> int \<Rightarrow> M \<Rightarrow> M" where
  "MObserveRun task status ok fail d m =
     (let m = m\<lparr>m_runs := (m_runs m)((task, status_text status) := m_runs m (task, status_text status) + 1)\<rparr>;
          m = (if 0 < ok then m\<lparr>m_rows := (m_rows m)((task, ''ok'') := m_rows m (task, ''ok'') + ok)\<rparr> else m);
          m = (if 0 < fail then m\<lparr>m_rows := (m_rows m)((task, ''fail'') := m_rows m (task, ''fail'') + fail)\<rparr> else m)
      in m\<lparr>m_dur := (m_dur m)(task := m_dur m task @ [d])\<rparr>)"

text \<open>The engine's observations, handed to the metrics in order.\<close>

definition observe_all :: "observation list \<Rightarrow> M \<Rightarrow> M" where
  "observe_all obs = fold (\<lambda>x. MObserveRun (ob_task x) (ob_status x) (ob_ok x) (ob_fail x) (ob_duration x)) obs"

lemma m_runs_observe: "m_runs (MObserveRun task st ok fail d m) k = m_runs m k + (if k = (task, status_text st) then 1 else 0)"
  by (simp add: MObserveRun_def Let_def)

lemma m_rows_observe: "m_rows (MObserveRun task st ok fail d m) k = m_rows m k +
    (if k = (task, ''ok'') then max ok 0 else if k = (task, ''fail'') then max fail 0 else 0)"
  by (auto simp: MObserveRun_def Let_def max_def)

lemma m_dur_observe: "m_dur (MObserveRun task st ok fail d m) t = m_dur m t @ (if t = task then [d] else [])"
  by (simp add: MObserveRun_def Let_def)

lemma observe_all_sums:
  "m_runs (observe_all obs m) (t, s) =
     m_runs m (t, s) + int (length (filter (\<lambda>x. ob_task x = t \<and> status_text (ob_status x) = s) obs))"
  "m_rows (observe_all obs m) (t, ''ok'') = m_rows m (t, ''ok'') + (\<Sum>x \<leftarrow> obs. if ob_task x = t then max (ob_ok x) 0 else 0)"
  "m_rows (observe_all obs m) (t, ''fail'') = m_rows m (t, ''fail'') + (\<Sum>x \<leftarrow> obs. if ob_task x = t then max (ob_fail x) 0 else 0)"
  "m_dur (observe_all obs m) t = m_dur m t @ map ob_duration (filter (\<lambda>x. ob_task x = t) obs)"
  by (induction obs arbitrary: m) (simp_all add: observe_all_def m_runs_observe m_rows_observe m_dur_observe)

section \<open>Sequences of runs\<close>

text \<open>The runs of a list of tasks with their triggers, one after the other.\<close>

fun run_all ::
  "('t, 'l, 'w) Engine \<Rightarrow> (Task \<times> string) list \<Rightarrow> 'l EngineState \<times> 'w \<Rightarrow> (RunResult list \<times> 'l EngineState \<times> 'w) option" where
  "run_all E [] s = Some ([], s)"
| "run_all E ((t, trigger) # ts) s =
     (case RunTask E t trigger s of
        None \<Rightarrow> None
      | Some (r, s) \<Rightarrow> (case run_all E ts s of None \<Rightarrow> None | Some (rs, s) \<Rightarrow> Some (r # rs, s)))"

definition healthy_log :: "Store \<Rightarrow> bool" where
  "healthy_log S \<longleftrightarrow> store_ok S \<and> st_faults S = []"

lemma StartRun_healthy: "StartRun now task trigger S = (r, S') \<Longrightarrow> healthy_log S \<Longrightarrow> healthy_log S'"
proof -
  assume s: "StartRun now task trigger S = (r, S')" and h: "healthy_log S"
  have "st_faults S' = []" using s h by (auto simp: StartRun_def sql_def Let_def healthy_log_def)
  moreover have "store_ok S'"
    using log_step_ok [of S _ "OStart now task trigger" "[]" S' "case r of Inl _ \<Rightarrow> [] | Inr i \<Rightarrow> [i]"] h s
    by (auto simp: healthy_log_def split: sum.split)
  ultimately show "healthy_log S'" by (simp add: healthy_log_def)
qed

lemma FinishRun_healthy: "FinishRun F now i res S = (oe, S') \<Longrightarrow> healthy_log S \<Longrightarrow> healthy_log S'"
  using FinishRun_store(2) [of F now i res S oe S'] log_step_ok [of S F "OFinish now i res" "[]" S' "[]"]
  by (simp add: healthy_log_def)

lemma body_rel_healthy: "body_rel E t res e e' \<Longrightarrow> healthy_log (es_runs e) \<Longrightarrow> healthy_log (es_runs e')"
  by (auto simp: body_rel_def frame_def healthy_log_def)

lemma finish_healthy:
  assumes "finish E t start tok runID (res, e) = (res', e')" "healthy_log (es_runs e)"
  shows "healthy_log (es_runs e')"
proof -
  let ?r = "res\<lparr>rr_Duration := inst (en_clock E (es_ticks e)) - inst start\<rparr>"
  obtain oe S where f: "FinishRun (en_float E) (en_clock E (es_ticks e + 1)) runID ?r (es_runs e) = (oe, S)"
    by (cases "FinishRun (en_float E) (en_clock E (es_ticks e + 1)) runID ?r (es_runs e)")
  have "es_runs e' = (if 0 < runID then S else es_runs e)"
    using assms(1) f by (auto simp: finish_def time_Now_def Let_def ObserveRun_def)
  then show ?thesis using FinishRun_healthy [OF f assms(2)] assms(2) by simp
qed

lemma run_skipped_healthy:
  assumes "run_skipped E t trigger start res e = (res', e')" "healthy_log (es_runs e)"
  shows "healthy_log (es_runs e')"
proof -
  have FR: "healthy_log (snd (FinishRun (en_float E) now i r S))" if "healthy_log S" for now i r S
    using FinishRun_healthy [OF prod.collapse [symmetric] that] .
  have "StartRun now task tr S = (x, S1) \<Longrightarrow> healthy_log S \<Longrightarrow> healthy_log S1" for now task tr S x S1
    by (rule StartRun_healthy)
  with FR assms show ?thesis
    by (auto simp: run_skipped_def time_Now_def Let_def ObserveRun_def split: prod.splits sum.splits)
qed

context engine_contract
begin

lemma RunTask_healthy:
  assumes batch: "0 < tg_BatchSize (tk_Target t)" and h: "healthy_log (es_runs e)"
    and run: "RunTask E t trigger (e, w) = Some (res, e', w')"
  shows "healthy_log (es_runs e')"
proof -
  obtain a l where acq: "lk_Acquire (en_Reg E) (en_clock E (es_ticks e + 1)) (tk_Name t) (es_lock e) = (a, l)"
    by (cases "lk_Acquire (en_Reg E) (en_clock E (es_ticks e + 1)) (tk_Name t) (es_lock e)")
  show ?thesis
  proof (cases a)
    case None
    let ?e = "refused_state l e"
    obtain r1 e1 where s: "run_skipped E t trigger (en_clock E (es_ticks e)) (empty_result (tk_Name t) trigger) ?e = (r1, e1)"
      by (cases "run_skipped E t trigger (en_clock E (es_ticks e)) (empty_result (tk_Name t) trigger) ?e")
    have "e' = e1" using RunTask_skipped [OF acq [unfolded None], of trigger w] run s by simp
    with run_skipped_healthy [OF s] h show ?thesis by simp
  next
    case (Some tok)
    obtain r S where st: "StartRun (en_clock E (es_ticks e + 2)) (tk_Name t) trigger (es_runs e) = (r, S)"
      by (cases "StartRun (en_clock E (es_ticks e + 2)) (tk_Name t) trigger (es_runs e)")
    let ?e = "started_state l S e"
    let ?id = "case r of Inl _ \<Rightarrow> 0 | Inr i \<Rightarrow> i"
    obtain res1 e1 w1 where b: "body_rel E t res1 ?e e1"
      "RunTask E t trigger (e, w) =
        (case finish E t (en_clock E (es_ticks e)) tok ?id (res1, e1) of (res, e') \<Rightarrow> Some (res, e', w1))"
      using RunTask_acquired [OF acq [unfolded Some] st batch, where w = w] run by auto
    have "healthy_log (es_runs e1)" using body_rel_healthy [OF b(1)] StartRun_healthy [OF st h] by simp
    moreover obtain r2 e2 where "finish E t (en_clock E (es_ticks e)) tok ?id (res1, e1) = (r2, e2)"
      by (cases "finish E t (en_clock E (es_ticks e)) tok ?id (res1, e1)")
    ultimately show ?thesis using finish_healthy b(2) run by force
  qed
qed

end

section \<open>Log and metrics side by side\<close>

text \<open>An observation and a row of the run log that say the same.\<close>

definition agrees :: "observation \<Rightarrow> run_row \<Rightarrow> bool" where
  "agrees x row \<longleftrightarrow> ob_task x = rw_task row \<and> ob_status x = rw_status row \<and> ob_ok x = rw_ok_rows row \<and>
     ob_fail x = rw_fail_rows row \<and> 0 \<le> ob_ok x \<and> 0 \<le> ob_fail x"

lemma agrees_result:
  "0 \<le> rr_OKRows res \<Longrightarrow> 0 \<le> rr_FailRows res \<Longrightarrow> agrees (observed t res) (finish_row F t1 res (started_row t0 (tk_Name t) trigger i))"
  by (simp add: agrees_def observed_def finish_row_def started_row_def)

lemma agrees_sums:
  assumes "list_all2 agrees obs rows"
  shows "length (filter (\<lambda>x. ob_task x = t \<and> status_text (ob_status x) = s) obs) =
      length (filter (\<lambda>r. rw_task r = t \<and> status_text (rw_status r) = s) rows)"
    and "(\<Sum>x \<leftarrow> obs. if ob_task x = t then max (ob_ok x) 0 else 0) = (\<Sum>r \<leftarrow> rows. if rw_task r = t then rw_ok_rows r else 0)"
    and "(\<Sum>x \<leftarrow> obs. if ob_task x = t then max (ob_fail x) 0 else 0) = (\<Sum>r \<leftarrow> rows. if rw_task r = t then rw_fail_rows r else 0)"
  using assms by (induction rule: list_all2_induct) (auto simp: agrees_def)

context engine_contract
begin

lemma RunTask_agrees:
  assumes "0 < tg_BatchSize (tk_Target t)" "healthy_log (es_runs e)"
    and run: "RunTask E t trigger (e, w) = Some (res, e', w')"
  obtains x row where "es_met e' = es_met e @ [x]" "st_runs (es_runs e') = st_runs (es_runs e) @ [row]" "agrees x row"
    "healthy_log (es_runs e')" "rw_task row = tk_Name t" "rw_trigger_kind row = trigger"
proof -
  have h: "healthy_log (es_runs e')" by (rule RunTask_healthy [OF assms])
  have nf: "st_faults (es_runs e) = []" "store_ok (es_runs e)" using assms(2) by (simp_all add: healthy_log_def)
  have lab: "rw_task (finish_row F t1 res (started_row t0 (tk_Name t) trigger i)) = tk_Name t"
    "rw_trigger_kind (finish_row F t1 res (started_row t0 (tk_Name t) trigger i)) = trigger" for F t0 t1 i
    by (simp_all add: finish_row_def started_row_def)
  from assms(1) show thesis
  proof (cases rule: RunTask_result [where trigger = trigger and e = e and w = w])
    case panicked
    with run show thesis by simp
  next
    case (skipped l res1 e1 d)
    then obtain t0 t1 where "st_runs (es_runs e') = st_runs (es_runs e) @
        [finish_row (en_float E) t1 res (started_row t0 (tk_Name t) trigger (st_run_seq (es_runs e) + 1))]"
      using nf run by auto
    moreover have "0 \<le> rr_OKRows res" "0 \<le> rr_FailRows res" using skipped(2,3) run by (auto simp: skipped_result_def)
    ultimately show thesis using that [OF _ _ agrees_result h lab] skipped run by auto
  next
    case (ran tok l res1 e1 w1)
    then obtain t0 t1 where "st_runs (es_runs e') = st_runs (es_runs e) @
        [finish_row (en_float E) t1 res (started_row t0 (tk_Name t) trigger (st_run_seq (es_runs e) + 1))]"
      using nf run by auto
    moreover have "0 \<le> rr_OKRows res" "0 \<le> rr_FailRows res" using ran(2,3) run by (auto simp: final_def counted_def)
    ultimately show thesis using that [OF _ _ agrees_result h lab] ran run by auto
  qed
qed

lemma run_all_agrees:
  assumes "\<forall>(t, tr) \<in> set ts. sizes_ok t" "healthy_log (es_runs e)"
  shows "\<exists>rs e' w' obs rows. run_all E ts (e, w) = Some (rs, e', w') \<and> length rs = length ts \<and> healthy_log (es_runs e') \<and>
    es_met e' = es_met e @ obs \<and> st_runs (es_runs e') = st_runs (es_runs e) @ rows \<and> list_all2 agrees obs rows \<and>
    map rw_task rows = map (\<lambda>(t, tr). tk_Name t) ts \<and> map rw_trigger_kind rows = map snd ts"
  using assms
proof (induction ts arbitrary: e w)
  case (Cons tt ts)
  obtain t tr where tt: "tt = (t, tr)" by (cases tt)
  have ok: "sizes_ok t" using Cons.prems(1) tt by simp
  then have b: "0 < tg_BatchSize (tk_Target t)" by (simp add: sizes_ok_def)
  obtain res e1 w1 where r: "RunTask E t tr (e, w) = Some (res, e1, w1)"
    by (rule RunTask_returns [OF ok, where trigger = tr and e = e and w = w])
  obtain x row where 1: "es_met e1 = es_met e @ [x]" "st_runs (es_runs e1) = st_runs (es_runs e) @ [row]" "agrees x row"
    "healthy_log (es_runs e1)" "rw_task row = tk_Name t" "rw_trigger_kind row = tr"
    by (rule RunTask_agrees [OF b Cons.prems(2) r])
  have rest: "\<forall>(t, tr) \<in> set ts. sizes_ok t" using Cons.prems(1) by simp
  obtain rs e' w' obs rows where 2: "run_all E ts (e1, w1) = Some (rs, e', w')" "length rs = length ts"
    "healthy_log (es_runs e')" "es_met e' = es_met e1 @ obs" "st_runs (es_runs e') = st_runs (es_runs e1) @ rows"
    "list_all2 agrees obs rows" "map rw_task rows = map (\<lambda>(t, tr). tk_Name t) ts" "map rw_trigger_kind rows = map snd ts"
    using Cons.IH [OF rest 1(4), of w1] by blast
  have "run_all E (tt # ts) (e, w) = Some (res # rs, e', w')" using r 2(1) by (simp add: tt)
  moreover have "es_met e' = es_met e @ (x # obs)" "st_runs (es_runs e') = st_runs (es_runs e) @ (row # rows)"
    "list_all2 agrees (x # obs) (row # rows)" "length (res # rs) = length (tt # ts)"
    "map rw_task (row # rows) = map (\<lambda>(t, tr). tk_Name t) (tt # ts)" "map rw_trigger_kind (row # rows) = map snd (tt # ts)"
    using 1 2 by (simp_all add: tt)
  ultimately show ?case using 2(3) by blast
qed simp

end

section \<open>Properties\<close>

text \<open>
  C25: the metrics and the run log tell the same story: after any sequence of runs (of tasks
  with a positive batch size and pages that can be allocated) on a healthy, initially empty log, \<open>runs_total\<close> of a task and status is the number of its rows
  with that status, \<open>rows_total\<close> is the sum of their written and failed rows, and the
  histogram has one observation per row; and the sequence runs to its end.
\<close>
theorem metrics_agree_with_log:
  assumes "\<forall>(t, tr) \<in> set ts. sizes_ok t" "healthy_log (es_runs e)"
    and "st_runs (es_runs e) = []" "es_met e = []"
  shows "\<exists>rs e' w'. run_all (NewEngine D reg clk F) ts (e, w) = Some (rs, e', w') \<and>
    (let m = observe_all (es_met e') New; rows = st_runs (es_runs e') in
      length rows = length ts \<and>
      (\<forall>n s. m_runs m (n, s) = int (length (filter (\<lambda>r. rw_task r = n \<and> status_text (rw_status r) = s) rows))) \<and>
      (\<forall>n. m_rows m (n, ''ok'') = (\<Sum>r \<leftarrow> rows. if rw_task r = n then rw_ok_rows r else 0)) \<and>
      (\<forall>n. m_rows m (n, ''fail'') = (\<Sum>r \<leftarrow> rows. if rw_task r = n then rw_fail_rows r else 0)) \<and>
      (\<forall>n. length (m_dur m n) = length (filter (\<lambda>r. rw_task r = n) rows)))"
proof -
  obtain rs e' w' obs rows where r: "run_all (NewEngine D reg clk F) ts (e, w) = Some (rs, e', w')" "length rs = length ts"
    "es_met e' = obs" "st_runs (es_runs e') = rows" "list_all2 agrees obs rows" "map rw_trigger_kind rows = map snd ts"
    using prog.run_all_agrees [OF assms(1,2), of D reg clk F w] assms(3,4) by auto
  have len: "length rows = length ts" using r(6) by (metis length_map)
  have dur: "length (filter (\<lambda>x. ob_task x = n) obs) = length (filter (\<lambda>r. rw_task r = n) rows)" for n
    using r(5) by (induction rule: list_all2_induct) (auto simp: agrees_def)
  show ?thesis
    using r(1) len dur agrees_sums [OF r(5)]
    by (intro exI [of _ rs] exI [of _ e'] exI [of _ w']) (simp add: Let_def r(3,4) observe_all_sums New_def)
qed

theorem metrics_agree_with_log_witness:
  "\<exists>rs e' w'. run_all (demo_engine never) [(demo_task, ''manual''), (demo_task, ''cron'')] (demo_state, []) = Some (rs, e', w') \<and>
    length (st_runs (es_runs e')) = 2 \<and> length (m_dur (observe_all (es_met e') New) ''t'') =
      length (filter (\<lambda>r. rw_task r = ''t'') (st_runs (es_runs e')))"
proof -
  have "\<forall>(t, tr) \<in> set [(demo_task, ''manual''), (demo_task, ''cron'')]. sizes_ok t"
    "healthy_log (es_runs demo_state)" "st_runs (es_runs demo_state) = []" "es_met demo_state = []"
    by (simp_all add: demo_sizes demo_state_def healthy_log_def store_ok_def new_store_def)
  from metrics_agree_with_log [OF this, of "demo_drivers never" registry_locker demo_clock bits_text "[]", folded demo_engine_def]
  show ?thesis by (auto simp: Let_def)
qed

end
