(* ===== verification/Mirror.thy ===== *)
theory Mirror
  imports EngineCopy Metrics
begin

text \<open>
  Successive incremental runs over a source that grows: the watermark one run stores is the
  literal of the next one's query, so the runs together are a copy.
\<close>

section \<open>Runs between which the world changes\<close>

text \<open>Before each run other programs change the databases.\<close>

fun inc_runs ::
  "('t, 'l, 'w) Engine \<Rightarrow> Task \<Rightarrow> ('w \<Rightarrow> 'w) list \<Rightarrow> 'l EngineState \<times> 'w \<Rightarrow> ('l EngineState \<times> 'w) option" where
  "inc_runs E t [] s = Some s"
| "inc_runs E t (ch # chs) s =
     (case s of (e, w) \<Rightarrow>
        (case RunTask E t ''cron'' (e, ch w) of
           None \<Rightarrow> None
         | Some (_, s) \<Rightarrow> inc_runs E t chs s))"

section \<open>Windows\<close>

definition row_key :: "string \<Rightarrow> row \<Rightarrow> int" where
  "row_key col r = (case row_get r col of VInt64 i \<Rightarrow> sint i | _ \<Rightarrow> 0)"

definition keyed :: "string \<Rightarrow> row \<Rightarrow> bool" where
  "keyed col r \<longleftrightarrow> (\<exists>i. row_get r col = VInt64 i)"

text \<open>Every row has a key, in increasing order, as an AUTOINCREMENT column gives.\<close>

definition increasing :: "string \<Rightarrow> row list \<Rightarrow> bool" where
  "increasing col rs \<longleftrightarrow> list_all (keyed col) rs \<and> sorted_wrt (<) (map (row_key col) rs)"

definition beyond :: "string \<Rightarrow> int \<Rightarrow> row list \<Rightarrow> row list" where
  "beyond col lo rs = filter (\<lambda>r. lo < row_key col r) rs"

lemma beyond_append: "beyond col lo (xs @ ys) = beyond col lo xs @ beyond col lo ys"
  by (simp add: beyond_def)

lemma increasing_append:
  "increasing col (xs @ ys) \<longleftrightarrow> increasing col xs \<and> increasing col ys \<and>
    (\<forall>x \<in> set xs. \<forall>y \<in> set ys. row_key col x < row_key col y)"
  by (auto simp: increasing_def sorted_wrt_append)

lemma increasing_beyond: "increasing col rs \<Longrightarrow> increasing col (beyond col lo rs)"
proof (induction rs)
  case (Cons r rs)
  then have "increasing col rs" by (simp add: increasing_def)
  with Cons show ?case by (auto simp: beyond_def increasing_def)
qed (simp add: beyond_def increasing_def)

lemma beyond_all: "\<forall>r \<in> set rs. lo < row_key col r \<Longrightarrow> beyond col lo rs = rs"
  by (simp add: beyond_def)

lemma beyond_none: "\<forall>r \<in> set rs. row_key col r \<le> lo \<Longrightarrow> beyond col lo rs = []"
  by (auto simp: beyond_def filter_empty_conv)

text \<open>What the watermark is worth after some rows were delivered.\<close>

definition high_water :: "string \<Rightarrow> int \<Rightarrow> row list \<Rightarrow> int" where
  "high_water col lo rs = (if rs = [] then lo else row_key col (last rs))"

lemma increasing_last:
  assumes "increasing col rs" "r \<in> set rs"
  shows "row_key col r \<le> row_key col (last rs)"
proof -
  have "rs \<noteq> []" using assms(2) by auto
  then have "rs = butlast rs @ [last rs]" by simp
  with assms have "r = last rs \<or> row_key col r < row_key col (last rs)"
    by (metis UnE increasing_append list.set_intros(1) set_ConsD set_append empty_iff empty_set)
  then show ?thesis by auto
qed

text \<open>The window after \<open>old\<close>, of a source that has grown by \<open>new\<close>.\<close>

lemma next_window:
  assumes inc: "increasing col (old @ new)"
  shows "beyond col (high_water col lo (beyond col lo old)) (old @ new) = beyond col lo new"
proof (cases "beyond col lo old = []")
  case True
  then show ?thesis by (simp add: high_water_def beyond_append)
next
  case False
  let ?d = "beyond col lo old"
  have l: "last ?d \<in> set old" "lo < row_key col (last ?d)"
    using last_in_set [OF False] by (auto simp: beyond_def)
  have sep: "\<forall>x \<in> set old. \<forall>y \<in> set new. row_key col x < row_key col y" and io: "increasing col old"
    using inc by (auto simp: increasing_append)
  have "row_key col r \<le> row_key col (last ?d)" if "r \<in> set old" for r
  proof (cases "lo < row_key col r")
    case True
    then have "r \<in> set ?d" using that by (simp add: beyond_def)
    with increasing_last [OF increasing_beyond [OF io]] show ?thesis by blast
  qed (use l in simp)
  then have "beyond col (row_key col (last ?d)) old = []" by (simp add: beyond_none)
  moreover have "beyond col (row_key col (last ?d)) new = new" "beyond col lo new = new"
    using sep l by (auto intro!: beyond_all) fastforce
  ultimately show ?thesis using False by (simp add: high_water_def beyond_append)
qed

lemma high_water_append:
  "beyond col lo (xs @ ys) \<noteq> [] \<Longrightarrow> high_water col lo (beyond col lo (xs @ ys)) =
    (if beyond col lo ys = [] then high_water col lo (beyond col lo xs) else row_key col (last (beyond col lo ys)))"
  by (auto simp: high_water_def beyond_append)

section \<open>The databases\<close>

text \<open>
  What is assumed of the two databases and the task's query: asked with an integer literal in
  place of the token, the query delivers the source's rows beyond it, in order, and changes
  nothing; each statement on the target is atomic and appends the row (the target's key is new
  for a new row); closing a connection changes neither table.
\<close>

definition mirrors ::
  "('w, 'x) bulk_drivers_scheme \<Rightarrow> Task \<Rightarrow> sqlConn \<Rightarrow> string list \<Rightarrow> string \<Rightarrow> (row \<Rightarrow> 'w \<Rightarrow> 'w) \<Rightarrow>
    ('w \<Rightarrow> row list) \<Rightarrow> ('w \<Rightarrow> row list) \<Rightarrow> bool" where
  "mirrors D t c cols col put src tgt \<longleftrightarrow>
     (\<forall>lo w. int64_range lo \<longrightarrow> (\<exists>vs w3.
        source_yields D t (replace_all (ep_Query (tk_Source t)) watermarkToken (itoa lo)) w c cols vs w3 \<and>
        rows_of cols vs = beyond col lo (src w) \<and> src w3 = src w \<and> tgt w3 = tgt w)) \<and>
     atomic_writes (sql_target D c) t (sort cols) (\<lambda>_. True) put \<and>
     (\<forall>r w. map fst r = cols \<longrightarrow> src (put r w) = src w \<and> tgt (put r w) = tgt w @ [r]) \<and>
     (\<forall>w w'. closed_after D c w w' \<longrightarrow> src w' = src w \<and> tgt w' = tgt w)"

text \<open>An incremental task on an integer column, plain batches.\<close>

definition int_task :: "Task \<Rightarrow> string \<Rightarrow> int \<Rightarrow> bool" where
  "int_task t col init \<longleftrightarrow>
     tk_Incremental t = Some \<lparr>inc_Column = col, inc_Initial = itoa init\<rparr> \<and> int64_range init \<and>
     contains (ep_Query (tk_Source t)) watermarkToken \<and> \<not> tg_Bulk (tk_Target t) \<and> 0 < tg_BatchSize (tk_Target t)"

text \<open>The watermark stored when the rows \<open>d\<close> were delivered, and the state between two runs.\<close>

definition stored_mark :: "string \<Rightarrow> row list \<Rightarrow> (string \<times> string) option" where
  "stored_mark col d = (if d = [] then None else Some (''int'', itoa (row_key col (last d))))"

definition settled :: "Task \<Rightarrow> string \<Rightarrow> row list \<Rightarrow> Registry EngineState \<Rightarrow> bool" where
  "settled t col d e \<longleftrightarrow>
     healthy_log (es_runs e) \<and> reg_running (es_lock e) (tk_Name t) = None \<and>
     st_state (es_runs e) (tk_Name t) = stored_mark col d"

lemma keyed_key: "keyed col r \<Longrightarrow> row_get r col = VInt64 (word_of_int (row_key col r)) \<and> int64_range (row_key col r)"
  by (auto simp: keyed_def row_key_def int64_range_sint)

lemma fold_put:
  assumes "mirrors D t c cols col put src tgt" "\<forall>r \<in> set rs. map fst r = cols"
  shows "src (fold put rs w) = src w \<and> tgt (fold put rs w) = tgt w @ rs"
  using assms(2)
proof (induction rs arbitrary: w)
  case (Cons r rs)
  then show ?case using assms(1) by (simp add: mirrors_def)
qed simp

lemma query_at_mark:
  assumes t: "int_task t col init" and s: "settled t col d e" and d: "increasing col d"
  shows "fst (prepare_query F t (es_runs e)) =
    Inr (replace_all (ep_Query (tk_Source t)) watermarkToken (itoa (high_water col init d)), Some (new_tracker col)) \<and>
    int64_range (high_water col init d)"
proof (cases "d = []")
  case True
  with t s show ?thesis
    by (simp add: prepare_query_def int_task_def settled_def stored_mark_def GetWatermark_def sql_none healthy_log_def high_water_def Let_def)
next
  case False
  let ?k = "row_key col (last d)"
  have k: "int64_range ?k" "keyed col (last d)"
    using d False last_in_set [OF False] keyed_key [of col "last d"] by (auto simp: increasing_def list_all_iff)
  then have "sint (word_of_int ?k :: i64) = ?k" by (auto simp: keyed_def row_key_def)
  with False t s k(1) show ?thesis
    by (simp add: prepare_query_def int_task_def settled_def stored_mark_def GetWatermark_def sql_none healthy_log_def
        high_water_def Let_def decodeWatermark_def parse_int_itoa)
qed

lemma window_maximum:
  assumes inc: "increasing col rs" and m: "m \<in> set (column_values col rs)" "\<forall>v \<in> set (column_values col rs). wm_le v m"
  shows "m = row_get (last rs) col \<and> encodeWatermark F m = Inr (''int'', itoa (row_key col (last rs)))"
proof -
  obtain r where r: "r \<in> set rs" "m = row_get r col" using m(1) by (auto simp: column_values_def)
  then have ne: "rs \<noteq> []" by auto
  have key: "row_get x col = VInt64 (word_of_int (row_key col x)) \<and> int64_range (row_key col x)" if "x \<in> set rs" for x
    using inc that by (auto simp: increasing_def list_all_iff intro!: keyed_key)
  have sk: "sint (word_of_int (row_key col x) :: i64) = row_key col x" if "x \<in> set rs" for x
    using inc that by (auto simp: increasing_def list_all_iff keyed_def row_key_def)
  have l: "last rs \<in> set rs" using ne by simp
  have "row_get (last rs) col \<noteq> VNil" using key [OF l] by simp
  with l have "row_get (last rs) col \<in> set (column_values col rs)" by (simp add: column_values_def)
  with m(2) have "wm_le (row_get (last rs) col) m" by blast
  then have "row_key col (last rs) \<le> row_key col r"
    using key [OF l] key [OF r(1)] sk [OF l] sk [OF r(1)] by (simp add: r(2))
  with increasing_last [OF inc r(1)] have "row_key col r = row_key col (last rs)" by simp
  then show ?thesis using key [OF l] key [OF r(1)] sk [OF l] by (simp add: r(2))
qed

lemma rows_of_cols: "\<forall>v \<in> set vs. length v = length cols \<Longrightarrow> r \<in> set (rows_of cols vs) \<Longrightarrow> map fst r = cols"
  by (auto simp: rows_of_def)

section \<open>One run\<close>

lemma inc_step:
  assumes m: "mirrors D t c cols col put src tgt" and t: "int_task t col init"
    and s: "settled t col (beyond col init old) e" and w: "src w = old @ new" "tgt w = beyond col init old"
    and inc: "increasing col (src w)"
  shows "\<exists>res e' w'. RunTask (NewEngine D registry_locker clk F) t ''cron'' (e, w) = Some (res, e', w') \<and>
    src w' = src w \<and> tgt w' = beyond col init (src w) \<and> settled t col (beyond col init (src w)) e'"
proof -
  let ?d = "beyond col init old" and ?rs = "beyond col init new"
  let ?lo = "high_water col init ?d"
  have io: "increasing col old" "increasing col new" using inc w(1) by (simp_all add: increasing_append)
  have ir: "increasing col ?rs" by (rule increasing_beyond [OF io(2)])
  have q: "fst (prepare_query F t (es_runs e)) =
      Inr (replace_all (ep_Query (tk_Source t)) watermarkToken (itoa ?lo), Some (new_tracker col))"
    and lo: "int64_range ?lo"
    using query_at_mark [OF t s increasing_beyond [OF io(1)]] by auto
  obtain vs w3 where y: "source_yields D t (replace_all (ep_Query (tk_Source t)) watermarkToken (itoa ?lo)) w c cols vs w3"
    and rs: "rows_of cols vs = beyond col ?lo (src w)" and w3: "src w3 = src w" "tgt w3 = tgt w"
    using m lo unfolding mirrors_def by blast
  have rs: "rows_of cols vs = ?rs" using next_window [of col old new init] inc by (simp add: rs w(1))
  have names: "\<forall>r \<in> set ?rs. map fst r = cols"
    using y rows_of_cols [of vs cols] by (simp add: source_yields_def rs)
  have vals: "column_values col ?rs = map (\<lambda>r. row_get r col) ?rs" and kinds: "\<forall>v \<in> set (column_values col ?rs). kind_of v = KInt"
    using ir by (auto simp: column_values_def increasing_def list_all_iff keyed_def filter_id_conv)
  obtain tok l where acq: "lk_Acquire registry_locker (clk (es_ticks e + 1)) (tk_Name t) (es_lock e) = (Some tok, l)"
    using s by (simp add: settled_def registry_locker_def Acquire_def Let_def)
  have h: "healthy_log (es_runs e)" and free: "reg_running (es_lock e) (tk_Name t) = None"
    and st: "st_state (es_runs e) (tk_Name t) = stored_mark col ?d"
    using s by (simp_all add: settled_def)
  have nf: "st_faults (es_runs e) = []" using h by (simp add: healthy_log_def)
  have ti: "tk_Incremental t = Some \<lparr>inc_Column = col, inc_Initial = itoa init\<rparr>" "\<not> tg_Bulk (tk_Target t)"
    "0 < tg_BatchSize (tk_Target t)" using t by (simp_all add: int_task_def)
  have a: "atomic_writes (sql_target D c) t (sort cols) (\<lambda>_. True) put" using m by (simp add: mirrors_def)
  obtain res e' w' where r: "RunTask (NewEngine D registry_locker clk F) t ''cron'' (e, w) = Some (res, e', w')"
    and c: "closed_after D c (fold put ?rs w3) w'"
    and mk: "if column_values col ?rs = [] then st_state (es_runs e') = st_state (es_runs e)
     else \<exists>m kr. m \<in> set (column_values col ?rs) \<and> (\<forall>v \<in> set (column_values col ?rs). wm_le v m) \<and>
       encodeWatermark F m = Inr kr \<and> st_state (es_runs e') = (st_state (es_runs e))(tk_Name t \<mapsto> kr)"
    using incremental_run [where reg = registry_locker and clk = clk and e = e and trigger = "''cron''" and k = KInt and F = F, OF acq nf ti(1) q y a ti(2,3)] kinds
    unfolding rs Incremental.select_convs by blast
  have "src w' = src (fold put ?rs w3)" "tgt w' = tgt (fold put ?rs w3)" using m c by (auto simp: mirrors_def)
  then have world: "src w' = src w" "tgt w' = ?d @ ?rs" using fold_put [OF m names] w3 w(2) by simp_all
  have log: "healthy_log (es_runs e')" by (rule prog.RunTask_healthy [OF ti(3) h r])
  have reg: "reg_running (es_lock e') = reg_running (es_lock e)" by (rule registry_kept [OF r ti(3)])
  have "st_state (es_runs e') (tk_Name t) = stored_mark col (?d @ ?rs)"
  proof (cases "?rs = []")
    case True
    with mk st show ?thesis by (simp add: column_values_def)
  next
    case False
    then have "column_values col ?rs \<noteq> []" by (simp add: vals)
    with mk window_maximum [OF ir] False show ?thesis by (auto simp: stored_mark_def)
  qed
  with log reg free have "settled t col (?d @ ?rs) e'" by (simp add: settled_def)
  with r world show ?thesis by (simp add: w(1) beyond_append)
qed

section \<open>Successive runs\<close>

text \<open>Before a run the source's table gets the rows \<open>new\<close>.\<close>

definition appends :: "('w \<Rightarrow> row list) \<Rightarrow> ('w \<Rightarrow> 'b) \<Rightarrow> row list \<Rightarrow> ('w \<Rightarrow> 'w) \<Rightarrow> bool" where
  "appends src tgt new ch \<longleftrightarrow> (\<forall>w. src (ch w) = src w @ new \<and> tgt (ch w) = tgt w)"

lemma inc_runs_mirror:
  assumes m: "mirrors D t c cols col put src tgt" and t: "int_task t col init"
    and "list_all2 (appends src tgt) news chs" and "settled t col (beyond col init (src w)) e"
    and "tgt w = beyond col init (src w)" "increasing col (src w @ concat news)"
  shows "\<exists>e' w'. inc_runs (NewEngine D registry_locker clk F) t chs (e, w) = Some (e', w') \<and>
    src w' = src w @ concat news \<and> tgt w' = beyond col init (src w') \<and> settled t col (beyond col init (src w')) e'"
  using assms(3-)
proof (induction news chs arbitrary: e w rule: list_all2_induct)
  case (Cons new news ch chs)
  have g: "src (ch w) = src w @ new" "tgt (ch w) = tgt w" using Cons.hyps(1) by (simp_all add: appends_def)
  have inc: "increasing col (src (ch w))" using Cons.prems(3) by (simp add: g(1) flip: append_assoc) (simp add: increasing_append)
  obtain res e1 w1 where r: "RunTask (NewEngine D registry_locker clk F) t ''cron'' (e, ch w) = Some (res, e1, w1)"
    "src w1 = src (ch w)" "tgt w1 = beyond col init (src (ch w))" "settled t col (beyond col init (src (ch w))) e1"
    using inc_step [where clk = clk and F = F, OF m t Cons.prems(1) g(1) _ inc] g(2) Cons.prems(2) by auto
  obtain e' w' where "inc_runs (NewEngine D registry_locker clk F) t chs (e1, w1) = Some (e', w')"
    "src w' = src w1 @ concat news" "tgt w' = beyond col init (src w')" "settled t col (beyond col init (src w')) e'"
    using Cons.IH [of w1 e1] Cons.prems(3) g(1) r(2-4) by auto
  with r(1,2) g(1) show ?case by auto
qed simp

section \<open>A source that answers the query\<close>

text \<open>The world is the ids of the source's rows and the pairs written to the target.\<close>

type_synonym mirror_world = "i64 list \<times> (go_value \<times> go_value) list"

definition mirror_row :: "go_value \<times> go_value \<Rightarrow> row" where
  "mirror_row p = [(''id'', fst p), (''v'', snd p)]"

definition mirror_src :: "mirror_world \<Rightarrow> row list" where
  "mirror_src w = map (\<lambda>i. mirror_row (VInt64 i, VStr ''x'')) (fst w)"

definition mirror_tgt :: "mirror_world \<Rightarrow> row list" where
  "mirror_tgt w = map mirror_row (snd w)"

definition mirror_put :: "row \<Rightarrow> mirror_world \<Rightarrow> mirror_world" where
  "mirror_put r w = (fst w, snd w @ [(row_get r ''id'', row_get r ''v'')])"

fun pairs_of :: "go_value list \<Rightarrow> (go_value \<times> go_value) list" where
  "pairs_of (a # b # vs) = (a, b) # pairs_of vs"
| "pairs_of _ = []"

text \<open>The text \<open>id > N\<close> is read as a query would be.\<close>

definition mirror_rows :: "string \<Rightarrow> mirror_world \<Rightarrow> go_value list list" where
  "mirror_rows q w = (case parse_int (drop 5 q) of None \<Rightarrow> []
     | Some lo \<Rightarrow> map (\<lambda>i. [VInt64 i, VStr ''x'']) (filter (\<lambda>i. lo < sint i) (fst w)))"

definition mirror_drivers :: "mirror_world bulk_drivers" where
  "mirror_drivers =
     \<lparr>drv_open = \<lambda>_ _ w. (None, w), drv_ping = \<lambda>_ _ w. (None, w), drv_close = \<lambda>_ _ w. (None, w),
      drv_query = \<lambda>_ _ q w. (Inr \<lparr>rs_cols = Inr [''id'', ''v''], rs_fetches = map FRow (mirror_rows q w), rs_err = None\<rparr>, w),
      drv_exec = \<lambda>_ _ q args w. (None, (fst w, snd w @ pairs_of args)),
      bd_conn = \<lambda>_ _ w. (None, w), bd_conn_close = \<lambda>_ _ w. (None, w), bd_exec = \<lambda>_ _ q w. (None, w),
      bd_is_pgx = False, bd_copy = \<lambda>_ dst cols rows w. (None, w), bd_prepare = \<lambda>_ stage cols w. (None, w),
      bd_send = \<lambda>_ vals w. (None, w), bd_flush = \<lambda>_ w. (None, w), bd_stmt_close = \<lambda>_ w. (None, w),
      bd_now = \<lambda>w. (GoTime 0 0, w)\<rparr>"

lemma demo_query: "replace_all (ep_Query (tk_Source demo_inc)) watermarkToken s = ''id > '' @ s"
  by (simp add: demo_inc_def watermarkToken_def)

lemma mirror_atomic:
  "atomic_writes (sql_target mirror_drivers demo_conn) demo_inc (sort [''id'', ''v'']) (\<lambda>_. True) mirror_put"
proof -
  have v: "ValidateColumns [''id'', ''v''] = None" "ValidateColumns [''id''] = None"
    using demo_valid by (simp_all add: ValidateColumns_None)
  have put: "fold mirror_put chunk w = (fst w, snd w @ pairs_of (flatArgs [''id'', ''v''] chunk))" for chunk w
    by (induction chunk arbitrary: w) (simp_all add: flatArgs_concat mirror_put_def)
  have "writeChunk (sql_target mirror_drivers demo_conn) demo_inc [''id'', ''v''] chunk w =
      (Inr (int (length chunk)), fold mirror_put chunk w)" if "chunk \<noteq> []" for chunk w
    using that unfolding put
    by (simp add: writeChunk_def sql_target_def UpsertRows_def demo_inc_def demo_task_def SplitTable_users v Let_def mirror_drivers_def)
  then show ?thesis by (simp add: atomic_writes_def demo_valid(2) list_all_iff)
qed

lemma mirror_yields:
  assumes "int64_range lo"
  shows "source_yields mirror_drivers demo_inc (replace_all (ep_Query (tk_Source demo_inc)) watermarkToken (itoa lo)) w
      demo_conn [''id'', ''v''] (mirror_rows (''id > '' @ itoa lo) w) w \<and>
    rows_of [''id'', ''v''] (mirror_rows (''id > '' @ itoa lo) w) = beyond ''id'' lo (mirror_src w)"
proof
  have fit: "cols_fit demo_inc [''id'', ''v'']"
    using demo_valid(1) by (simp add: cols_fit_def demo_inc_def demo_task_def)
  have o: "OpenSource mirror_drivers ''sqlite'' ''s'' w = (Inr (demo_conn\<lparr>sc_dsn := ''s''\<rparr>), w)"
    "OpenTarget mirror_drivers ''sqlite'' ''d'' w = (Inr demo_conn, w)"
    by (simp_all add: OpenSource_def OpenTarget_def open_conn_def Connect_def mirror_drivers_def demo_conn_def)
  have ep: "ep_Type (tk_Source demo_inc) = ''sqlite''" "ep_DSN (tk_Source demo_inc) = ''s''"
    "ep_Type (tg_Endpoint (tk_Target demo_inc)) = ''sqlite''" "ep_DSN (tg_Endpoint (tk_Target demo_inc)) = ''d''"
    by (simp_all add: demo_inc_def demo_task_def)
  have p: "parse_int (drop 5 (''id > '' @ itoa lo)) = Some lo" using assms by (simp add: parse_int_itoa)
  show "source_yields mirror_drivers demo_inc (replace_all (ep_Query (tk_Source demo_inc)) watermarkToken (itoa lo)) w
      demo_conn [''id'', ''v''] (mirror_rows (''id > '' @ itoa lo) w) w"
    unfolding source_yields_def ep demo_query
    by (intro conjI exI, rule o(1), rule o(2), simp add: mirror_drivers_def, rule fit, auto simp: mirror_rows_def demo_inc_sizes split: option.splits)
  show "rows_of [''id'', ''v''] (mirror_rows (''id > '' @ itoa lo) w) = beyond ''id'' lo (mirror_src w)"
    unfolding mirror_rows_def p option.case
    by (simp add: rows_of_def beyond_def mirror_src_def filter_map comp_def row_key_def mirror_row_def row_get_def)
qed

lemma mirror_mirrors:
  "mirrors mirror_drivers demo_inc demo_conn [''id'', ''v''] ''id'' mirror_put mirror_src mirror_tgt"
proof -
  have "mirror_src (mirror_put r w) = mirror_src w \<and> mirror_tgt (mirror_put r w) = mirror_tgt w @ [r]"
    if "map fst r = [''id'', ''v'']" for r w
    using that by (auto simp: mirror_src_def mirror_put_def mirror_tgt_def mirror_row_def row_get_def map_eq_Cons_conv)
  moreover have "closed_after mirror_drivers demo_conn w w' \<longleftrightarrow> w' = w" for w w'
    by (simp add: closed_after_def Close_def mirror_drivers_def)
  moreover have "\<exists>vs w3. source_yields mirror_drivers demo_inc (replace_all (ep_Query (tk_Source demo_inc)) watermarkToken (itoa lo)) w
      demo_conn [''id'', ''v''] vs w3 \<and>
    rows_of [''id'', ''v''] vs = beyond ''id'' lo (mirror_src w) \<and> mirror_src w3 = mirror_src w \<and> mirror_tgt w3 = mirror_tgt w"
    if "int64_range lo" for lo w
    using mirror_yields [OF that, of w] by (intro exI conjI) (rule conjunct1, assumption, rule conjunct2, assumption, rule refl, rule refl)
  ultimately show ?thesis using mirror_atomic unfolding mirrors_def by simp
qed

section \<open>Properties\<close>

text \<open>
  C3: successive incremental runs are a copy: over a source whose rows get increasing integer
  keys, and a target that takes every row, any number of runs (at least one), started with
  no stored watermark and an empty target and with new rows appended before each of them,
  all return and leave in the target exactly the source's rows beyond the initial value,
  each once, in order, none missed and none written twice; the stored watermark is then the
  last key.
\<close>
theorem incremental_runs_mirror:
  assumes "mirrors D t c cols col put src tgt" "int_task t col init"
    and "chs \<noteq> []" "list_all2 (appends src tgt) news chs"
    and "settled t col [] e" "tgt w = []" "increasing col (src w @ concat news)"
  shows "\<exists>e' w'. inc_runs (NewEngine D registry_locker clk F) t chs (e, w) = Some (e', w') \<and>
    src w' = src w @ concat news \<and> tgt w' = beyond col init (src w') \<and>
    st_state (es_runs e') (tk_Name t) = stored_mark col (tgt w')"
proof -
  obtain ch cs new ns where c: "chs = ch # cs" "news = new # ns" "appends src tgt new ch" "list_all2 (appends src tgt) ns cs"
    using assms(3,4) by (cases chs) (auto simp: list_all2_Cons2)
  have g: "src (ch w) = src w @ new" "tgt (ch w) = tgt w" using c(3) by (simp_all add: appends_def)
  have inc: "increasing col (src (ch w) @ concat ns)" using assms(7) by (simp add: g(1) c(2))
  then have inc1: "increasing col (src (ch w))" by (simp add: increasing_append)
  obtain res e1 w1 where r: "RunTask (NewEngine D registry_locker clk F) t ''cron'' (e, ch w) = Some (res, e1, w1)"
    "src w1 = src (ch w)" "tgt w1 = beyond col init (src (ch w))" "settled t col (beyond col init (src (ch w))) e1"
    using inc_step [where old = "[]" and new = "src (ch w)" and w = "ch w" and e = e and clk = clk and F = F,
        OF assms(1,2) _ _ _ inc1] assms(5,6) g(2)
    by (auto simp: beyond_def)
  obtain e' w' where s: "inc_runs (NewEngine D registry_locker clk F) t cs (e1, w1) = Some (e', w')"
    "src w' = src w1 @ concat ns" "tgt w' = beyond col init (src w')" "settled t col (beyond col init (src w')) e'"
    using inc_runs_mirror [where w = w1 and e = e1 and clk = clk and F = F, OF assms(1,2) c(4)] r inc by auto
  with r g(1) show ?thesis by (auto simp: c(1,2) settled_def)
qed

theorem incremental_runs_mirror_witness:
  "\<exists>e' w'. inc_runs (NewEngine mirror_drivers registry_locker demo_clock bits_text) demo_inc
      [id, \<lambda>w. (fst w @ [5], snd w), id] (demo_state, ([1, 2], [])) = Some (e', w') \<and>
    mirror_tgt w' = map (\<lambda>i. mirror_row (VInt64 i, VStr ''x'')) [1, 2, 5] \<and>
    st_state (es_runs e') ''t'' = Some (''int'', ''5'')"
proof -
  let ?w = "([1, 2], []) :: mirror_world" and ?r = "\<lambda>i. mirror_row (VInt64 i, VStr ''x'')"
  have i: "itoa 0 = ''0''" "itoa 5 = ''5''" by code_simp+
  have t: "int_task demo_inc ''id'' 0" "tk_Name demo_inc = ''t''"
    using demo_inc_hyps(4,8,9,10) by (simp_all add: int_task_def i) (simp add: demo_inc_def watermarkToken_def int64_range_def)
  have ap: "list_all2 (appends mirror_src mirror_tgt) [[], [?r 5], []] [id, \<lambda>w. (fst w @ [5], snd w), id]"
    by (simp add: appends_def mirror_src_def mirror_tgt_def)
  have s: "settled demo_inc ''id'' [] demo_state"
    by (simp add: settled_def demo_state_def new_store_def healthy_log_def store_ok_def NewRegistry_def stored_mark_def)
  have inc: "increasing ''id'' (mirror_src ?w @ concat [[], [?r 5], []])"
    by (simp add: increasing_def keyed_def row_key_def mirror_src_def mirror_row_def row_get_def)
  from incremental_runs_mirror [where e = demo_state and w = ?w and clk = demo_clock and F = bits_text,
      OF mirror_mirrors t(1) _ ap s _ inc]
  show ?thesis
    by (auto simp: mirror_tgt_def mirror_src_def beyond_def stored_mark_def row_key_def mirror_row_def row_get_def i t(2))
qed

end
