(* ===== verification/Recover.thy ===== *)
theory Recover
  imports Mirror
begin

text \<open>
  Successive incremental runs when anything may fail: databases that do not open, queries and
  cursors that break off, statements that are refused or store a part of their rows, a run log
  that cannot be written, a lock that is taken. No row of the source is ever skipped, and the
  next run in which nothing fails makes the keyed target complete.
\<close>

section \<open>A keyed table\<close>

lemma fold_upsert_set:
  assumes "inj_on key S" "set rows \<subseteq> S" "r \<in> S"
  shows "fold (upsert_row key) rows m (key r) = (if r \<in> set rows then Some r else m (key r))"
proof (cases "find (\<lambda>x. key x = key r) (rev rows)")
  case None
  then have "r \<notin> set rows" by (auto simp: find_None_iff)
  with None show ?thesis by (simp add: fold_upsert)
next
  case (Some x)
  then have "x \<in> set rows" "key x = key r" using find_Some_set [OF Some] by simp_all
  with assms have "x = r" by (meson inj_onD subsetD)
  with Some \<open>x \<in> set rows\<close> show ?thesis by (simp add: fold_upsert)
qed

lemma fold_upsert_Some:
  assumes "fold (upsert_row key) rows m k = Some r"
  shows "(r \<in> set rows \<and> key r = k) \<or> m k = Some r"
  using assms
proof (induction rows arbitrary: m)
  case (Cons a rows)
  have "(r \<in> set rows \<and> key r = k) \<or> upsert_row key a m k = Some r"
    by (rule Cons.IH) (use Cons.prems in simp)
  then show ?case by (auto simp: upsert_row_def split: if_splits)
qed simp

section \<open>What a writer may do\<close>

text \<open>The two tables of a world, as the hypotheses speak of them.\<close>

text \<open>A statement that is accepted stores its rows; one that is refused may have stored any of
  them, as a load in several statements can, but nothing else.\<close>

definition stores ::
  "('w \<Rightarrow> row list) \<Rightarrow> ('w \<Rightarrow> 'k \<rightharpoonup> row) \<Rightarrow> (row \<Rightarrow> 'k) \<Rightarrow> row list \<Rightarrow> (error + int) \<times> 'w \<Rightarrow> 'w \<Rightarrow> bool" where
  "stores src tb key chunk r w \<longleftrightarrow>
     src (snd r) = src w \<and>
     (\<exists>part. set part \<subseteq> set chunk \<and> tb (snd r) = fold (upsert_row key) part (tb w) \<and> (isl (fst r) \<or> part = chunk))"

definition upserting ::
  "'w TargetConn \<Rightarrow> Task \<Rightarrow> string list \<Rightarrow> ('w \<Rightarrow> row list) \<Rightarrow> ('w \<Rightarrow> 'k \<rightharpoonup> row) \<Rightarrow> (row \<Rightarrow> 'k) \<Rightarrow> bool" where
  "upserting tgt t cols src tb key \<longleftrightarrow>
     (\<forall>chunk w. set chunk \<subseteq> set (src w) \<longrightarrow>
        stores src tb key chunk (writeChunk tgt t cols chunk w) w \<and>
        (\<forall>bulk. tg_Bulk (tk_Target t) \<and> tgt_BulkLoad tgt = Some bulk \<longrightarrow>
           stores src tb key chunk (bulk (tg_Table (tk_Target t)) (tg_Keys (tk_Target t)) cols chunk w) w))"

text \<open>From \<open>s\<close> to \<open>s'\<close> rows of \<open>rows\<close> were stored; all of them unless failures were counted.\<close>

definition stored_upto ::
  "('w \<Rightarrow> row list) \<Rightarrow> ('w \<Rightarrow> 'k \<rightharpoonup> row) \<Rightarrow> (row \<Rightarrow> 'k) \<Rightarrow> row list \<Rightarrow> RunResult \<times> 'w \<Rightarrow> RunResult \<times> 'w \<Rightarrow> bool" where
  "stored_upto src tb key rows s s' \<longleftrightarrow>
     src (snd s') = src (snd s) \<and> rr_FailRows (fst s) \<le> rr_FailRows (fst s') \<and>
     (\<exists>part. set part \<subseteq> set rows \<and> tb (snd s') = fold (upsert_row key) part (tb (snd s)) \<and>
        (rr_FailRows (fst s') = rr_FailRows (fst s) \<longrightarrow> set part = set rows))"

lemma upto_refl: "stored_upto src tb key [] s s"
  by (simp add: stored_upto_def)

lemma upto_trans:
  assumes "stored_upto src tb key xs s1 s2" "stored_upto src tb key ys s2 s3"
  shows "stored_upto src tb key (xs @ ys) s1 s3"
proof -
  obtain p q where "set p \<subseteq> set xs" "tb (snd s2) = fold (upsert_row key) p (tb (snd s1))"
    "rr_FailRows (fst s2) = rr_FailRows (fst s1) \<longrightarrow> set p = set xs"
    "set q \<subseteq> set ys" "tb (snd s3) = fold (upsert_row key) q (tb (snd s2))"
    "rr_FailRows (fst s3) = rr_FailRows (fst s2) \<longrightarrow> set q = set ys"
    using assms unfolding stored_upto_def by blast
  then show ?thesis using assms unfolding stored_upto_def by (intro conjI exI [of _ "p @ q"]) auto
qed

text \<open>A refused attempt before the rows are written.\<close>

lemma upto_after_refusal:
  assumes "stores src tb key rows (Inl e, w1) w" "stored_upto src tb key rows (res, w1) s"
  shows "stored_upto src tb key rows (res, w) s"
proof -
  obtain p where "set p \<subseteq> set rows" "tb w1 = fold (upsert_row key) p (tb w)"
    using assms(1) unfolding stores_def by auto
  moreover obtain q where "set q \<subseteq> set rows" "tb (snd s) = fold (upsert_row key) q (tb w1)"
    "rr_FailRows (fst s) = rr_FailRows res \<longrightarrow> set q = set rows"
    using assms(2) unfolding stored_upto_def by auto
  ultimately show ?thesis using assms unfolding stored_upto_def stores_def by (intro conjI exI [of _ "p @ q"]) auto
qed

lemma upto_stored: "stores src tb key rows (Inr n, w1) w \<Longrightarrow> rr_FailRows res' = rr_FailRows res \<Longrightarrow> stored_upto src tb key rows (res, w) (res', w1)"
  unfolding stored_upto_def stores_def by auto

lemma upserting_chunk:
  assumes "upserting tgt t cols src tb key" "set chunk \<subseteq> set (src w)" "writeChunk tgt t cols chunk w = (x, w1)"
  shows "stores src tb key chunk (x, w1) w"
  using assms unfolding upserting_def by metis

lemma write_rows_upto:
  assumes u: "upserting tgt t cols src tb key"
  shows "set rs \<subseteq> set (src (snd s)) \<Longrightarrow> stored_upto src tb key rs s (write_rows tgt t cols rs s)"
proof (induction rs arbitrary: s)
  case (Cons r rs)
  obtain res w where s: "s = (res, w)" by (cases s)
  obtain x w1 where x: "writeChunk tgt t cols [r] w = (x, w1)" by (cases "writeChunk tgt t cols [r] w")
  have st: "stores src tb key [r] (x, w1) w" by (rule upserting_chunk [OF u _ x]) (use Cons.prems s in simp)
  then have "src w1 = src w" by (simp add: stores_def)
  then have rest: "stored_upto src tb key rs (res', w1) (write_rows tgt t cols rs (res', w1))" for res'
    using Cons.prems s by (intro Cons.IH) simp
  show ?case
  proof (cases x)
    case (Inr n)
    have "stored_upto src tb key [r] (res, w) (res\<lparr>rr_OKRows := rr_OKRows res + 1\<rparr>, w1)"
      by (rule upto_stored) (use st Inr in auto)
    from upto_trans [OF this rest] show ?thesis by (simp add: s x Inr)
  next
    case (Inl e)
    let ?r = "let res = res\<lparr>rr_FailRows := rr_FailRows res + 1\<rparr>
             in if length (rr_Samples res) < maxSamples then res\<lparr>rr_Samples := rr_Samples res @ [e]\<rparr> else res"
    have "rr_FailRows ?r = rr_FailRows res + 1" by (simp add: Let_def)
    then have "stored_upto src tb key [r] (res, w) (?r, w1)" using st Inl unfolding stored_upto_def stores_def by auto
    from upto_trans [OF this rest] show ?thesis by (simp add: s x Inl)
  qed
qed (simp add: upto_refl)

lemma write_regular_upto:
  assumes u: "upserting tgt t cols src tb key" and sub: "set chunk \<subseteq> set (src (snd s))"
  shows "stored_upto src tb key chunk s (write_regular tgt t cols chunk s)"
proof -
  obtain res w where s: "s = (res, w)" by (cases s)
  obtain x w1 where x: "writeChunk tgt t cols chunk w = (x, w1)" by (cases "writeChunk tgt t cols chunk w")
  have st: "stores src tb key chunk (x, w1) w" by (rule upserting_chunk [OF u _ x]) (use sub s in simp)
  show ?thesis
  proof (cases x)
    case (Inl e)
    have "set chunk \<subseteq> set (src (snd (res, w1)))" using st sub by (simp add: stores_def s)
    from upto_after_refusal [OF st [unfolded Inl] write_rows_upto [OF u this]] show ?thesis
      by (simp add: s x Inl write_regular_def)
  next
    case (Inr n)
    from upto_stored [OF st [unfolded Inr]] show ?thesis by (simp add: s x Inr write_regular_def)
  qed
qed

lemma write_batch_upto:
  assumes u: "upserting tgt t cols src tb key" and sub: "set chunk \<subseteq> set (src (snd s))"
  shows "stored_upto src tb key chunk s (write_batch tgt t cols chunk s)"
proof (cases "if tg_Bulk (tk_Target t) then tgt_BulkLoad tgt else None")
  case None
  then show ?thesis using write_regular_upto [OF assms] by (simp add: write_batch_def)
next
  case (Some bulk)
  then have b: "tg_Bulk (tk_Target t)" "tgt_BulkLoad tgt = Some bulk" by (simp_all split: if_splits)
  obtain res w where s: "s = (res, w)" by (cases s)
  let ?call = "bulk (tg_Table (tk_Target t)) (tg_Keys (tk_Target t)) cols chunk w"
  obtain x w1 where x: "?call = (x, w1)" by (cases ?call)
  have "set chunk \<subseteq> set (src w)" using sub by (simp add: s)
  then have st: "stores src tb key chunk (x, w1) w" using u b x unfolding upserting_def by metis
  show ?thesis
  proof (cases x)
    case (Inl e)
    have "set chunk \<subseteq> set (src (snd (res, w1)))" using st sub by (simp add: stores_def s)
    from upto_after_refusal [OF st [unfolded Inl] write_regular_upto [OF u this]] show ?thesis
      by (simp add: s x Inl Some write_batch_def)
  next
    case (Inr n)
    from upto_stored [OF st [unfolded Inr]] show ?thesis by (simp add: s x Inr Some write_batch_def)
  qed
qed

lemma stored_upto_src: "stored_upto src tb key rows s s' \<Longrightarrow> src (snd s') = src (snd s)"
  by (simp add: stored_upto_def)

lemma batches_upto:
  assumes u: "upserting tgt t cols src tb key"
  shows "set (concat cs) \<subseteq> set (src (snd s)) \<Longrightarrow> stored_upto src tb key (concat cs) s (fold (write_batch tgt t cols) cs s)"
proof (induction cs arbitrary: s)
  case (Cons c cs)
  have 1: "stored_upto src tb key c s (write_batch tgt t cols c s)" by (rule write_batch_upto [OF u]) (use Cons.prems in simp)
  have "stored_upto src tb key (concat cs) (write_batch tgt t cols c s) (fold (write_batch tgt t cols) cs (write_batch tgt t cols c s))"
    by (rule Cons.IH) (use Cons.prems stored_upto_src [OF 1] in simp)
  from upto_trans [OF 1 this] show ?case by simp
qed (simp add: upto_refl)

section \<open>The pages of a run\<close>

lemma observe_page_snoc:
  "observe_page wm xs = (None, wm1) \<Longrightarrow> observe_page wm (xs @ ys) = observe_page wm1 ys"
  using observe_column [of xs "the wm"]
  by (auto simp: observe_page_def observe_append split: option.splits prod.splits)

lemma observe_page_nil: "observe_page wm [] = (None, wm)"
  by (simp add: observe_page_def split: option.split)

context counting_target
begin

lemma page_step_upto:
  assumes u: "upserting tgt t cols src tb key" and batch: "0 < tg_BatchSize (tk_Target t)" and page: "page \<noteq> []"
    and sub: "set page \<subseteq> set (src w)" "\<forall>r \<in> set (src w). sortedCols r = cols"
    and s: "page_step E tgt t tok i page (p, w) = Some (err, p', w')"
  shows "frame E (ps_es p) (ps_es p') \<and>
    (if err = None then stored_upto src tb key page (ps_res p, w) (ps_res p', w') \<and> observe_page (ps_wm p) page = (None, ps_wm p')
     else stored_upto src tb key [] (ps_res p, w) (ps_res p', w'))"
  using batch page
proof (cases rule: page_step_cases [of t page E tok i p w])
  case (refused e p1)
  with s have "err = Some e" "p' = p1" "w' = w" by simp_all
  with refused show ?thesis by (simp add: upto_refl)
next
  case (accepted p1 w1)
  have 1: "err = None" "p' = p1" "w' = w1" using s accepted(1) by simp_all
  let ?cs = "chunks (nat (clampBatch (tg_BatchSize (tk_Target t)) (int (length cols)))) page"
  have "sortedCols (hd page) = cols" using page sub hd_in_set by blast
  moreover have "concat ?cs = page" using clampBatch_pos [OF batch] by simp
  ultimately have "stored_upto src tb key page (ps_res p, w) (ps_res p', w')"
    using batches_upto [OF u, of ?cs "(ps_res p, w)"] accepted(2) 1 sub(1) by simp
  with 1 accepted(4,5) page_done_frame show ?thesis by simp
qed

lemma feed_upto:
  assumes u: "upserting tgt t cols src tb key" and batch: "0 < tg_BatchSize (tk_Target t)"
    and "\<forall>pg \<in> set pages. pg \<noteq> []" "set (concat pages) \<subseteq> set (src w)" "\<forall>r \<in> set (src w). sortedCols r = cols"
    and "feed (page_step E tgt t tok i) pages n (p, w) = Some (n', err, p', w')"
  shows "frame E (ps_es p) (ps_es p') \<and>
    (\<exists>rows. set rows \<subseteq> set (concat pages) \<and> stored_upto src tb key rows (ps_res p, w) (ps_res p', w') \<and>
      (err = None \<longrightarrow> rows = concat pages \<and> observe_page (ps_wm p) rows = (None, ps_wm p')))"
  using assms(3-)
proof (induction pages arbitrary: n p w)
  case Nil
  then show ?case by (simp add: upto_refl observe_page_nil)
next
  case (Cons pg pages)
  from Cons.prems(4) obtain e1 p1 w1 where 1: "page_step E tgt t tok i pg (p, w) = Some (e1, p1, w1)"
    by (auto split: option.splits)
  have st: "frame E (ps_es p) (ps_es p1) \<and>
    (if e1 = None then stored_upto src tb key pg (ps_res p, w) (ps_res p1, w1) \<and> observe_page (ps_wm p) pg = (None, ps_wm p1)
     else stored_upto src tb key [] (ps_res p, w) (ps_res p1, w1))"
    by (rule page_step_upto [OF u batch _ _ _ 1]) (use Cons.prems in simp_all)
  show ?case
  proof (cases e1)
    case (Some x)
    with Cons.prems(4) 1 have "err \<noteq> None" "p' = p1" "w' = w1" by auto
    with st Some show ?thesis by (intro conjI exI [of _ "[]"]) auto
  next
    case None
    with Cons.prems(4) 1 have "feed (page_step E tgt t tok i) pages (n + int (length pg)) (p1, w1) = Some (n', err, p', w')"
      by simp
    moreover have "src w1 = src w" using st None by (simp add: stored_upto_def)
    ultimately obtain rows where r: "frame E (ps_es p1) (ps_es p')" "set rows \<subseteq> set (concat pages)"
      "stored_upto src tb key rows (ps_res p1, w1) (ps_res p', w')"
      "err = None \<longrightarrow> rows = concat pages \<and> observe_page (ps_wm p1) rows = (None, ps_wm p')"
      using Cons.IH [of w1 _ p1] Cons.prems(1-3) by auto
    have "stored_upto src tb key (pg @ rows) (ps_res p, w) (ps_res p', w')" using upto_trans st None r(3) by auto
    moreover have "frame E (ps_es p) (ps_es p')" using frame_trans st r(1) by blast
    moreover have "err = None \<longrightarrow> pg @ rows = concat (pg # pages) \<and> observe_page (ps_wm p) (pg @ rows) = (None, ps_wm p')"
      using st None r(4) by (auto simp: observe_page_snoc)
    ultimately show ?thesis using r(2) by (intro conjI exI [of _ "pg @ rows"]) auto
  qed
qed

end

section \<open>What a query delivers\<close>

text \<open>The rows of an answer before its first error, and whether there is none.\<close>

fun fetched :: "string list \<Rightarrow> fetch list \<Rightarrow> row list" where
  "fetched cols (FRow v # fs) = scan_row cols v # fetched cols fs"
| "fetched cols _ = []"

fun answer :: "error + rowset \<Rightarrow> row list" where
  "answer (Inl e) = []"
| "answer (Inr rs) = (case rs_cols rs of Inl _ \<Rightarrow> [] | Inr cols \<Rightarrow> fetched cols (rs_fetches rs))"

fun is_row :: "fetch \<Rightarrow> bool" where
  "is_row (FRow v) = True"
| "is_row (FScanErr e) = False"

fun complete :: "error + rowset \<Rightarrow> bool" where
  "complete (Inl e) = False"
| "complete (Inr rs) = (\<not> isl (rs_cols rs) \<and> list_all is_row (rs_fetches rs) \<and> rs_err rs = None)"

lemma fetched_split: "fetched cols (map FRow vs @ fs) = map (scan_row cols) vs @ fetched cols fs"
  by (induction vs) simp_all

lemma set_full_pages: "set (concat (full_pages n rows)) \<subseteq> set rows"
  by (cases "n = 0") (auto simp: full_pages_def dest: in_set_takeD)

lemma Stream_answer:
  assumes cap: "n \<le> maxPageCap"
  shows "\<exists>pages err. (\<forall>(fn :: 's page_fn) s. Stream c q n fn s = end_with err (feed fn pages 0 s)) \<and>
    (\<forall>pg \<in> set pages. pg \<noteq> []) \<and> set (concat pages) \<subseteq> set (answer q) \<and>
    (err = None \<longrightarrow> complete q \<and> concat pages = answer q)"
proof (cases q)
  case (Inl e)
  then show ?thesis
    by (intro exI [of _ "[]"] exI [of _ "Some (Wrapf ''%s query failed: %w'' [AStr (d_name (sc_dialect c))] e)"])
      (simp add: Stream_def end_with_def)
next
  case (Inr rs)
  show ?thesis
  proof (cases "rs_cols rs")
    case (Inl e)
    with Inr show ?thesis
      by (intro exI [of _ "[]"] exI [of _ "Some e"]) (simp add: Stream_def end_with_def)
  next
    case cols: (Inr cols)
    obtain vs fs where f: "rs_fetches rs = map FRow vs @ fs" "fs = [] \<or> (\<exists>e fs'. fs = FScanErr e # fs')"
      using fetches_split by blast
    have rs: "rs = \<lparr>rs_cols = Inr cols, rs_fetches = map FRow vs @ fs, rs_err = rs_err rs\<rparr>"
      using cols f(1) by (cases rs) simp
    have ans: "answer q = map (scan_row cols) vs" using f cols by (auto simp: Inr fetched_split)
    let ?all = "chunks (page_size n) (map (scan_row cols) vs)"
    let ?full = "full_pages (page_size n) (map (scan_row cols) vs)"
    have ne: "\<forall>pg \<in> set ?all. pg \<noteq> []" "\<forall>pg \<in> set ?full. pg \<noteq> []"
      using chunk_pages [OF page_size_pos] unfolding full_pages_def paged_def list_all_iff by blast+
    show ?thesis
    proof (cases "fs = [] \<and> rs_err rs = None")
      case True
      then have "Stream c q n fn s = feed fn ?all 0 s" for fn :: "'s page_fn" and s
        using Inr rs Stream_delivers [OF cap, of c cols vs fn s] by simp
      moreover have "complete q" using True f cols by (simp add: Inr list_all_iff)
      moreover have "concat ?all = answer q" by (simp add: ans page_size_pos)
      ultimately show ?thesis using ne(1)
        by (intro exI [of _ ?all] exI [of _ None]) (auto simp: end_with_def split: option.splits)
    next
      case False
      then obtain e where e: "(\<exists>fs'. fs = FScanErr e # fs') \<or> (fs = [] \<and> rs_err rs = Some e)" using f(2) by auto
      have "Stream c q n fn s = then_fail e (feed fn ?full 0 s)" for fn :: "'s page_fn" and s
        unfolding Inr by (subst rs) (use e in \<open>auto simp: Stream_scan_error [OF cap] Stream_cursor_error [OF cap]\<close>)
      moreover have "set (concat ?full) \<subseteq> set (answer q)" unfolding ans by (rule set_full_pages)
      ultimately show ?thesis using ne(2)
        by (intro exI [of _ ?full] exI [of _ "Some e"]) (auto simp: end_with_def then_fail_def split: option.splits)
    qed
  qed
qed

lemma Stream_answerE:
  fixes fn :: "'s page_fn"
  assumes "n \<le> maxPageCap"
  obtains pages err where "Stream c q n fn s = end_with err (feed fn pages 0 s)" "\<forall>pg \<in> set pages. pg \<noteq> []"
    "set (concat pages) \<subseteq> set (answer q)" "err = None \<longrightarrow> complete q \<and> concat pages = answer q"
proof -
  obtain pages err where p: "\<forall>(fn :: 's page_fn) s. Stream c q n fn s = end_with err (feed fn pages 0 s)"
    "\<forall>pg \<in> set pages. pg \<noteq> []" "set (concat pages) \<subseteq> set (answer q)"
    "err = None \<longrightarrow> complete q \<and> concat pages = answer q"
    using Stream_answer [OF assms, of c q] by (elim exE conjE) (rule that)
  show thesis by (rule that [OF p(1) [THEN spec, THEN spec] p(2-4)])
qed

section \<open>Databases that may fail\<close>

definition kept :: "('w \<Rightarrow> row list) \<Rightarrow> ('w \<Rightarrow> 'b) \<Rightarrow> 'w \<Rightarrow> 'w \<Rightarrow> bool" where
  "kept src tb w w' \<longleftrightarrow> src w' = src w \<and> tb w' = tb w"

text \<open>
  What is assumed of the two databases. Opening, closing and querying may fail and change
  neither table. Asked with an integer literal in place of the token, the query delivers rows
  of the source beyond it, and all of them, in some order, unless an error is reported. The
  target's statements store what they accept.
\<close>

definition may_fail ::
  "('w, 'x) bulk_drivers_scheme \<Rightarrow> Task \<Rightarrow> string \<Rightarrow> string list \<Rightarrow> ('w \<Rightarrow> row list) \<Rightarrow> ('w \<Rightarrow> 'k \<rightharpoonup> row) \<Rightarrow> (row \<Rightarrow> 'k) \<Rightarrow> bool" where
  "may_fail D t col cols src tb key \<longleftrightarrow>
     (\<forall>typ dsn w. kept src tb w (snd (OpenSource D typ dsn w)) \<and> kept src tb w (snd (OpenTarget D typ dsn w))) \<and>
     (\<forall>c w. kept src tb w (snd (Close D c w))) \<and>
     (\<forall>s w0 w1 lo w. OpenSource D (ep_Type (tk_Source t)) (ep_DSN (tk_Source t)) w0 = (Inr s, w1) \<longrightarrow> int64_range lo \<longrightarrow>
        (case drv_query D (conn_driver s) (sc_dsn s)
             (replace_all (ep_Query (tk_Source t)) watermarkToken (itoa lo)) w of
           (q, w') \<Rightarrow> kept src tb w w' \<and> set (answer q) \<subseteq> set (beyond col lo (src w)) \<and>
             (complete q \<longrightarrow> set (answer q) = set (beyond col lo (src w))))) \<and>
     (\<forall>c w0 w1. OpenTarget D (ep_Type (tg_Endpoint (tk_Target t))) (ep_DSN (tg_Endpoint (tk_Target t))) w0 = (Inr c, w1) \<longrightarrow>
        upserting (sql_target D c) t cols src tb key)"

lemma may_fail_query:
  assumes "may_fail D t col cols src tb key" "OpenSource D (ep_Type (tk_Source t)) (ep_DSN (tk_Source t)) v0 = (Inr s, v1)"
    and "int64_range lo"
    and q: "drv_query D (conn_driver s) (sc_dsn s) (replace_all (ep_Query (tk_Source t)) watermarkToken (itoa lo)) w = (q, w')"
  shows "kept src tb w w' \<and> set (answer q) \<subseteq> set (beyond col lo (src w)) \<and>
    (complete q \<longrightarrow> set (answer q) = set (beyond col lo (src w)))"
proof -
  have "case drv_query D (conn_driver s) (sc_dsn s) (replace_all (ep_Query (tk_Source t)) watermarkToken (itoa lo)) w of
      (q, w') \<Rightarrow> kept src tb w w' \<and> set (answer q) \<subseteq> set (beyond col lo (src w)) \<and>
        (complete q \<longrightarrow> set (answer q) = set (beyond col lo (src w)))"
    by (rule assms(1) [unfolded may_fail_def, THEN conjunct2, THEN conjunct2, THEN conjunct1,
          THEN spec, THEN spec, THEN spec, THEN spec, THEN spec, THEN mp, THEN mp, OF assms(2,3)])
  then show ?thesis unfolding q prod.case .
qed

text \<open>An incremental task on an integer column, in pages that can be allocated.\<close>

definition keyed_task :: "Task \<Rightarrow> string \<Rightarrow> int \<Rightarrow> bool" where
  "keyed_task t col init \<longleftrightarrow>
     tk_Incremental t = Some \<lparr>inc_Column = col, inc_Initial = itoa init\<rparr> \<and> int64_range init \<and>
     contains (ep_Query (tk_Source t)) watermarkToken \<and> sizes_ok t"

text \<open>The bound the log holds for the task.\<close>

definition marked :: "Task \<Rightarrow> int \<Rightarrow> Store \<Rightarrow> int \<Rightarrow> bool" where
  "marked t init S lo \<longleftrightarrow> int64_range lo \<and>
     (case st_state S (tk_Name t) of None \<Rightarrow> lo = init | Some kr \<Rightarrow> kr = (''int'', itoa lo))"

lemma sint_int64: "int64_range i \<Longrightarrow> sint (word_of_int i :: i64) = i"
  by (simp add: int64_range_def sint_sbintrunc' signed_take_bit_int_eq_self)

lemma prepare_query_marked:
  assumes t: "keyed_task t col init" and m: "marked t init S lo" and p: "prepare_query F t S = (r, S')"
  obtains e where "r = Inl e"
  | "r = Inr (replace_all (ep_Query (tk_Source t)) watermarkToken (itoa lo), Some (new_tracker col))"
proof -
  obtain f S1 where f: "sql S = (f, S1)" by (cases "sql S")
  then have st: "st_state S1 = st_state S" by (auto elim: sql_cases)
  have "(\<exists>e. r = Inl e) \<or>
      r = Inr (replace_all (ep_Query (tk_Source t)) watermarkToken (itoa lo), Some (new_tracker col))"
    using t m p f st
    by (auto simp: prepare_query_def keyed_task_def marked_def GetWatermark_def Let_def decodeWatermark_def parse_int_itoa
        sint_int64 split: option.splits)
  then show thesis using that by blast
qed

section \<open>The invariant\<close>

text \<open>Every source row up to \<open>lo\<close> is in the target, and nothing is there that is not a row of the
  source; all rows are there when the copy is full.\<close>

definition covered ::
  "string \<Rightarrow> int \<Rightarrow> (row \<Rightarrow> 'k) \<Rightarrow> ('w \<Rightarrow> row list) \<Rightarrow> ('w \<Rightarrow> 'k \<rightharpoonup> row) \<Rightarrow> int \<Rightarrow> 'w \<Rightarrow> bool" where
  "covered col init key src tb lo w \<longleftrightarrow>
     (\<forall>r \<in> set (beyond col init (src w)). row_key col r \<le> lo \<longrightarrow> tb w (key r) = Some r) \<and>
     (\<forall>k r. tb w k = Some r \<longrightarrow> r \<in> set (beyond col init (src w)) \<and> key r = k)"

definition full_copy ::
  "string \<Rightarrow> int \<Rightarrow> (row \<Rightarrow> 'k) \<Rightarrow> ('w \<Rightarrow> row list) \<Rightarrow> ('w \<Rightarrow> 'k \<rightharpoonup> row) \<Rightarrow> 'w \<Rightarrow> bool" where
  "full_copy col init key src tb w \<longleftrightarrow>
     (\<forall>k r. tb w k = Some r \<longleftrightarrow> r \<in> set (beyond col init (src w)) \<and> key r = k)"

text \<open>The bound of a source: the initial value or the key of a row, so later rows are beyond it.\<close>

definition bound_ok :: "string \<Rightarrow> int \<Rightarrow> row list \<Rightarrow> int \<Rightarrow> bool" where
  "bound_ok col init rs lo \<longleftrightarrow> init \<le> lo \<and> (lo = init \<or> lo \<in> row_key col ` set rs)"

lemma covered_kept: "kept src tb w w' \<Longrightarrow> covered col init key src tb lo w' = covered col init key src tb lo w"
  and full_copy_kept: "kept src tb w w' \<Longrightarrow> full_copy col init key src tb w' = full_copy col init key src tb w"
  by (simp_all add: kept_def covered_def full_copy_def)

lemma kept_refl [simp]: "kept src tb w w"
  and kept_trans: "kept src tb w1 w2 \<Longrightarrow> kept src tb w2 w3 \<Longrightarrow> kept src tb w1 w3"
  by (simp_all add: kept_def)

lemma beyond_set: "r \<in> set (beyond col lo rs) \<longleftrightarrow> r \<in> set rs \<and> lo < row_key col r"
  by (simp add: beyond_def)

text \<open>Rows of the window are stored.\<close>

lemma covered_store:
  assumes c: "covered col init key src tb lo w" and b: "init \<le> lo" and inj: "inj_on key (set (src w))"
    and w': "src w' = src w" "tb w' = fold (upsert_row key) part (tb w)" "set part \<subseteq> set (beyond col lo (src w))"
  shows "covered col init key src tb lo w'"
    and "set part = set (beyond col lo (src w)) \<Longrightarrow> full_copy col init key src tb w'"
proof -
  have sub: "set part \<subseteq> set (src w)" using w'(3) by (auto simp: beyond_set)
  have look: "tb w' (key r) = (if r \<in> set part then Some r else tb w (key r))" if "r \<in> set (src w)" for r
    unfolding w'(2) by (rule fold_upsert_set [OF inj sub that])
  have only: "r \<in> set (beyond col init (src w')) \<and> key r = k" if "tb w' k = Some r" for k r
    using fold_upsert_Some [OF that [unfolded w'(2)]] c b w'(1,3) by (fastforce simp: covered_def beyond_set)
  have old: "tb w (key r) = Some r" if "r \<in> set (src w)" "init < row_key col r" "row_key col r \<le> lo" for r
    using c that by (simp add: covered_def beyond_set)
  show "covered col init key src tb lo w'"
    using only old look unfolding covered_def w'(1) by (simp add: beyond_set)
  show "full_copy col init key src tb w'" if "set part = set (beyond col lo (src w))"
  proof -
    have "tb w' (key r) = Some r" if "r \<in> set (beyond col init (src w))" for r
      using that look old \<open>set part = _\<close> by (cases "row_key col r \<le> lo") (auto simp: beyond_set)
    with only show ?thesis unfolding full_copy_def w'(1) by blast
  qed
qed

lemma full_copy_covered: "full_copy col init key src tb w \<Longrightarrow> covered col init key src tb lo w"
  by (auto simp: full_copy_def covered_def)

text \<open>The maximum of a window of integer keys.\<close>

lemma max_key:
  assumes k: "\<forall>x \<in> set rows. keyed col x" and m: "m \<in> set (column_values col rows)" "\<forall>v \<in> set (column_values col rows). wm_le v m"
  obtains r where "r \<in> set rows" "encodeWatermark F m = Inr (''int'', itoa (row_key col r))" "int64_range (row_key col r)"
proof -
  obtain r where r: "r \<in> set rows" "m = row_get r col" using m(1) by (auto simp: column_values_def)
  with k have "m = VInt64 (word_of_int (row_key col r))" "int64_range (row_key col r)" using keyed_key by metis+
  with r(1) show thesis by (intro that [of r]) (simp_all add: sint_int64)
qed

lemma conclude_state:
  assumes "conclude E t i err p = (res', e')"
  shows "rr_FailRows res' = rr_FailRows (ps_res p) \<and> (rr_Status res' = Succeeded \<longrightarrow> err = None) \<and>
    (st_state (es_runs e') = st_state (es_runs (ps_es p)) \<or>
     err = None \<and> rr_FailRows (ps_res p) \<le> 0 \<and> (\<exists>wm kr. ps_wm p = Some wm \<and> wt_max wm \<noteq> VNil \<and>
       encodeWatermark (en_float E) (wt_max wm) = Inr kr \<and>
       st_state (es_runs e') = (st_state (es_runs (ps_es p)))(tk_Name t \<mapsto> kr)))"
proof -
  have ev: "st_state (snd (Event now i kd pl S)) = st_state S" for now kd pl S
    using Event_store(3) [of now i kd pl S, OF prod.collapse [symmetric]] .
  have fin: "st_state (es_runs (finalizeWatermark E t i res wm e)) = st_state (es_runs e) \<or>
      rr_FailRows res \<le> 0 \<and> wt_max wm \<noteq> VNil \<and> (\<exists>kr. encodeWatermark (en_float E) (wt_max wm) = Inr kr \<and>
        st_state (es_runs (finalizeWatermark E t i res wm e)) = (st_state (es_runs e))(tk_Name t \<mapsto> kr))" for res wm e
  proof (cases "0 < rr_FailRows res \<or> wt_max wm = VNil")
    case True
    then show ?thesis by (auto simp: finalizeWatermark_def time_Now_def ev)
  next
    case False
    obtain oe S where s: "SetWatermark (en_float E) (tk_Name t) (wt_max wm) (es_runs e) = (oe, S)"
      by (cases "SetWatermark (en_float E) (tk_Name t) (wt_max wm) (es_runs e)")
    from False s show ?thesis
      by (auto simp: finalizeWatermark_def time_Now_def ev Let_def split: option.split elim!: SetWatermark_cases)
  qed
  show ?thesis
  proof (cases err)
    case None
    show ?thesis
    proof (cases "ps_wm p")
      case None
      then show ?thesis using assms by (auto simp: conclude_def Let_def split: option.splits)
    next
      case (Some wm)
      have e: "e' = finalizeWatermark E t i res' wm (ps_es p)" and f: "rr_FailRows res' = rr_FailRows (ps_res p)"
        using assms None Some by (auto simp: conclude_def Let_def)
      show ?thesis using fin [of res' wm "ps_es p"] None Some f unfolding e by auto
    qed
  next
    case (Some x)
    then show ?thesis using assms by (auto simp: conclude_def Let_def)
  qed
qed

section \<open>One run\<close>

definition caught_up ::
  "Task \<Rightarrow> string \<Rightarrow> int \<Rightarrow> (row \<Rightarrow> 'k) \<Rightarrow> ('w \<Rightarrow> row list) \<Rightarrow> ('w \<Rightarrow> 'k \<rightharpoonup> row) \<Rightarrow> Store \<Rightarrow> 'w \<Rightarrow> bool" where
  "caught_up t col init key src tb S w \<longleftrightarrow>
     (\<exists>lo. marked t init S lo \<and> bound_ok col init (src w) lo \<and> covered col init key src tb lo w)"

lemma caught_up_kept:
  assumes "caught_up t col init key src tb S w" "st_state S' = st_state S" "kept src tb w w'"
  shows "caught_up t col init key src tb S' w'"
  using assms covered_kept [OF assms(3)] by (simp add: caught_up_def marked_def kept_def)

text \<open>What a run, with result \<open>res\<close>, has made of the log and the world.\<close>

definition recovers ::
  "Task \<Rightarrow> string \<Rightarrow> int \<Rightarrow> (row \<Rightarrow> 'k) \<Rightarrow> ('w \<Rightarrow> row list) \<Rightarrow> ('w \<Rightarrow> 'k \<rightharpoonup> row) \<Rightarrow> RunResult \<Rightarrow> 'w \<Rightarrow> Store \<Rightarrow> 'w \<Rightarrow> bool" where
  "recovers t col init key src tb res w S' w' \<longleftrightarrow>
     src w' = src w \<and> caught_up t col init key src tb S' w' \<and>
     (rr_Status res = Succeeded \<and> rr_FailRows res = 0 \<longrightarrow> full_copy col init key src tb w')"

lemma recovers_failed:
  assumes "caught_up t col init key src tb S w" "st_state S' = st_state S" "kept src tb w w'" "rr_Status res \<noteq> Succeeded"
  shows "recovers t col init key src tb res w S' w'"
  using caught_up_kept [OF assms(1-3)] assms(3,4) by (simp add: recovers_def kept_def)

lemma recovers_kept:
  assumes "recovers t col init key src tb res w S w1" "st_state S' = st_state S" "kept src tb w1 w'"
  shows "recovers t col init key src tb res w S' w'"
  using assms caught_up_kept [OF _ assms(2,3)] full_copy_kept [OF assms(3)] by (auto simp: recovers_def kept_def)

text \<open>A stream that has been read to its end, or not, and what is concluded from it.\<close>

lemma conclude_recovers:
  assumes m: "marked t init (es_runs (ps_es p)) lo" and b: "bound_ok col init (src w) lo"
    and c: "covered col init key src tb lo w" and inj: "inj_on key (set (src w))" and k: "\<forall>x \<in> set (src w). keyed col x"
    and rows: "set rows \<subseteq> set (beyond col lo (src w))" and up: "stored_upto src tb key rows (res0, w) (ps_res p, w')"
    and res0: "rr_FailRows res0 = 0"
    and ok: "err = None \<Longrightarrow> set rows = set (beyond col lo (src w)) \<and>
      observe_page (Some (new_tracker col)) rows = (None, ps_wm p)"
    and con: "conclude E t i err p = (res, e')"
  shows "recovers t col init key src tb res w (es_runs e') w'"
proof -
  obtain part where part: "set part \<subseteq> set rows" "tb w' = fold (upsert_row key) part (tb w)" "src w' = src w"
    "0 \<le> rr_FailRows (ps_res p)" "rr_FailRows (ps_res p) = 0 \<longrightarrow> set part = set rows"
    using up res0 by (auto simp: stored_upto_def)
  have sub: "set part \<subseteq> set (beyond col lo (src w))" using part(1) rows by blast
  have lo: "init \<le> lo" using b by (simp add: bound_ok_def)
  note cov = covered_store [OF c lo inj part(3,2) sub]
  have full: "full_copy col init key src tb w'" if "err = None" "rr_FailRows (ps_res p) = 0"
    using cov(2) part(5) ok [OF that(1)] that(2) by simp
  note st = conclude_state [OF con]
  have "caught_up t col init key src tb (es_runs e') w'"
  proof (cases "st_state (es_runs e') = st_state (es_runs (ps_es p))")
    case True
    with m b cov(1) show ?thesis by (auto simp: caught_up_def marked_def part(3))
  next
    case False
    with st obtain wm kr where new: "err = None" "rr_FailRows (ps_res p) \<le> 0" "ps_wm p = Some wm" "wt_max wm \<noteq> VNil"
      "encodeWatermark (en_float E) (wt_max wm) = Inr kr"
      "st_state (es_runs e') = (st_state (es_runs (ps_es p)))(tk_Name t \<mapsto> kr)" by auto
    have kr: "\<forall>x \<in> set rows. keyed col x" using rows k by (auto simp: beyond_set)
    then have kinds: "\<forall>v \<in> set (column_values col rows). kind_of v = KInt"
      by (auto simp: column_values_def keyed_def)
    have wm: "wm = snd (observe rows (new_tracker col))"
      using ok [OF new(1)] new(3) by (auto simp: observe_page_def split: prod.splits option.splits)
    have "wt_max wm \<in> set (column_values col rows) \<and> (\<forall>v \<in> set (column_values col rows). wm_le v (wt_max wm))"
      using observe_new [OF kinds] new(4) by (simp add: wm Let_def split: if_splits)
    then obtain r where r: "r \<in> set rows" "encodeWatermark (en_float E) (wt_max wm) = Inr (''int'', itoa (row_key col r))"
      "int64_range (row_key col r)" using max_key [OF kr] by blast
    have "marked t init (es_runs e') (row_key col r)" using new(5,6) r(2,3) by (simp add: marked_def)
    moreover have "bound_ok col init (src w') (row_key col r)"
      using rows r(1) lo by (auto simp: bound_ok_def part(3) beyond_set)
    moreover have "covered col init key src tb (row_key col r) w'"
      using full_copy_covered full new(1,2) part(4) by fastforce
    ultimately show ?thesis by (auto simp: caught_up_def)
  qed
  then show ?thesis using full st part(3) by (auto simp: recovers_def)
qed

lemma run_stream_recovers:
  fixes D :: "('w, 'x) bulk_drivers_scheme"
  assumes D: "may_fail D t col cols src tb key" and t: "keyed_task t col init"
    and s: "OpenSource D (ep_Type (tk_Source t)) (ep_DSN (tk_Source t)) v0 = (Inr s, v1)"
    and c: "OpenTarget D (ep_Type (tg_Endpoint (tk_Target t))) (ep_DSN (tg_Endpoint (tk_Target t))) u0 = (Inr c, u1)"
    and inv: "caught_up t col init key src tb (es_runs e) w"
    and inj: "inj_on key (set (src w))" and k: "\<forall>x \<in> set (src w). keyed col x"
    and names: "\<forall>r \<in> set (src w). sortedCols r = cols" and res: "rr_FailRows res = 0"
    and r: "run_stream E (sql_source D s) (sql_target D c) t tok i res (e, w) = Some (res', e', w')"
  shows "recovers t col init key src tb res' w (es_runs e') w'"
proof -
  obtain lo where lo: "marked t init (es_runs e) lo" "bound_ok col init (src w) lo" "covered col init key src tb lo w"
    using inv by (auto simp: caught_up_def)
  have cl: "kept src tb v (snd (tgt_Close (sql_target D c) v))" for v using D by (simp add: may_fail_def sql_target_def)
  obtain q S where q: "prepare_query (en_float E) t (es_runs e) = (q, S)"
    by (cases "prepare_query (en_float E) t (es_runs e)")
  have S: "st_state S = st_state (es_runs e)" using prepare_query_store [OF q] by auto
  from t lo(1) q show ?thesis
  proof (cases rule: prepare_query_marked)
    case (1 err)
    with r q have "rr_Status res' \<noteq> Succeeded" "es_runs e' = S" "w' = snd (tgt_Close (sql_target D c) w)"
      by (auto simp: run_stream_def)
    with recovers_failed [OF inv S cl] show ?thesis by simp
  next
    case 2
    let ?q = "replace_all (ep_Query (tk_Source t)) watermarkToken (itoa lo)"
    let ?p = "\<lparr>ps_es = set_runs S e, ps_res = res, ps_keysChecked = False, ps_totalSeen = 0, ps_wm = Some (new_tracker col)\<rparr>"
    obtain qr w1 where qr: "drv_query D (conn_driver s) (sc_dsn s) ?q w = (qr, w1)"
      by (cases "drv_query D (conn_driver s) (sc_dsn s) ?q w")
    have rng: "int64_range lo" using lo(1) by (simp add: marked_def)
    have ans: "kept src tb w w1" "set (answer qr) \<subseteq> set (beyond col lo (src w))"
      "complete qr \<longrightarrow> set (answer qr) = set (beyond col lo (src w))"
      using may_fail_query [OF D s rng qr] by simp_all
    have u: "upserting (sql_target D c) t cols src tb key" using D c unfolding may_fail_def by blast
    have batch: "0 < tg_BatchSize (tk_Target t)" and cap: "tk_PageSize t \<le> maxPageCap"
      using t by (simp_all add: keyed_task_def sizes_ok_def)
    from r q 2 qr obtain n err p w2 where
      st: "Stream s qr (tk_PageSize t) (page_step E (sql_target D c) t tok i) (?p, w1) = Some (n, err, p, w2)"
      and con: "conclude E t i err p = (res', e')" and w': "w' = snd (tgt_Close (sql_target D c) w2)"
      by (auto simp: run_stream_def sql_source_def split: option.splits prod.splits)
    obtain pages err0 where stream: "Stream s qr (tk_PageSize t) (page_step E (sql_target D c) t tok i) (?p, w1) =
        end_with err0 (feed (page_step E (sql_target D c) t tok i) pages 0 (?p, w1))"
      and pages: "\<forall>pg \<in> set pages. pg \<noteq> []" "set (concat pages) \<subseteq> set (answer qr)"
      "err0 = None \<longrightarrow> complete qr \<and> concat pages = answer qr"
      by (rule Stream_answerE [OF cap, of s qr "page_step E (sql_target D c) t tok i" "(?p, w1)"])
    have "set (beyond col lo (src w)) \<subseteq> set (src w)" by (auto simp: beyond_set)
    then have sub: "set (concat pages) \<subseteq> set (src w)" using pages(2) ans(2) by blast
    obtain err1 where f: "feed (page_step E (sql_target D c) t tok i) pages 0 (?p, w1) = Some (n, err1, p, w2)"
      "err = (if err1 = None then err0 else err1)"
      using end_with_Some [OF st [unfolded stream]] by blast
    obtain rows where rows: "frame E (ps_es ?p) (ps_es p)" "set rows \<subseteq> set (concat pages)"
      "stored_upto src tb key rows (res, w1) (ps_res p, w2)"
      "err1 = None \<longrightarrow> rows = concat pages \<and> observe_page (Some (new_tracker col)) rows = (None, ps_wm p)"
      using sql.feed_upto [OF u batch pages(1) _ _ f(1)] sub names ans(1) by (auto simp: kept_def)
    have "recovers t col init key src tb res' w1 (es_runs e') w2"
    proof (rule conclude_recovers [OF _ _ _ _ _ _ rows(3) res _ con])
      show "marked t init (es_runs (ps_es p)) lo" using rows(1) lo(1) S by (simp add: frame_def marked_def)
      show "bound_ok col init (src w1) lo" "inj_on key (set (src w1))" "\<forall>x \<in> set (src w1). keyed col x"
        using ans(1) lo(2) inj k by (simp_all add: kept_def)
      show "covered col init key src tb lo w1" using covered_kept [OF ans(1)] lo(3) by simp
      show "set rows \<subseteq> set (beyond col lo (src w1))" using rows(2) pages(2) ans(1,2) by (auto simp: kept_def)
      show "set rows = set (beyond col lo (src w1)) \<and> observe_page (Some (new_tracker col)) rows = (None, ps_wm p)"
        if "err = None"
      proof -
        have "err1 = None" "err0 = None" using that f(2) by (auto split: if_splits)
        with rows(4) pages(3) ans(1,3) show ?thesis by (auto simp: kept_def)
      qed
    qed
    then have "recovers t col init key src tb res' w (es_runs e') w2" using ans(1) by (simp add: recovers_def kept_def)
    from recovers_kept [OF this _ cl] show ?thesis by (simp add: w')
  qed
qed

lemma run_body_recovers:
  fixes D :: "('w, 'x) bulk_drivers_scheme" and reg :: "('t, 'l) Locker" and clk :: "nat \<Rightarrow> gotime" and F :: float_text
  defines "E \<equiv> NewEngine D reg clk F"
  assumes D: "may_fail D t col cols src tb key" and t: "keyed_task t col init"
    and inv: "caught_up t col init key src tb (es_runs e) w"
    and inj: "inj_on key (set (src w))" and k: "\<forall>x \<in> set (src w). keyed col x"
    and names: "\<forall>r \<in> set (src w). sortedCols r = cols" and res: "rr_FailRows res = 0"
    and r: "run_body E t tok i res (e, w) = Some (res', e', w')"
  shows "recovers t col init key src tb res' w (es_runs e') w'"
proof -
  obtain so w1 where so: "OpenSource D (ep_Type (tk_Source t)) (ep_DSN (tk_Source t)) w = (so, w1)"
    by (cases "OpenSource D (ep_Type (tk_Source t)) (ep_DSN (tk_Source t)) w")
  have k1: "kept src tb w w1" using D so unfolding may_fail_def by (metis snd_conv)
  obtain ta w2 where ta: "OpenTarget D (ep_Type (tg_Endpoint (tk_Target t))) (ep_DSN (tg_Endpoint (tk_Target t))) w1 = (ta, w2)"
    by (cases "OpenTarget D (ep_Type (tg_Endpoint (tk_Target t))) (ep_DSN (tg_Endpoint (tk_Target t))) w1")
  have "kept src tb w1 w2" using D ta unfolding may_fail_def by (metis snd_conv)
  with k1 have k2: "kept src tb w w2" by (rule kept_trans)
  have cl: "kept src tb v (snd (Close D s v))" for s v using D by (simp add: may_fail_def)
  have eng: "en_OpenSource E (ep_Type (tk_Source t)) (ep_DSN (tk_Source t)) w = (map_sum id (sql_source D) so, w1)"
    "en_OpenTarget E (ep_Type (tg_Endpoint (tk_Target t))) (ep_DSN (tg_Endpoint (tk_Target t))) w1 = (map_sum id (sql_target D) ta, w2)"
    using so ta by (simp_all add: E_def NewEngine_def)
  show ?thesis
  proof (cases so)
    case (Inl x)
    with r eng have "rr_Status res' \<noteq> Succeeded" "e' = e" "w' = w1" by (auto simp: run_body_def)
    with recovers_failed [OF inv refl k1] show ?thesis by simp
  next
    case s: (Inr s)
    show ?thesis
    proof (cases ta)
      case (Inl x)
      with r eng s have f: "rr_Status res' \<noteq> Succeeded" "e' = e" "w' = snd (Close D s w2)"
        by (auto simp: run_body_def sql_source_def)
      from recovers_failed [OF inv refl kept_trans [OF k2 cl] f(1)] f show ?thesis by simp
    next
      case c: (Inr c)
      from r eng s c obtain w3 where
        st: "run_stream E (sql_source D s) (sql_target D c) t tok i res (e, w2) = Some (res', e', w3)"
        and w': "w' = snd (Close D s w3)"
        by (auto simp: run_body_def sql_source_def split: option.splits)
      have "recovers t col init key src tb res' w2 (es_runs e') w3"
      proof (rule run_stream_recovers [OF D t _ _ _ _ _ _ res st])
        show "OpenSource D (ep_Type (tk_Source t)) (ep_DSN (tk_Source t)) w = (Inr s, w1)" using so s by simp
        show "OpenTarget D (ep_Type (tg_Endpoint (tk_Target t))) (ep_DSN (tg_Endpoint (tk_Target t))) w1 = (Inr c, w2)"
          using ta c by simp
        show "caught_up t col init key src tb (es_runs e) w2" by (rule caught_up_kept [OF inv refl k2])
        show "inj_on key (set (src w2))" "\<forall>x \<in> set (src w2). keyed col x" "\<forall>r \<in> set (src w2). sortedCols r = cols"
          using k2 inj k names by (simp_all add: kept_def)
      qed
      then have "recovers t col init key src tb res' w (es_runs e') w3" using k2 by (simp add: recovers_def kept_def)
      from recovers_kept [OF this refl cl] show ?thesis by (simp add: w')
    qed
  qed
qed

lemma RunTask_recovers:
  fixes D :: "('w, 'x) bulk_drivers_scheme" and reg :: "('t, 'l) Locker" and clk :: "nat \<Rightarrow> gotime" and F :: float_text
  defines "E \<equiv> NewEngine D reg clk F"
  assumes D: "may_fail D t col cols src tb key" and t: "keyed_task t col init"
    and inv: "caught_up t col init key src tb (es_runs e) w"
    and inj: "inj_on key (set (src w))" and k: "\<forall>x \<in> set (src w). keyed col x"
    and names: "\<forall>r \<in> set (src w). sortedCols r = cols"
  shows "\<exists>res e' w'. RunTask E t trigger (e, w) = Some (res, e', w') \<and>
    recovers t col init key src tb res w (es_runs e') w'"
proof -
  have batch: "0 < tg_BatchSize (tk_Target t)" and cap: "\<not> maxPageCap < tk_PageSize t"
    using t by (simp_all add: keyed_task_def sizes_ok_def)
  obtain a l where acq: "lk_Acquire (en_Reg E) (en_clock E (es_ticks e + 1)) (tk_Name t) (es_lock e) = (a, l)"
    by (cases "lk_Acquire (en_Reg E) (en_clock E (es_ticks e + 1)) (tk_Name t) (es_lock e)")
  show ?thesis
  proof (cases a)
    case None
    with acq have "lk_Acquire (en_Reg E) (en_clock E (es_ticks e + 1)) (tk_Name t) (es_lock e) = (None, l)" by simp
    then show ?thesis
    proof (rule prog.RunTask_skips [of D reg clk F, folded E_def, where trigger = trigger and w = w])
      fix res e' d
      assume r: "RunTask E t trigger (e, w) = Some (res, e', w)" "res = skipped_result t trigger d"
        "st_state (es_runs e') = st_state (es_runs e)"
      then have "rr_Status res \<noteq> Succeeded" by (simp add: skipped_result_def)
      with recovers_failed [OF inv r(3) kept_refl] r(1) show ?thesis by blast
    qed
  next
    case (Some tok)
    with acq have acq': "lk_Acquire (en_Reg E) (en_clock E (es_ticks e + 1)) (tk_Name t) (es_lock e) = (Some tok, l)" by simp
    obtain r S where st: "StartRun (en_clock E (es_ticks e + 2)) (tk_Name t) trigger (es_runs e) = (r, S)"
      by (cases "StartRun (en_clock E (es_ticks e + 2)) (tk_Name t) trigger (es_runs e)")
    let ?id = "case r of Inl _ \<Rightarrow> 0 | Inr i \<Rightarrow> i" and ?r0 = "empty_result (tk_Name t) trigger"
    let ?e = "started_state l S e"
    obtain res1 e1 w1 where b: "run_body E t tok ?id ?r0 (?e, w) = Some (res1, e1, w1)"
      "RunTask E t trigger (e, w) =
        (case finish E t (en_clock E (es_ticks e)) tok ?id (res1, e1) of (res, e') \<Rightarrow> Some (res, e', w1))"
      using prog.RunTask_acquired [of D reg clk F, folded E_def, OF acq' st batch, where w = w] cap by auto
    have "caught_up t col init key src tb (es_runs ?e) w"
      using caught_up_kept [OF inv StartRun_state [OF st] kept_refl] by simp
    then have rec: "recovers t col init key src tb res1 w (es_runs e1) w1"
      by (rule run_body_recovers [OF D t _ inj k names _ b(1) [unfolded E_def]]) (simp add: empty_result_def)
    obtain res2 e2 where fin: "finish E t (en_clock E (es_ticks e)) tok ?id (res1, e1) = (res2, e2)"
      by (cases "finish E t (en_clock E (es_ticks e)) tok ?id (res1, e1)")
    have "recovers t col init key src tb res1 w (es_runs e2) w1"
      by (rule recovers_kept [OF rec finish_facts(4) [OF fin] kept_refl])
    with finish_facts(1) [OF fin] have "recovers t col init key src tb res2 w (es_runs e2) w1"
      by (auto simp: recovers_def)
    with b(2) fin show ?thesis by auto
  qed
qed

section \<open>Successive runs\<close>

lemma caught_up_append:
  assumes c: "caught_up t col init key src tb S w" and w': "src w' = src w @ new" "tb w' = tb w"
    and inc: "increasing col (src w')"
  shows "caught_up t col init key src tb S w'"
proof -
  obtain lo where lo: "marked t init S lo" "bound_ok col init (src w) lo" "covered col init key src tb lo w"
    using c by (auto simp: caught_up_def)
  have "lo < row_key col r" if "r \<in> set new" "init < row_key col r" for r
    using lo(2) that inc by (auto simp: bound_ok_def w'(1) increasing_append)
  then have "covered col init key src tb lo w'" using lo(3) by (fastforce simp: covered_def w' beyond_set)
  moreover have "bound_ok col init (src w') lo" using lo(2) by (auto simp: bound_ok_def w'(1))
  ultimately show ?thesis using lo(1) by (auto simp: caught_up_def)
qed

lemma increasing_keyed: "increasing col rs \<Longrightarrow> r \<in> set rs \<Longrightarrow> keyed col r"
  by (simp add: increasing_def list_all_iff)

lemma inc_runs_recover:
  assumes D: "may_fail D t col cols src tb key" and t: "keyed_task t col init"
    and "list_all2 (appends src tb) news chs" and "caught_up t col init key src tb (es_runs e) w"
    and "increasing col (src w @ concat news)" "inj_on key (set (src w @ concat news))"
    and "\<forall>r \<in> set (src w @ concat news). sortedCols r = cols"
  shows "\<exists>e' w'. inc_runs (NewEngine D reg clk F) t chs (e, w) = Some (e', w') \<and>
    src w' = src w @ concat news \<and> caught_up t col init key src tb (es_runs e') w'"
  using assms(3-)
proof (induction news chs arbitrary: e w rule: list_all2_induct)
  case (Cons new news ch chs)
  have g: "src (ch w) = src w @ new" "tb (ch w) = tb w" using Cons.hyps(1) by (simp_all add: appends_def)
  have inc: "increasing col (src (ch w) @ concat news)" using Cons.prems(2) by (simp add: g(1))
  then have inc1: "increasing col (src (ch w))" by (simp add: increasing_append)
  have inj: "inj_on key (set (src (ch w) @ concat news))" using Cons.prems(3) by (simp add: g(1) Un_assoc)
  then have inj1: "inj_on key (set (src (ch w)))" by (rule inj_on_subset) simp
  have names: "\<forall>r \<in> set (src (ch w) @ concat news). sortedCols r = cols" using Cons.prems(4) by (auto simp: g(1))
  then have names1: "\<forall>r \<in> set (src (ch w)). sortedCols r = cols" by simp
  have "\<forall>r \<in> set (src (ch w)). keyed col r" using increasing_keyed [OF inc1] by blast
  from RunTask_recovers [OF D t caught_up_append [OF Cons.prems(1) g inc1] inj1 this names1]
  obtain res e1 w1 where r: "RunTask (NewEngine D reg clk F) t ''cron'' (e, ch w) = Some (res, e1, w1)"
    and rec: "recovers t col init key src tb res (ch w) (es_runs e1) w1" by blast
  have w1: "src w1 = src (ch w)" "caught_up t col init key src tb (es_runs e1) w1" using rec by (simp_all add: recovers_def)
  obtain e' w' where "inc_runs (NewEngine D reg clk F) t chs (e1, w1) = Some (e', w')"
    "src w' = src w1 @ concat news" "caught_up t col init key src tb (es_runs e') w'"
    using Cons.IH [of e1 w1] w1 inc inj names by auto
  with r w1(1) g(1) show ?case by auto
qed simp

text \<open>With nothing stored and an empty target.\<close>

lemma caught_up_start:
  assumes "keyed_task t col init" "st_state S (tk_Name t) = None" "tb w = Map.empty"
  shows "caught_up t col init key src tb S w"
proof -
  have "marked t init S init" using assms(1,2) by (simp add: marked_def keyed_task_def)
  moreover have "covered col init key src tb init w" using assms(3) by (auto simp: covered_def beyond_set)
  ultimately show ?thesis by (auto simp: caught_up_def bound_ok_def)
qed

lemma runs_recover:
  assumes "may_fail D t col cols src tb key" "keyed_task t col init"
    and "list_all2 (appends src tb) news chs"
    and "st_state (es_runs e) (tk_Name t) = None" "tb w = Map.empty"
    and "increasing col (src w @ concat news)" "inj_on key (set (src w @ concat news))"
    and "\<forall>r \<in> set (src w @ concat news). sortedCols r = cols"
  shows "\<exists>e' w'. inc_runs (NewEngine D reg clk F) t chs (e, w) = Some (e', w') \<and>
    src w' = src w @ concat news \<and>
    (\<exists>lo. marked t init (es_runs e') lo \<and> covered col init key src tb lo w') \<and>
    (\<exists>res e'' w''. RunTask (NewEngine D reg clk F) t trigger (e', w') = Some (res, e'', w'') \<and>
      (rr_Status res = Succeeded \<and> rr_FailRows res = 0 \<longrightarrow> full_copy col init key src tb w''))"
proof -
  obtain e' w' where r: "inc_runs (NewEngine D reg clk F) t chs (e, w) = Some (e', w')" "src w' = src w @ concat news"
    "caught_up t col init key src tb (es_runs e') w'"
    using inc_runs_recover [where e = e, OF assms(1-3) caught_up_start [where tb = tb and w = w, OF assms(2,4,5)] assms(6-8)] by blast
  have k: "\<forall>r \<in> set (src w'). keyed col r" using increasing_keyed [OF assms(6)] r(2) by simp
  have "\<exists>res e'' w''. RunTask (NewEngine D reg clk F) t trigger (e', w') = Some (res, e'', w'') \<and>
      recovers t col init key src tb res w' (es_runs e'') w''"
    using RunTask_recovers [OF assms(1,2) r(3) _ k] assms(7,8) r(2) by simp
  with r show ?thesis by (auto simp: recovers_def caught_up_def)
qed

section \<open>Databases that do fail\<close>

text \<open>The world has a number of failures to come: a query fails while there are two or more, a
  statement while there is one, and then it stores its first row all the same.\<close>

type_synonym flaky_world = "i64 list \<times> (go_value \<times> go_value) list \<times> nat"

definition flaky_src :: "flaky_world \<Rightarrow> row list" where
  "flaky_src w = mirror_src (fst w, [])"

definition id_key :: "row \<Rightarrow> go_value" where
  "id_key r = row_get r ''id''"

definition flaky_tb :: "flaky_world \<Rightarrow> go_value \<rightharpoonup> row" where
  "flaky_tb w = fold (upsert_row id_key) (map mirror_row (fst (snd w))) Map.empty"

definition flaky_query :: "string \<Rightarrow> flaky_world \<Rightarrow> (error + rowset) \<times> flaky_world" where
  "flaky_query q w = (case w of (ids, ps, n) \<Rightarrow>
     if 1 < n then (Inl (External ''down''), (ids, ps, n - 1))
     else (Inr \<lparr>rs_cols = Inr [''id'', ''v''], rs_fetches = map FRow (mirror_rows q (ids, [])), rs_err = None\<rparr>, w))"

definition flaky_exec :: "go_value list \<Rightarrow> flaky_world \<Rightarrow> error option \<times> flaky_world" where
  "flaky_exec args w = (case w of (ids, ps, n) \<Rightarrow>
     if 0 < n then (Some (External ''down''), (ids, ps @ take 1 (pairs_of args), n - 1))
     else (None, (ids, ps @ pairs_of args, n)))"

definition flaky_drivers :: "flaky_world bulk_drivers" where
  "flaky_drivers =
     \<lparr>drv_open = \<lambda>_ _ w. (None, w), drv_ping = \<lambda>_ _ w. (None, w), drv_close = \<lambda>_ _ w. (None, w),
      drv_query = \<lambda>_ _. flaky_query, drv_exec = \<lambda>_ _ _. flaky_exec,
      bd_conn = \<lambda>_ _ w. (None, w), bd_conn_close = \<lambda>_ _ w. (None, w), bd_exec = \<lambda>_ _ q w. (None, w),
      bd_is_pgx = False, bd_copy = \<lambda>_ dst cols rows w. (None, w), bd_prepare = \<lambda>_ stage cols w. (None, w),
      bd_send = \<lambda>_ vals w. (None, w), bd_flush = \<lambda>_ w. (None, w), bd_stmt_close = \<lambda>_ w. (None, w),
      bd_now = \<lambda>w. (GoTime 0 0, w)\<rparr>"

lemma flaky_names: "r \<in> set (flaky_src w) \<Longrightarrow> sortedCols r = [''id'', ''v'']"
  using demo_valid(2) by (auto simp: flaky_src_def mirror_src_def mirror_row_def sortedCols_def)

lemma flaky_stores:
  assumes "set chunk \<subseteq> set (flaky_src w)" "chunk \<noteq> []"
  shows "stores flaky_src flaky_tb id_key chunk
    (case flaky_exec (flatArgs [''id'', ''v''] chunk) w of (oe, w') \<Rightarrow> (case oe of None \<Rightarrow> Inr n | Some e \<Rightarrow> Inl (f e), w')) w"
proof -
  obtain ids ps k where w: "w = (ids, ps, k)" by (cases w)
  have shape: "mirror_row (row_get r ''id'', row_get r ''v'') = r" if "r \<in> set chunk" for r
    using that assms(1) by (auto simp: flaky_src_def mirror_src_def mirror_row_def row_get_def)
  have p: "pairs_of (flatArgs [''id'', ''v''] chunk) = map (\<lambda>r. (row_get r ''id'', row_get r ''v'')) chunk"
    by (induction chunk) (simp_all add: flatArgs_concat)
  have m: "map (mirror_row \<circ> (\<lambda>r. (row_get r ''id'', row_get r ''v''))) chunk = chunk"
    using shape by (simp add: map_idI)
  have src: "flaky_src (ids, qs, j) = flaky_src w" for qs j by (simp add: flaky_src_def w)
  have tb: "flaky_tb (ids, ps @ qs, j) = fold (upsert_row id_key) (map mirror_row qs) (flaky_tb w)" for qs j
    by (simp add: flaky_tb_def w)
  show ?thesis
  proof (cases "0 < k")
    case True
    have "flaky_exec (flatArgs [''id'', ''v''] chunk) w = (Some (External ''down''), (ids, ps @ take 1 (pairs_of (flatArgs [''id'', ''v''] chunk)), k - 1))"
      using True by (simp add: flaky_exec_def w)
    moreover have "map mirror_row (take 1 (pairs_of (flatArgs [''id'', ''v''] chunk))) = take 1 chunk"
      by (simp add: p m take_map [symmetric])
    ultimately show ?thesis
      by (auto simp: stores_def src tb intro!: exI [of _ "take 1 chunk"] dest: in_set_takeD)
  next
    case False
    then have "flaky_exec (flatArgs [''id'', ''v''] chunk) w = (None, (ids, ps @ pairs_of (flatArgs [''id'', ''v''] chunk), k))"
      by (simp add: flaky_exec_def w)
    then show ?thesis by (auto simp: stores_def src tb p m intro!: exI [of _ chunk])
  qed
qed

lemma flaky_upserting: "upserting (sql_target flaky_drivers c) demo_inc [''id'', ''v''] flaky_src flaky_tb id_key"
proof -
  have v: "ValidateColumns [''id'', ''v''] = None" "ValidateColumns [''id''] = None"
    using demo_valid by (simp_all add: ValidateColumns_None)
  have "stores flaky_src flaky_tb id_key chunk (writeChunk (sql_target flaky_drivers c) demo_inc [''id'', ''v''] chunk w) w"
    if sub: "set chunk \<subseteq> set (flaky_src w)" for chunk w
  proof (cases "chunk = []")
    case True
    then show ?thesis
      by (simp add: writeChunk_def sql_target_def UpsertRows_def demo_inc_def demo_task_def stores_def)
  next
    case False
    have "writeChunk (sql_target flaky_drivers c) demo_inc [''id'', ''v''] chunk w =
      (case flaky_exec (flatArgs [''id'', ''v''] chunk) w of (oe, w') \<Rightarrow> (case oe of None \<Rightarrow> Inr (int (length chunk))
        | Some e \<Rightarrow> Inl (Wrapf ''%s upsert into %s failed: %w'' [AStr (d_name (sc_dialect c)), AStr ''users''] e), w'))"
      using False
      by (simp add: writeChunk_def sql_target_def UpsertRows_def demo_inc_def demo_task_def SplitTable_users v Let_def flaky_drivers_def
          split: prod.split option.split)
    with flaky_stores [OF sub False] show ?thesis by simp
  qed
  moreover have "\<not> tg_Bulk (tk_Target demo_inc)" by (rule demo_inc_hyps(8))
  ultimately show ?thesis by (simp add: upserting_def)
qed

lemma flaky_query_demo:
  assumes "int64_range lo" "flaky_query (''id > '' @ itoa lo) w = (q, w')"
  shows "kept flaky_src flaky_tb w w' \<and> set (answer q) \<subseteq> set (beyond ''id'' lo (flaky_src w)) \<and>
    (complete q \<longrightarrow> set (answer q) = set (beyond ''id'' lo (flaky_src w)))"
proof -
  obtain ids ps n where w: "w = (ids, ps, n)" by (cases w)
  let ?vs = "mirror_rows (''id > '' @ itoa lo) (ids, [])"
  have len: "\<forall>v \<in> set ?vs. length v = 2" by (auto simp: mirror_rows_def split: option.splits)
  have "fetched [''id'', ''v''] (map FRow ?vs) = map (scan_row [''id'', ''v'']) ?vs"
    using fetched_split [of "[''id'', ''v'']" ?vs "[]"] by simp
  also have "\<dots> = rows_of [''id'', ''v''] ?vs" using len by (simp add: rows_of_def scan_row_zip)
  also have "\<dots> = beyond ''id'' lo (flaky_src w)"
    using mirror_yields [OF assms(1), of "(ids, [])"] by (simp add: flaky_src_def w)
  finally show ?thesis
    using assms(2) by (auto simp: flaky_query_def w kept_def flaky_src_def flaky_tb_def split: if_splits)
qed

lemma flaky_may_fail: "may_fail flaky_drivers demo_inc ''id'' [''id'', ''v''] flaky_src flaky_tb id_key"
proof -
  have o: "kept flaky_src flaky_tb w (snd (OpenSource flaky_drivers ty dsn w))"
    "kept flaky_src flaky_tb w (snd (OpenTarget flaky_drivers ty dsn w))" for ty dsn w
    by (auto simp: OpenSource_def OpenTarget_def open_conn_def Connect_def flaky_drivers_def Let_def
        split: prod.split option.split sum.split)
  have c: "kept flaky_src flaky_tb w (snd (Close flaky_drivers c w))" for c w
    by (simp add: Close_def flaky_drivers_def)
  have "drv_query flaky_drivers a b (replace_all (ep_Query (tk_Source demo_inc)) watermarkToken (itoa lo)) w =
      flaky_query (''id > '' @ itoa lo) w" for a b lo w
    by (simp add: flaky_drivers_def demo_query)
  with o c flaky_query_demo flaky_upserting show ?thesis
    unfolding may_fail_def by (simp split: prod.split)
qed

section \<open>Properties\<close>

text \<open>
  C4: no row is lost, whatever fails: over a source whose rows get increasing integer keys, any
  number of incremental runs all return, although databases may be unreachable, queries may
  break off, statements may be refused after a part of their rows was stored, the lock may be
  taken and the run log may fail; afterwards every source row up to the stored watermark is in
  the keyed target, which holds nothing but rows of the source; and one more run that succeeds
  without a failed row leaves all of them there.
\<close>
theorem failing_runs_lose_nothing:
  assumes "may_fail D t col cols src tb key" "keyed_task t col init"
    and "list_all2 (appends src tb) news chs"
    and "st_state (es_runs e) (tk_Name t) = None" "tb w = Map.empty"
    and "increasing col (src w @ concat news)" "inj_on key (set (src w @ concat news))"
    and "\<forall>r \<in> set (src w @ concat news). sortedCols r = cols"
  shows "\<exists>e' w'. inc_runs (NewEngine D reg clk F) t chs (e, w) = Some (e', w') \<and>
    src w' = src w @ concat news \<and>
    (\<exists>lo. marked t init (es_runs e') lo \<and> covered col init key src tb lo w') \<and>
    (\<exists>res e'' w''. RunTask (NewEngine D reg clk F) t trigger (e', w') = Some (res, e'', w'') \<and>
      (rr_Status res = Succeeded \<and> rr_FailRows res = 0 \<longrightarrow> full_copy col init key src tb w''))"
  by (rule runs_recover [OF assms])

text \<open>A query and then a statement fail, while rows arrive.\<close>

theorem failing_runs_lose_nothing_witness:
  "\<exists>e' w' lo. inc_runs (NewEngine flaky_drivers registry_locker demo_clock bits_text) demo_inc
      [id, \<lambda>w. (fst w @ [5], snd w), id] (demo_state, ([1, 2], [], 2)) = Some (e', w') \<and>
    flaky_src w' = map (\<lambda>i. mirror_row (VInt64 i, VStr ''x'')) [1, 2, 5] \<and>
    marked demo_inc 0 (es_runs e') lo \<and> covered ''id'' 0 id_key flaky_src flaky_tb lo w'"
proof -
  let ?w = "([1, 2], [], 2) :: flaky_world" and ?r = "\<lambda>i. mirror_row (VInt64 i, VStr ''x'')"
  have i: "itoa 0 = ''0''" by code_simp
  have t: "keyed_task demo_inc ''id'' 0"
    using demo_inc_hyps(4) by (simp add: keyed_task_def demo_inc_sizes i) (simp add: demo_inc_def watermarkToken_def int64_range_def)
  have ap: "list_all2 (appends flaky_src flaky_tb) [[], [?r 5], []] [id, \<lambda>w. (fst w @ [5], snd w), id]"
    by (simp add: appends_def flaky_src_def flaky_tb_def mirror_src_def)
  have st: "st_state (es_runs demo_state) (tk_Name demo_inc) = None" by (simp add: demo_inc_hyps(3))
  have tb: "flaky_tb ?w = Map.empty" by (simp add: flaky_tb_def)
  have src: "flaky_src ?w @ concat [[], [?r 5], []] = [?r 1, ?r 2, ?r 5]" by (simp add: flaky_src_def mirror_src_def)
  have inc: "increasing ''id'' (flaky_src ?w @ concat [[], [?r 5], []])"
    unfolding src by (simp add: increasing_def keyed_def row_key_def mirror_row_def row_get_def)
  have inj: "inj_on id_key (set (flaky_src ?w @ concat [[], [?r 5], []]))"
    unfolding src by (simp add: id_key_def mirror_row_def row_get_def)
  have names: "\<forall>r \<in> set (flaky_src ?w @ concat [[], [?r 5], []]). sortedCols r = [''id'', ''v'']"
    using flaky_names [of _ "([1, 2, 5], [], 0)"] unfolding src by (simp add: flaky_src_def mirror_src_def)
  obtain e' w' lo where "inc_runs (NewEngine flaky_drivers registry_locker demo_clock bits_text) demo_inc
      [id, \<lambda>w. (fst w @ [5], snd w), id] (demo_state, ?w) = Some (e', w')" "flaky_src w' = [?r 1, ?r 2, ?r 5]"
    "marked demo_inc 0 (es_runs e') lo" "covered ''id'' 0 id_key flaky_src flaky_tb lo w'"
    using failing_runs_lose_nothing [where reg = registry_locker and clk = demo_clock and F = bits_text
        and trigger = "''cron''", OF flaky_may_fail t ap st tb inc inj names] unfolding src by blast
  then show ?thesis unfolding list.map by blast
qed

end
