(* ===== verification/Sqlread.thy ===== *)
theory Sqlread
  imports Sqltext
begin

text \<open>
  Reading the statements of the four dialects. A statement is what a database makes of its
  text: table, columns, placeholder groups, the columns that decide about a conflict and the
  assignments. The readers know SQL's grammar as far as the program uses it and nothing of
  the builders; that they get back what the builders were given shows that no name can change
  the structure of a statement. A \<open>?\<close> is read as a positional placeholder also for SQL Server,
  where \<open>sqlserver.go\<close> expects the driver to rewrite it.
\<close>

section \<open>Readers\<close>

type_synonym 'a reader = "string \<Rightarrow> ('a \<times> string) option"

fun eat :: "string \<Rightarrow> string \<Rightarrow> string option" where
  "eat [] s = Some s"
| "eat (p # ps) [] = None"
| "eat (p # ps) (c # s) = (if p = c then eat ps s else None)"

lemma eat_append [simp]: "eat p (p @ s) = Some s"
  by (induction p) simp_all

fun read_many :: "nat \<Rightarrow> string \<Rightarrow> 'a reader \<Rightarrow> 'a list reader" where
  "read_many 0 sep rd s = None"
| "read_many (Suc n) sep rd s =
     (case rd s of
        None \<Rightarrow> None
      | Some (x, s) \<Rightarrow>
          (case eat sep s of
             None \<Rightarrow> Some ([x], s)
           | Some s \<Rightarrow> map_option (apfst ((#) x)) (read_many n sep rd s)))"

text \<open>A list has at most one more element than its text has characters.\<close>

definition read_list :: "string \<Rightarrow> 'a reader \<Rightarrow> 'a list reader" where
  "read_list sep rd s = read_many (Suc (length s)) sep rd s"

lemma join_length: "sep \<noteq> [] \<Longrightarrow> length ys \<le> Suc (length (join sep ys))"
proof (induction ys)
  case (Cons y ys)
  show ?case
  proof (cases "ys = []")
    case False
    with Cons show ?thesis by (cases sep) (simp_all add: join_Cons)
  qed simp
qed simp

text \<open>
  A printer with its reader: printed text is read back, and no more than it, before a rest
  that cannot be taken for a part of it.
\<close>

locale printed =
  fixes pr :: "'a \<Rightarrow> string" and rd :: "'a reader" and good :: "'a \<Rightarrow> bool" and tail :: "string \<Rightarrow> bool"
  assumes read_back: "good x \<Longrightarrow> tail r \<Longrightarrow> rd (pr x @ r) = Some (x, r)"
begin

lemma read_many_back:
  assumes sep: "\<And>r. tail (sep @ r)" "eat sep r = None" and r: "tail r"
  shows "xs \<noteq> [] \<Longrightarrow> list_all good xs \<Longrightarrow> length xs \<le> n \<Longrightarrow> read_many n sep rd (join sep (map pr xs) @ r) = Some (xs, r)"
proof (induction xs arbitrary: n)
  case (Cons x xs)
  then obtain m where n: "n = Suc m" by (cases n) auto
  show ?case
  proof (cases "xs = []")
    case True
    then show ?thesis using read_back [OF _ r] Cons.prems(2) sep(2) by (simp add: n)
  next
    case False
    have "join sep (map pr (x # xs)) @ r = pr x @ (sep @ (join sep (map pr xs) @ r))"
      using False by (simp add: join_Cons)
    moreover have "read_many m sep rd (join sep (map pr xs) @ r) = Some (xs, r)"
      using Cons False by (simp add: n)
    ultimately show ?thesis using read_back [OF _ sep(1)] Cons.prems(2) by (simp add: n)
  qed
qed simp

lemma read_list_back:
  assumes "xs \<noteq> []" "list_all good xs" "\<And>r. tail (sep @ r)" "eat sep r = None" "tail r" "sep \<noteq> []"
  shows "read_list sep rd (join sep (map pr xs) @ r) = Some (xs, r)"
proof -
  have "length xs \<le> Suc (length (join sep (map pr xs)))" using join_length [OF assms(6), of "map pr xs"] by simp
  then have "length xs \<le> Suc (length (join sep (map pr xs) @ r))" by simp
  then show ?thesis unfolding read_list_def by (rule read_many_back [OF assms(3-5,1,2)])
qed

end

section \<open>Names\<close>

abbreviation after_quote :: "char \<Rightarrow> string \<Rightarrow> bool" where
  "after_quote cl r \<equiv> r = [] \<or> hd r \<noteq> cl"

sublocale quoting \<subseteq> name: printed q "lex_quoted opn cl" "\<lambda>_. True" "after_quote cl"
  by unfold_locales (rule read_back)

text \<open>A name behind fixed text, and a pair of names as in an assignment.\<close>

definition read_after :: "string \<Rightarrow> 'a reader \<Rightarrow> 'a reader" where
  "read_after pre rd s = Option.bind (eat pre s) rd"

definition read_pair :: "string \<Rightarrow> string \<Rightarrow> string \<Rightarrow> 'a reader \<Rightarrow> ('a \<times> 'a) reader" where
  "read_pair pre mid post rd s = do {
     s \<leftarrow> eat pre s;
     (c, s) \<leftarrow> rd s;
     s \<leftarrow> eat mid s;
     (d, s) \<leftarrow> rd s;
     s \<leftarrow> eat post s;
     Some ((c, d), s)
   }"

definition pair_text :: "string \<Rightarrow> string \<Rightarrow> string \<Rightarrow> ('a \<Rightarrow> string) \<Rightarrow> 'a \<times> 'a \<Rightarrow> string" where
  "pair_text pre mid post pr p = pre @ pr (fst p) @ mid @ pr (snd p) @ post"

context printed
begin

lemma after_printed: "printed (\<lambda>x. pre @ pr x) (read_after pre rd) good tail"
  by unfold_locales (simp add: read_after_def read_back)

lemma pair_printed:
  assumes "\<And>r. tail (mid @ r)" "\<And>r. t r \<Longrightarrow> tail (post @ r)"
  shows "printed (pair_text pre mid post pr) (read_pair pre mid post rd) (\<lambda>p. good (fst p) \<and> good (snd p)) t"
proof
  show "read_pair pre mid post rd (pair_text pre mid post pr p @ r) = Some (p, r)" if "good (fst p) \<and> good (snd p)" "t r" for r p
    using that(1) read_back [OF _ assms(1)] read_back [OF _ assms(2) [OF that(2)]]
    by (cases p) (simp add: read_pair_def pair_text_def)
qed

end

section \<open>Placeholders\<close>

datatype placeholder = Numbered nat | Positional

text \<open>\<open>$n\<close> counts from one, \<open>?\<close> by its position.\<close>

fun read_ph :: "placeholder reader" where
  "read_ph [] = None"
| "read_ph (c # s) =
     (if c = CHR ''?'' then Some (Positional, s)
      else if c = CHR ''$'' then
        (case parse_nat (takeWhile is_digit s) of
           Some (Suc n) \<Rightarrow> Some (Numbered n, dropWhile is_digit s)
         | _ \<Rightarrow> None)
      else None)"

fun ph_text :: "placeholder \<Rightarrow> string" where
  "ph_text (Numbered n) = dollar_ph n"
| "ph_text Positional = ''?''"

interpretation ph: printed ph_text read_ph "\<lambda>_. True" "\<lambda>r. r = [] \<or> \<not> is_digit (hd r)"
proof
  fix r x assume r: "r = [] \<or> \<not> is_digit (hd r)"
  show "read_ph (ph_text x @ r) = Some (x, r)"
  proof (cases x)
    case (Numbered n)
    have d: "takeWhile is_digit (nat_str (Suc n) @ r) = nat_str (Suc n) \<and> dropWhile is_digit (nat_str (Suc n) @ r) = r"
      using r nat_str_digits [of _ "Suc n"] by (cases r) (auto simp: takeWhile_append2 dropWhile_append2)
    have "itoa (int n + 1) = nat_str (Suc n)" by (simp add: itoa_def nat_add_distrib)
    then show ?thesis using d by (simp add: Numbered dollar_ph_def)
  qed simp
qed

definition read_group :: "placeholder list reader" where
  "read_group s = do {
     s \<leftarrow> eat ''('' s;
     (ps, s) \<leftarrow> read_list '','' read_ph s;
     s \<leftarrow> eat '')'' s;
     Some (ps, s)
   }"

definition group_text :: "placeholder list \<Rightarrow> string" where
  "group_text ps = ''('' @ join '','' (map ph_text ps) @ '')''"

text \<open>The groups of \<open>n\<close> rows; \<open>P\<close> is the placeholder of an index.\<close>

definition ph_groups :: "(nat \<Rightarrow> placeholder) \<Rightarrow> nat \<Rightarrow> nat \<Rightarrow> placeholder list list" where
  "ph_groups P cols n = map (\<lambda>r. map (\<lambda>c. P (r * cols + c)) [0..<cols]) [0..<n]"

lemma valuesClause_groups:
  "valuesClause cols n (\<lambda>i. ph_text (P i)) = join '','' (map group_text (ph_groups P cols n))"
  by (simp add: valuesClause_join ph_groups_def group_text_def comp_def)

interpretation group: printed group_text read_group "\<lambda>ps. ps \<noteq> []" "\<lambda>_. True"
proof
  fix r and ps :: "placeholder list" assume ps: "ps \<noteq> []"
  have "read_list '','' read_ph (join '','' (map ph_text ps) @ '')'' @ r) = Some (ps, '')'' @ r)"
    by (rule ph.read_list_back [OF ps]) (auto simp: is_digit_def less_eq_char_def list_all_iff)
  then show "read_group (group_text ps @ r) = Some (ps, r)" by (simp add: read_group_def group_text_def)
qed

section \<open>Statements\<close>

text \<open>
  An insertion; an insertion that updates the row it conflicts with, on the columns it names or
  (MySQL) on whatever unique key the table has; a merge of the listed rows, or of those of
  another table.
\<close>

datatype stmt =
    Insert "string list" "string list" "placeholder list list"
  | Upsert "string list" "string list" "placeholder list list" "string list option" "(string \<times> string) list"
  | Merge "string list" "placeholder list list + string" "string list" "(string \<times> string) list" "(string \<times> string) list"
      "string list" "string list"

text \<open>The quote characters are the dialect's.\<close>

definition read_path :: "char \<Rightarrow> char \<Rightarrow> string list reader" where
  "read_path opn cl = read_list ''.'' (lex_quoted opn cl)"

definition read_names :: "char \<Rightarrow> char \<Rightarrow> string list reader" where
  "read_names opn cl = read_list '', '' (lex_quoted opn cl)"

definition read_groups :: "placeholder list list reader" where
  "read_groups = read_list '','' read_group"

definition read_sets :: "char \<Rightarrow> char \<Rightarrow> string \<Rightarrow> string \<Rightarrow> (string \<times> string) list reader" where
  "read_sets opn cl mid post = read_list '', '' (read_pair [] mid post (lex_quoted opn cl))"

definition read_insert :: "char \<Rightarrow> char \<Rightarrow> string \<Rightarrow> (string list \<times> string list \<times> placeholder list list \<times> string) option" where
  "read_insert opn cl s = do {
     s \<leftarrow> eat ''INSERT INTO '' s;
     (tbl, s) \<leftarrow> read_path opn cl s;
     s \<leftarrow> eat '' ('' s;
     (cols, s) \<leftarrow> read_names opn cl s;
     s \<leftarrow> eat '') VALUES '' s;
     (gs, s) \<leftarrow> read_groups s;
     Some (tbl, cols, gs, s)
   }"

definition read_conflict :: "char \<Rightarrow> char \<Rightarrow> (string list option \<times> (string \<times> string) list) reader" where
  "read_conflict opn cl s = do {
     s \<leftarrow> eat '' ON CONFLICT ('' s;
     (ks, s) \<leftarrow> read_names opn cl s;
     s \<leftarrow> eat '') DO UPDATE SET '' s;
     (sets, s) \<leftarrow> read_sets opn cl '' = excluded.'' [] s;
     Some ((Some ks, sets), s)
   }"

definition read_duplicate :: "char \<Rightarrow> char \<Rightarrow> (string list option \<times> (string \<times> string) list) reader" where
  "read_duplicate opn cl s = do {
     s \<leftarrow> eat '' ON DUPLICATE KEY UPDATE '' s;
     (sets, s) \<leftarrow> read_sets opn cl '' = VALUES('' '')'' s;
     Some ((None, sets), s)
   }"

definition read_merge_tail ::
  "char \<Rightarrow> char \<Rightarrow> string \<Rightarrow> ((string \<times> string) list \<times> (string \<times> string) list \<times> string list \<times> string list) option" where
  "read_merge_tail opn cl s = do {
     (on, s) \<leftarrow> read_list '' AND '' (read_pair ''tgt.'' '' = src.'' [] (lex_quoted opn cl)) s;
     s \<leftarrow> eat '' WHEN MATCHED THEN UPDATE SET '' s;
     (sets, s) \<leftarrow> read_sets opn cl '' = src.'' [] s;
     s \<leftarrow> eat '' WHEN NOT MATCHED THEN INSERT ('' s;
     (ins, s) \<leftarrow> read_names opn cl s;
     s \<leftarrow> eat '') VALUES ('' s;
     (vals, s) \<leftarrow> read_list '', '' (read_after ''src.'' (lex_quoted opn cl)) s;
     s \<leftarrow> eat '');'' s;
     if s = [] then Some (on, sets, ins, vals) else None
   }"

definition read_merge_values :: "char \<Rightarrow> char \<Rightarrow> (placeholder list list \<times> string list) reader" where
  "read_merge_values opn cl s = do {
     s \<leftarrow> eat ''(VALUES '' s;
     (gs, s) \<leftarrow> read_groups s;
     s \<leftarrow> eat '') AS src ('' s;
     (cols, s) \<leftarrow> read_names opn cl s;
     s \<leftarrow> eat '') ON '' s;
     Some ((gs, cols), s)
   }"

definition read_merge :: "char \<Rightarrow> char \<Rightarrow> string \<Rightarrow> stmt option" where
  "read_merge opn cl s = do {
     s \<leftarrow> eat ''MERGE INTO '' s;
     (tbl, s) \<leftarrow> read_path opn cl s;
     s \<leftarrow> eat '' AS tgt USING '' s;
     (case read_merge_values opn cl s of
        Some ((gs, cols), s) \<Rightarrow> do {
          (on, sets, ins, vals) \<leftarrow> read_merge_tail opn cl s;
          Some (Merge tbl (Inl gs) cols on sets ins vals)
        }
      | None \<Rightarrow> do {
          (stage, s) \<leftarrow> lex_quoted opn cl s;
          s \<leftarrow> eat '' AS src ON '' s;
          (on, sets, ins, vals) \<leftarrow> read_merge_tail opn cl s;
          Some (Merge tbl (Inr stage) [] on sets ins vals)
        })
   }"

definition read_stmt :: "char \<Rightarrow> char \<Rightarrow> string \<Rightarrow> stmt option" where
  "read_stmt opn cl s =
     (case read_insert opn cl s of
        None \<Rightarrow> read_merge opn cl s
      | Some (tbl, cols, gs, s) \<Rightarrow>
          if s = [] then Some (Insert tbl cols gs)
          else (case (case read_conflict opn cl s of None \<Rightarrow> read_duplicate opn cl s | Some x \<Rightarrow> Some x) of
                  Some ((ks, sets), []) \<Rightarrow> Some (Upsert tbl cols gs ks sets)
                | _ \<Rightarrow> None))"

section \<open>What the builders print is read back\<close>

context quoting
begin

lemma path_back:
  "parts \<noteq> [] \<Longrightarrow> after_quote cl r \<Longrightarrow> eat ''.'' r = None \<Longrightarrow> read_path opn cl (qualify parts q @ r) = Some (parts, r)"
  unfolding read_path_def qualify_def
  by (rule name.read_list_back) (use separators in \<open>auto simp: list_all_iff\<close>)

lemma names_back:
  "cols \<noteq> [] \<Longrightarrow> after_quote cl r \<Longrightarrow> eat '', '' r = None \<Longrightarrow> read_names opn cl (quotedList cols q @ r) = Some (cols, r)"
  unfolding read_names_def quotedList_def
  by (rule name.read_list_back) (use separators in \<open>auto simp: list_all_iff\<close>)

lemma pairs_back:
  assumes "ps \<noteq> []" "mid \<noteq> []" "hd mid \<noteq> cl" "sep \<noteq> []" "eat sep r = None"
    and "\<And>r. after_quote cl (post @ sep @ r)" "after_quote cl (post @ r)"
  shows "read_list sep (read_pair pre mid post (lex_quoted opn cl)) (join sep (map (pair_text pre mid post q) ps) @ r) = Some (ps, r)"
proof -
  have "printed (pair_text pre mid post q) (read_pair pre mid post (lex_quoted opn cl)) (\<lambda>p. True \<and> True)
      (\<lambda>r. after_quote cl (post @ r))"
    by (rule name.pair_printed) (use assms(2,3) in auto)
  then show ?thesis
    by (rule printed.read_list_back) (use assms in \<open>auto simp: list_all_iff\<close>)
qed

lemma after_names_back:
  assumes "cols \<noteq> []" "after_quote cl r" "eat '', '' r = None"
  shows "read_list '', '' (read_after pre (lex_quoted opn cl)) (join '', '' (map (\<lambda>c. pre @ q c) cols) @ r) = Some (cols, r)"
  by (rule printed.read_list_back [OF name.after_printed]) (use assms separators in \<open>auto simp: list_all_iff\<close>)

end

lemma groups_back:
  assumes "0 < cols" "0 < n" "eat '','' r = None"
  shows "read_groups (valuesClause cols n (\<lambda>i. ph_text (P i)) @ r) = Some (ph_groups P cols n, r)"
  unfolding read_groups_def valuesClause_groups
  by (rule group.read_list_back) (use assms in \<open>auto simp: ph_groups_def list_all_iff\<close>)

text \<open>The columns that are assigned, each from the new row's own.\<close>

definition own_sets :: "string list \<Rightarrow> string list \<Rightarrow> (string \<times> string) list" where
  "own_sets keys cols = map (\<lambda>c. (c, c)) (filter (\<lambda>c. c \<notin> set keys) cols)"

lemma own_sets_text:
  "map (pair_text pre mid post q) (own_sets keys cols) =
     map (\<lambda>c. pre @ q c @ mid @ q c @ post) (filter (\<lambda>c. c \<notin> set keys) cols)"
  by (simp add: own_sets_def pair_text_def comp_def)

lemma same_pairs_text: "pair_text pre mid post q \<circ> (\<lambda>k. (k, k)) = (\<lambda>k. pre @ q k @ mid @ q k @ post)"
  by (simp add: fun_eq_iff pair_text_def)

lemma own_sets_nonempty: "\<not> set cols \<subseteq> set keys \<Longrightarrow> own_sets keys cols \<noteq> []"
  by (auto simp: own_sets_def filter_empty_conv)

context quoting
begin

lemma insert_back:
  assumes "parts \<noteq> []" "cols \<noteq> []" "0 < n" "eat '','' r = None"
  shows "read_insert opn cl (insertWith q parts cols n (\<lambda>i. ph_text (P i)) @ r) =
    Some (parts, cols, ph_groups P (length cols) n, r)"
proof -
  have "read_path opn cl (qualify parts q @ '' ('' @ s) = Some (parts, '' ('' @ s)" for s
    by (rule path_back [OF assms(1)]) (use separators in auto)
  moreover have "read_names opn cl (quotedList cols q @ '') VALUES '' @ s) = Some (cols, '') VALUES '' @ s)" for s
    by (rule names_back [OF assms(2)]) (use separators in auto)
  moreover have "read_groups (valuesClause (length cols) n (\<lambda>i. ph_text (P i)) @ r) = Some (ph_groups P (length cols) n, r)"
    by (rule groups_back) (use assms in auto)
  ultimately show ?thesis by (simp add: read_insert_def insertWith_def)
qed

end

context quoting
begin

lemma conflict_back:
  assumes "keys \<noteq> []" "\<not> set cols \<subseteq> set keys"
  shows "read_conflict opn cl ('' ON CONFLICT ('' @ quotedList keys q @ '') DO UPDATE SET '' @
      join '', '' (map (\<lambda>c. q c @ '' = excluded.'' @ q c) (filter (\<lambda>c. c \<notin> set keys) cols))) =
    Some ((Some keys, own_sets keys cols), [])"
proof -
  have "read_names opn cl (quotedList keys q @ '') DO UPDATE SET '' @ s) = Some (keys, '') DO UPDATE SET '' @ s)" for s
    by (rule names_back [OF assms(1)]) (use separators in auto)
  moreover have "read_sets opn cl '' = excluded.'' [] (join '', '' (map (pair_text [] '' = excluded.'' [] q) (own_sets keys cols)) @ []) =
      Some (own_sets keys cols, [])"
    unfolding read_sets_def
    by (rule pairs_back [OF own_sets_nonempty [OF assms(2)]]) (use separators in auto)
  ultimately show ?thesis by (simp add: read_conflict_def own_sets_text)
qed

lemma duplicate_back:
  assumes "\<not> set cols \<subseteq> set keys"
  shows "read_duplicate opn cl ('' ON DUPLICATE KEY UPDATE '' @
      join '', '' (map (\<lambda>c. q c @ '' = VALUES('' @ q c @ '')'') (filter (\<lambda>c. c \<notin> set keys) cols))) =
    Some ((None, own_sets keys cols), [])"
proof -
  have "read_sets opn cl '' = VALUES('' '')'' (join '', '' (map (pair_text [] '' = VALUES('' '')'' q) (own_sets keys cols)) @ []) =
      Some (own_sets keys cols, [])"
    unfolding read_sets_def
    by (rule pairs_back [OF own_sets_nonempty [OF assms]]) (use separators in auto)
  then show ?thesis by (simp add: read_duplicate_def own_sets_text)
qed

lemma merge_tail_back:
  assumes "keys \<noteq> []" "cols \<noteq> []" "\<not> set cols \<subseteq> set keys"
  shows "read_merge_tail opn cl (join '' AND '' (map (\<lambda>k. ''tgt.'' @ q k @ '' = src.'' @ q k) keys) @
      '' WHEN MATCHED THEN UPDATE SET '' @
      join '', '' (map (\<lambda>c. q c @ '' = src.'' @ q c) (filter (\<lambda>c. c \<notin> set keys) cols)) @
      '' WHEN NOT MATCHED THEN INSERT ('' @ quotedList cols q @ '') VALUES ('' @
      join '', '' (map (\<lambda>c. ''src.'' @ q c) cols) @ '');'') =
    Some (map (\<lambda>k. (k, k)) keys, own_sets keys cols, cols, cols)"
proof -
  let ?on = "map (\<lambda>k. (k, k)) keys"
  have "read_list '' AND '' (read_pair ''tgt.'' '' = src.'' [] (lex_quoted opn cl))
      (join '' AND '' (map (pair_text ''tgt.'' '' = src.'' [] q) ?on) @ '' WHEN MATCHED THEN UPDATE SET '' @ s) =
      Some (?on, '' WHEN MATCHED THEN UPDATE SET '' @ s)" for s
    by (rule pairs_back) (use assms separators in auto)
  moreover have "read_sets opn cl '' = src.'' []
      (join '', '' (map (pair_text [] '' = src.'' [] q) (own_sets keys cols)) @ '' WHEN NOT MATCHED THEN INSERT ('' @ s) =
      Some (own_sets keys cols, '' WHEN NOT MATCHED THEN INSERT ('' @ s)" for s
    unfolding read_sets_def
    by (rule pairs_back [OF own_sets_nonempty [OF assms(3)]]) (use separators in auto)
  moreover have "read_names opn cl (quotedList cols q @ '') VALUES ('' @ s) = Some (cols, '') VALUES ('' @ s)" for s
    by (rule names_back [OF assms(2)]) (use separators in auto)
  moreover have "read_list '', '' (read_after ''src.'' (lex_quoted opn cl)) (join '', '' (map (\<lambda>c. ''src.'' @ q c) cols) @ '');'') =
      Some (cols, '');'')"
    by (rule after_names_back [OF assms(2)]) (use separators in auto)
  ultimately show ?thesis
    by (simp add: read_merge_tail_def own_sets_text same_pairs_text)
qed

end

lemma upsert_insert: "upsertOnConflict q parts keys cols n ph =
    insertWith q parts cols n ph @ '' ON CONFLICT ('' @ quotedList keys q @ '') DO UPDATE SET '' @
      join '', '' (map (\<lambda>c. q c @ '' = excluded.'' @ q c) (filter (\<lambda>c. c \<notin> set keys) cols))"
  and mysql_insert: "upsertMySQL parts keys cols n ph =
    insertWith quoteBacktick parts cols n ph @ '' ON DUPLICATE KEY UPDATE '' @
      join '', '' (map (\<lambda>c. quoteBacktick c @ '' = VALUES('' @ quoteBacktick c @ '')'') (filter (\<lambda>c. c \<notin> set keys) cols))"
  by (simp_all add: upsertOnConflict_def upsertMySQL_def insertWith_def Let_def)

lemma insert_reads:
  assumes "quoting q opn cl" "parts \<noteq> []" "cols \<noteq> []" "0 < n"
  shows "read_stmt opn cl (insertWith q parts cols n (\<lambda>i. ph_text (P i))) = Some (Insert parts cols (ph_groups P (length cols) n))"
  using quoting.insert_back [OF assms, of "[]" P] by (simp add: read_stmt_def)

lemma conflict_reads:
  assumes "quoting q opn cl" "parts \<noteq> []" "cols \<noteq> []" "0 < n" "keys \<noteq> []" "\<not> set cols \<subseteq> set keys"
  shows "read_stmt opn cl (upsertOnConflict q parts keys cols n (\<lambda>i. ph_text (P i))) =
    Some (Upsert parts cols (ph_groups P (length cols) n) (Some keys) (own_sets keys cols))"
  using quoting.insert_back [OF assms(1-4), of "'' ON CONFLICT ('' @ s" P for s] quoting.conflict_back [OF assms(1,5,6)]
  by (simp add: read_stmt_def upsert_insert)

lemma duplicate_reads:
  assumes "parts \<noteq> []" "cols \<noteq> []" "0 < n" "\<not> set cols \<subseteq> set keys"
  shows "read_stmt (CHR 0x60) (CHR 0x60) (upsertMySQL parts keys cols n (\<lambda>i. ph_text (P i))) =
    Some (Upsert parts cols (ph_groups P (length cols) n) None (own_sets keys cols))"
proof -
  let ?t = "'' ON DUPLICATE KEY UPDATE '' @ join '', '' (map (\<lambda>c. quoteBacktick c @ '' = VALUES('' @ quoteBacktick c @ '')'')
      (filter (\<lambda>c. c \<notin> set keys) cols))"
  have "read_conflict (CHR 0x60) (CHR 0x60) ?t = None" by (simp add: read_conflict_def)
  with backtick.insert_back [OF assms(1-3), of ?t P] backtick.duplicate_back [OF assms(4)]
  show ?thesis by (simp add: read_stmt_def mysql_insert)
qed

lemma merge_reads:
  assumes "parts \<noteq> []" "cols \<noteq> []" "0 < n" "keys \<noteq> []" "\<not> set cols \<subseteq> set keys"
  shows "read_stmt (CHR ''['') (CHR '']'') (mergeMSSQL parts keys cols n (\<lambda>i. ph_text (P i))) =
    Some (Merge parts (Inl (ph_groups P (length cols) n)) cols (map (\<lambda>k. (k, k)) keys) (own_sets keys cols) cols cols)"
proof -
  let ?o = "CHR ''[''" and ?c = "CHR '']''"
  have p: "read_path ?o ?c (qualify parts quoteBracket @ '' AS tgt USING '' @ s) = Some (parts, '' AS tgt USING '' @ s)" for s
    by (rule bracket.path_back [OF assms(1)]) auto
  have g: "read_groups (valuesClause (length cols) n (\<lambda>i. ph_text (P i)) @ '') AS src ('' @ s) =
      Some (ph_groups P (length cols) n, '') AS src ('' @ s)" for s
    by (rule groups_back) (use assms in auto)
  have c: "read_names ?o ?c (quotedList cols quoteBracket @ '') ON '' @ s) = Some (cols, '') ON '' @ s)" for s
    by (rule bracket.names_back [OF assms(2)]) auto
  have v: "read_merge_values ?o ?c (''(VALUES '' @ valuesClause (length cols) n (\<lambda>i. ph_text (P i)) @ '') AS src ('' @
      quotedList cols quoteBracket @ '') ON '' @ s) = Some ((ph_groups P (length cols) n, cols), s)" for s
    using g c by (simp add: read_merge_values_def)
  show ?thesis
    using p v bracket.merge_tail_back [OF assms(4,2,5)]
    by (simp add: read_stmt_def read_insert_def read_merge_def mergeMSSQL_def Let_def)
qed

lemma stage_merge_reads:
  assumes "parts \<noteq> []" "cols \<noteq> []" "keys \<noteq> []" "\<not> set cols \<subseteq> set keys"
  shows "read_stmt (CHR ''['') (CHR '']'') (mergeFromStage parts stage keys cols) =
    Some (Merge parts (Inr stage) [] (map (\<lambda>k. (k, k)) keys) (own_sets keys cols) cols cols)"
proof -
  let ?o = "CHR ''[''" and ?c = "CHR '']''"
  have p: "read_path ?o ?c (qualify parts quoteBracket @ '' AS tgt USING '' @ s) = Some (parts, '' AS tgt USING '' @ s)" for s
    by (rule bracket.path_back [OF assms(1)]) auto
  have l: "lex_quoted ?o ?c (quoteBracket stage @ '' AS src ON '' @ s) = Some (stage, '' AS src ON '' @ s)" for s
    by (rule bracket.read_back) simp
  have "quoteBracket stage @ s = CHR ''['' # t \<Longrightarrow> read_merge_values ?o ?c (quoteBracket stage @ s) = None" for s t
    by (simp add: read_merge_values_def)
  then have v: "read_merge_values ?o ?c (quoteBracket stage @ s) = None" for s by (simp add: quoteBracket_def)
  show ?thesis
    using p l v bracket.merge_tail_back [OF assms(3,2,4)]
    by (simp add: read_stmt_def read_insert_def read_merge_def mergeFromStage_def Let_def)
qed

section \<open>Statements without an assignment\<close>

text \<open>When all columns are keys nothing is left to assign, and an assignment list needs one.\<close>

lemma no_sets: "set cols \<subseteq> set keys \<Longrightarrow> filter (\<lambda>c. c \<notin> set keys) cols = []"
  by (auto simp: filter_empty_conv)

lemma read_sets_none: "s = [] \<or> hd s \<noteq> opn \<Longrightarrow> read_sets opn cl mid post s = None"
  by (cases s) (simp_all add: read_sets_def read_list_def read_pair_def)

context quoting
begin

lemma conflict_none:
  assumes "keys \<noteq> []"
  shows "read_conflict opn cl ('' ON CONFLICT ('' @ quotedList keys q @ '') DO UPDATE SET '') = None"
proof -
  have "read_names opn cl (quotedList keys q @ '') DO UPDATE SET '') = Some (keys, '') DO UPDATE SET '')"
    by (rule names_back [OF assms]) (use separators in auto)
  then show ?thesis by (simp add: read_conflict_def read_sets_none)
qed

lemma merge_tail_none:
  assumes "keys \<noteq> []" "opn \<noteq> CHR '' ''"
  shows "read_merge_tail opn cl (join '' AND '' (map (\<lambda>k. ''tgt.'' @ q k @ '' = src.'' @ q k) keys) @
      '' WHEN MATCHED THEN UPDATE SET '' @ '' WHEN NOT MATCHED THEN INSERT ('' @ s) = None"
proof -
  let ?on = "map (\<lambda>k. (k, k)) keys"
  have "read_list '' AND '' (read_pair ''tgt.'' '' = src.'' [] (lex_quoted opn cl))
      (join '' AND '' (map (pair_text ''tgt.'' '' = src.'' [] q) ?on) @ '' WHEN MATCHED THEN UPDATE SET '' @ s) =
      Some (?on, '' WHEN MATCHED THEN UPDATE SET '' @ s)" for s
    by (rule pairs_back) (use assms separators in auto)
  then show ?thesis using assms(2)
    by (simp add: read_merge_tail_def same_pairs_text read_sets_none)
qed

end

lemma conflict_unread:
  assumes "quoting q opn cl" "parts \<noteq> []" "cols \<noteq> []" "0 < n" "keys \<noteq> []" "set cols \<subseteq> set keys"
  shows "read_stmt opn cl (upsertOnConflict q parts keys cols n (\<lambda>i. ph_text (P i))) = None"
  using quoting.insert_back [OF assms(1-4), of "'' ON CONFLICT ('' @ s" P for s] quoting.conflict_none [OF assms(1,5)]
  by (simp add: read_stmt_def upsert_insert no_sets [OF assms(6)] read_duplicate_def)

lemma duplicate_unread:
  assumes "parts \<noteq> []" "cols \<noteq> []" "0 < n" "set cols \<subseteq> set keys"
  shows "read_stmt (CHR 0x60) (CHR 0x60) (upsertMySQL parts keys cols n (\<lambda>i. ph_text (P i))) = None"
  using backtick.insert_back [OF assms(1-3), of "'' ON DUPLICATE KEY UPDATE ''" P]
  by (simp add: read_stmt_def mysql_insert no_sets [OF assms(4)] read_conflict_def read_duplicate_def read_sets_none)

lemma merge_unread:
  assumes "parts \<noteq> []" "cols \<noteq> []" "0 < n" "keys \<noteq> []" "set cols \<subseteq> set keys"
  shows "read_stmt (CHR ''['') (CHR '']'') (mergeMSSQL parts keys cols n (\<lambda>i. ph_text (P i))) = None"
proof -
  let ?o = "CHR ''[''" and ?c = "CHR '']''"
  have p: "read_path ?o ?c (qualify parts quoteBracket @ '' AS tgt USING '' @ s) = Some (parts, '' AS tgt USING '' @ s)" for s
    by (rule bracket.path_back [OF assms(1)]) auto
  have g: "read_groups (valuesClause (length cols) n (\<lambda>i. ph_text (P i)) @ '') AS src ('' @ s) =
      Some (ph_groups P (length cols) n, '') AS src ('' @ s)" for s
    by (rule groups_back) (use assms in auto)
  have c: "read_names ?o ?c (quotedList cols quoteBracket @ '') ON '' @ s) = Some (cols, '') ON '' @ s)" for s
    by (rule bracket.names_back [OF assms(2)]) auto
  have v: "read_merge_values ?o ?c (''(VALUES '' @ valuesClause (length cols) n (\<lambda>i. ph_text (P i)) @ '') AS src ('' @
      quotedList cols quoteBracket @ '') ON '' @ s) = Some ((ph_groups P (length cols) n, cols), s)" for s
    using g c by (simp add: read_merge_values_def)
  show ?thesis
    using p v bracket.merge_tail_none [OF assms(4)]
    by (simp add: read_stmt_def read_insert_def read_merge_def mergeMSSQL_def Let_def no_sets [OF assms(5)])
qed

lemma stage_merge_unread:
  assumes "parts \<noteq> []" "keys \<noteq> []" "set cols \<subseteq> set keys"
  shows "read_merge (CHR ''['') (CHR '']'') (mergeFromStage parts stage keys cols) = None"
proof -
  let ?o = "CHR ''[''" and ?c = "CHR '']''"
  have p: "read_path ?o ?c (qualify parts quoteBracket @ '' AS tgt USING '' @ s) = Some (parts, '' AS tgt USING '' @ s)" for s
    by (rule bracket.path_back [OF assms(1)]) auto
  have l: "lex_quoted ?o ?c (quoteBracket stage @ '' AS src ON '' @ s) = Some (stage, '' AS src ON '' @ s)" for s
    by (rule bracket.read_back) simp
  have v: "read_merge_values ?o ?c (quoteBracket stage @ s) = None" for s
    by (simp add: read_merge_values_def quoteBracket_def)
  show ?thesis
    using p l v bracket.merge_tail_none [OF assms(2)]
    by (simp add: read_merge_def mergeFromStage_def Let_def no_sets [OF assms(3)])
qed


section \<open>The four dialects\<close>

text \<open>Its quote characters, and the placeholder it prints for an index.\<close>

definition read_for :: "dialect \<Rightarrow> string \<Rightarrow> stmt option" where
  "read_for dia =
     (if d_name dia = ''mysql'' then read_stmt (CHR 0x60) (CHR 0x60)
      else if d_name dia = ''sqlserver'' then read_stmt (CHR ''['') (CHR '']'')
      else read_stmt (CHR 0x22) (CHR 0x22))"

definition ph_for :: "dialect \<Rightarrow> nat \<Rightarrow> placeholder" where
  "ph_for dia = (if d_name dia \<in> {''mysql'', ''sqlserver''} then \<lambda>_. Positional else Numbered)"

text \<open>What an upsert is in the dialect.\<close>

definition upsert_stmt :: "dialect \<Rightarrow> string list \<Rightarrow> string list \<Rightarrow> string list \<Rightarrow> placeholder list list \<Rightarrow> stmt" where
  "upsert_stmt dia parts keys cols gs =
     (if d_name dia = ''sqlserver''
      then Merge parts (Inl gs) cols (map (\<lambda>k. (k, k)) keys) (own_sets keys cols) cols cols
      else Upsert parts cols gs (if d_name dia = ''mysql'' then None else Some keys) (own_sets keys cols))"

abbreviation dialects :: "dialect set" where
  "dialects \<equiv> {pgDialect, mysqlDialect, sqliteDialect, mssqlDialect}"

lemma dialect_ph: "dia \<in> dialects \<Longrightarrow> d_ph dia = (\<lambda>i. ph_text (ph_for dia i))"
  by (auto simp: fun_eq_iff ph_for_def pgDialect_def mysqlDialect_def sqliteDialect_def mssqlDialect_def)

lemma insert_read_for:
  assumes "dia \<in> dialects" "parts \<noteq> []" "cols \<noteq> []" "0 < n"
  shows "read_for dia (d_insert dia parts cols n (d_ph dia)) = Some (Insert parts cols (ph_groups (ph_for dia) (length cols) n))"
proof -
  note r = dquote.quoting_axioms backtick.quoting_axioms bracket.quoting_axioms
  from assms(1) show ?thesis unfolding dialect_ph [OF assms(1)]
    by (auto simp: read_for_def insert_reads [OF r(1) assms(2-4)] insert_reads [OF r(2) assms(2-4)] insert_reads [OF r(3) assms(2-4)]
        pgDialect_def mysqlDialect_def sqliteDialect_def mssqlDialect_def simp del: ph_text.simps)
qed

lemma upsert_read_for:
  assumes "dia \<in> dialects" "parts \<noteq> []" "cols \<noteq> []" "0 < n" "keys \<noteq> []" "\<not> set cols \<subseteq> set keys"
  shows "read_for dia (d_upsert dia parts keys cols n (d_ph dia)) =
    Some (upsert_stmt dia parts keys cols (ph_groups (ph_for dia) (length cols) n))"
proof -
  note conflict_reads [OF dquote.quoting_axioms assms(2-6)] duplicate_reads [OF assms(2-4,6)] merge_reads [OF assms(2-6)]
  with assms(1) show ?thesis unfolding dialect_ph [OF assms(1)]
    by (auto simp: read_for_def upsert_stmt_def pgDialect_def mysqlDialect_def sqliteDialect_def mssqlDialect_def simp del: ph_text.simps)
qed

lemma upsert_unread_for:
  assumes "dia \<in> dialects" "parts \<noteq> []" "cols \<noteq> []" "0 < n" "keys \<noteq> []" "set cols \<subseteq> set keys"
  shows "read_for dia (d_upsert dia parts keys cols n (d_ph dia)) = None"
proof -
  note conflict_unread [OF dquote.quoting_axioms assms(2-6)] duplicate_unread [OF assms(2-4,6)] merge_unread [OF assms(2-6)]
  with assms(1) show ?thesis unfolding dialect_ph [OF assms(1)]
    by (auto simp: read_for_def pgDialect_def mysqlDialect_def sqliteDialect_def mssqlDialect_def simp del: ph_text.simps)
qed

section \<open>Property\<close>

text \<open>
  C32: the statements say what they are meant to, whatever the names are: read by the grammar
  of its dialect, the text of an insert, an upsert or a merge from the staging table is one
  statement on the given table with the given columns, one group of placeholders per row,
  numbered without a gap, the key columns as the conflict target or the merge condition, and
  an assignment of each other column from the new row's own; no name can close its quotes and
  change the statement.
\<close>
theorem statements_read_back:
  assumes "dia \<in> {pgDialect, mysqlDialect, sqliteDialect, mssqlDialect}" "parts \<noteq> []" "cols \<noteq> []" "0 < n"
    and "keys \<noteq> []" "\<not> set cols \<subseteq> set keys"
  shows "read_for dia (d_insert dia parts cols n (d_ph dia)) = Some (Insert parts cols (ph_groups (ph_for dia) (length cols) n)) \<and>
    read_for dia (d_upsert dia parts keys cols n (d_ph dia)) =
      Some (upsert_stmt dia parts keys cols (ph_groups (ph_for dia) (length cols) n)) \<and>
    read_for mssqlDialect (mergeFromStage parts stage keys cols) =
      Some (Merge parts (Inr stage) [] (map (\<lambda>k. (k, k)) keys) (own_sets keys cols) cols cols)"
  using insert_read_for [OF assms(1-4)] upsert_read_for [OF assms] stage_merge_reads [OF assms(2,3,5,6)]
  by (simp add: read_for_def mssqlDialect_def)

text \<open>A column whose name holds a closing bracket and a comma.\<close>

theorem statements_read_back_witness:
  "read_for mssqlDialect (d_upsert mssqlDialect [''dbo'', ''t''] [''id''] [''id'', ''a], [b''] 1 (d_ph mssqlDialect)) =
     Some (Merge [''dbo'', ''t''] (Inl [[Positional, Positional]]) [''id'', ''a], [b''] [(''id'', ''id'')]
       [(''a], [b'', ''a], [b'')] [''id'', ''a], [b''] [''id'', ''a], [b''])"
  using statements_read_back [of mssqlDialect "[''dbo'', ''t'']" "[''id'', ''a], [b'']" 1 "[''id'']"]
  by (simp add: upsert_stmt_def own_sets_def ph_groups_def ph_for_def) (simp add: mssqlDialect_def)

end
