(* ===== verification/Sqltable.thy ===== *)
theory Sqltable
  imports Connector Sqlread
begin

text \<open>
  What the statements of the batch writers do to a table. A database is given by the meaning
  of the statements it accepts, as \<open>Sqlread\<close> reads their texts: placeholders are bound, rows
  stored under their primary key, existing rows updated. Nothing is assumed about which
  statements it refuses, but a refused one changes nothing.
\<close>

section \<open>Tables\<close>

text \<open>The primary key, the value of a column no statement mentions, and what a column stores
  of a value that is bound to it (in the column's type).\<close>

record schema =
  sch_key :: "string list"
  sch_default :: "string \<Rightarrow> go_value"
  sch_stored :: "string \<Rightarrow> go_value \<Rightarrow> go_value"

type_synonym cells = "string \<Rightarrow> go_value"
type_synonym table = "go_value list \<rightharpoonup> cells"

definition key_of :: "schema \<Rightarrow> cells \<Rightarrow> go_value list" where
  "key_of sch r = map r (sch_key sch)"

text \<open>Every row is stored under its key, and no key column is NULL.\<close>

definition keyed_rows :: "schema \<Rightarrow> table \<Rightarrow> bool" where
  "keyed_rows sch T \<longleftrightarrow> (\<forall>k b. T k = Some b \<longrightarrow> key_of sch b = k \<and> VNil \<notin> set k)"

section \<open>Binding arguments\<close>

text \<open>The second argument counts the placeholders before this one.\<close>

fun bind_ph :: "go_value list \<Rightarrow> nat \<Rightarrow> placeholder \<Rightarrow> go_value option" where
  "bind_ph args i (Numbered n) = (if n < length args then Some (args ! n) else None)"
| "bind_ph args i Positional = (if i < length args then Some (args ! i) else None)"

fun bind_group :: "go_value list \<Rightarrow> nat \<Rightarrow> placeholder list \<Rightarrow> go_value list option" where
  "bind_group args i [] = Some []"
| "bind_group args i (p # ps) =
     (case bind_ph args i p of
        None \<Rightarrow> None
      | Some v \<Rightarrow> map_option ((#) v) (bind_group args (Suc i) ps))"

fun bind_groups :: "go_value list \<Rightarrow> nat \<Rightarrow> placeholder list list \<Rightarrow> go_value list list option" where
  "bind_groups args i [] = Some []"
| "bind_groups args i (g # gs) =
     (case bind_group args i g of
        None \<Rightarrow> None
      | Some vs \<Rightarrow> map_option ((#) vs) (bind_groups args (i + length g) gs))"

lemma bind_ph_for: "i < length args \<Longrightarrow> bind_ph args i (ph_for dia i) = Some (args ! i)"
  by (simp add: ph_for_def)

lemma bind_group_for:
  "i + m \<le> length args \<Longrightarrow> bind_group args i (map (ph_for dia) [i..<i + m]) = Some (map ((!) args) [i..<i + m])"
proof (induction m arbitrary: i)
  case (Suc m)
  have "[i..<i + Suc m] = i # [Suc i..<Suc i + m]" using upt_conv_Cons [of i "i + Suc m"] by simp
  with Suc.IH [of "Suc i"] Suc.prems show ?case by (simp add: bind_ph_for del: upt_Suc)
qed simp

lemma shift_upt: "map (\<lambda>c. f (a + c)) [0..<m] = map f [a..<a + m]"
  by (rule nth_equalityI) auto

lemma bind_groups_for:
  "(r + k) * m \<le> length args \<Longrightarrow>
     bind_groups args (r * m) (map (\<lambda>r. map (\<lambda>c. ph_for dia (r * m + c)) [0..<m]) [r..<r + k]) =
       Some (map (\<lambda>r. map (\<lambda>c. args ! (r * m + c)) [0..<m]) [r..<r + k])"
proof (induction k arbitrary: r)
  case (Suc k)
  have "[r..<r + Suc k] = r # [Suc r..<Suc r + k]" using upt_conv_Cons [of r "r + Suc k"] by simp
  moreover have "r * m + m \<le> length args" using Suc.prems by (simp add: algebra_simps)
  moreover have "bind_groups args (r * m + m) (map (\<lambda>r. map (\<lambda>c. ph_for dia (r * m + c)) [0..<m]) [Suc r..<Suc r + k]) =
      Some (map (\<lambda>r. map (\<lambda>c. args ! (r * m + c)) [0..<m]) [Suc r..<Suc r + k])"
    using Suc.IH [of "Suc r"] Suc.prems by (simp add: algebra_simps del: upt_Suc)
  ultimately show ?case by (simp add: shift_upt bind_group_for del: upt_Suc)
qed simp

text \<open>The rows the writers were given come out again.\<close>

lemma bind_rows:
  "bind_groups (flatArgs cols rows) 0 (ph_groups (ph_for dia) (length cols) (length rows)) =
     Some (map (\<lambda>r. map (row_get r) cols) rows)"
proof -
  have "map (\<lambda>r. map (\<lambda>c. flatArgs cols rows ! (r * length cols + c)) [0..<length cols]) [0..<length rows] =
      map (\<lambda>r. map (row_get r) cols) rows"
    by (intro nth_equalityI) (auto simp: nth_flatArgs)
  then show ?thesis
    using bind_groups_for [of 0 "length rows" "length cols" "flatArgs cols rows" dia]
    by (simp add: ph_groups_def length_flatArgs)
qed

section \<open>The meaning of a statement\<close>

fun each :: "('a \<Rightarrow> 's \<Rightarrow> 's option) \<Rightarrow> 'a list \<Rightarrow> 's \<Rightarrow> 's option" where
  "each f [] s = Some s"
| "each f (x # xs) s = (case f x s of None \<Rightarrow> None | Some s \<Rightarrow> each f xs s)"

definition new_cells :: "schema \<Rightarrow> string list \<Rightarrow> go_value list \<Rightarrow> cells" where
  "new_cells sch cols vs c =
     (case map_of (zip cols vs) c of Some v \<Rightarrow> sch_stored sch c v | None \<Rightarrow> sch_default sch c)"

definition assign :: "(string \<times> string) list \<Rightarrow> cells \<Rightarrow> cells \<Rightarrow> cells" where
  "assign sets new b = fold (\<lambda>(c, d) b. b(c := new d)) sets b"

text \<open>Key columns are not NULL, and an insertion does not replace a row.\<close>

definition insert1 :: "schema \<Rightarrow> cells \<Rightarrow> table \<Rightarrow> table option" where
  "insert1 sch r T = (if VNil \<in> set (key_of sch r) \<or> T (key_of sch r) \<noteq> None then None else Some (T(key_of sch r \<mapsto> r)))"

definition upsert1 :: "schema \<Rightarrow> (string \<times> string) list \<Rightarrow> cells \<Rightarrow> table \<Rightarrow> table option" where
  "upsert1 sch sets r T =
     (if VNil \<in> set (key_of sch r) then None
      else Some (T(key_of sch r \<mapsto> (case T (key_of sch r) of None \<Rightarrow> r | Some b \<Rightarrow> assign sets r b))))"

definition merge1 ::
  "schema \<Rightarrow> (string \<times> string) list \<Rightarrow> string list \<Rightarrow> string list \<Rightarrow> cells \<Rightarrow> table \<Rightarrow> table option" where
  "merge1 sch sets ins vals s T =
     (case T (key_of sch s) of
        None \<Rightarrow> insert1 sch (\<lambda>c. case map_of (zip ins vals) c of None \<Rightarrow> sch_default sch c | Some d \<Rightarrow> s d) T
      | Some b \<Rightarrow> Some (T(key_of sch s \<mapsto> assign sets s b)))"

text \<open>
  An upsert takes its rows in order. A merge is one step: it is refused when two of its rows
  have the same key, which would update or insert a row twice. A merge from another table
  reads rows that are not in the statement.
\<close>

fun exec_stmt :: "schema \<Rightarrow> stmt \<Rightarrow> go_value list \<Rightarrow> table \<Rightarrow> table option" where
  "exec_stmt sch (Insert tbl cols gs) args T =
     (case bind_groups args 0 gs of
        None \<Rightarrow> None
      | Some vss \<Rightarrow> each (insert1 sch) (map (new_cells sch cols) vss) T)"
| "exec_stmt sch (Upsert tbl cols gs ks sets) args T =
     (case bind_groups args 0 gs of
        None \<Rightarrow> None
      | Some vss \<Rightarrow> each (upsert1 sch sets) (map (new_cells sch cols) vss) T)"
| "exec_stmt sch (Merge tbl (Inl gs) cols on sets ins vals) args T =
     (case bind_groups args 0 gs of
        None \<Rightarrow> None
      | Some vss \<Rightarrow>
          (let ss = map (new_cells sch cols) vss
           in if distinct (map (key_of sch) ss) then each (merge1 sch sets ins vals) ss T else None))"
| "exec_stmt sch (Merge tbl (Inr stage) cols on sets ins vals) args T = None"

text \<open>
  The statements whose meaning that is: on this table, with the primary key deciding about a
  conflict (MySQL needs no telling), and no key column assigned.
\<close>

fun by_key :: "schema \<Rightarrow> string list \<Rightarrow> stmt \<Rightarrow> bool" where
  "by_key sch tbl (Insert t cols gs) = (t = tbl)"
| "by_key sch tbl (Upsert t cols gs ks sets) =
     (t = tbl \<and> (case ks of None \<Rightarrow> True | Some ks \<Rightarrow> set ks = set (sch_key sch)) \<and>
      list_all (\<lambda>(c, d). c \<notin> set (sch_key sch)) sets)"
| "by_key sch tbl (Merge t (Inl gs) cols on sets ins vals) =
     (t = tbl \<and> set on = (\<lambda>k. (k, k)) ` set (sch_key sch) \<and> list_all (\<lambda>(c, d). c \<notin> set (sch_key sch)) sets)"
| "by_key sch tbl (Merge t (Inr stage) cols on sets ins vals) = False"

text \<open>
  A database that does what its statements say, to the table \<open>tbl\<close> that \<open>tab\<close> shows in the
  world. Its rows are stored under their keys, and the primary key is the only constraint that
  makes rows conflict: MySQL's \<open>ON DUPLICATE KEY\<close> also fires on any other \<open>UNIQUE\<close> index, so
  its tables with further unique indexes do not meet this contract.
\<close>

definition obeys ::
  "('w, 'x) drivers_scheme \<Rightarrow> sqlConn \<Rightarrow> string list \<Rightarrow> schema \<Rightarrow> ('w \<Rightarrow> table) \<Rightarrow> bool" where
  "obeys D c tbl sch tab \<longleftrightarrow>
     (\<forall>q args w st. read_for (sc_dialect c) q = Some st \<longrightarrow> by_key sch tbl st \<longrightarrow>
        (case drv_exec D (conn_driver c) (sc_dsn c) q args w of
           (Some e, w') \<Rightarrow> tab w' = tab w
         | (None, w') \<Rightarrow> exec_stmt sch st args (tab w) = Some (tab w'))) \<and>
     (\<forall>w. keyed_rows sch (tab w))"

lemma obeysD:
  assumes "obeys D c tbl sch tab" "read_for (sc_dialect c) q = Some st" "by_key sch tbl st"
    and "drv_exec D (conn_driver c) (sc_dsn c) q args w = (oe, v)"
  shows "if oe = None then exec_stmt sch st args (tab w) = Some (tab v) else tab v = tab w"
proof -
  have "case drv_exec D (conn_driver c) (sc_dsn c) q args w of
      (Some e, w') \<Rightarrow> tab w' = tab w
    | (None, w') \<Rightarrow> exec_stmt sch st args (tab w) = Some (tab w')"
    by (rule assms(1) [unfolded obeys_def, THEN conjunct1, THEN spec, THEN spec, THEN spec, THEN spec, THEN mp, THEN mp, OF assms(2,3)])
  then show ?thesis by (simp add: assms(4) split: option.splits)
qed

section \<open>The specification\<close>

text \<open>A row of the source as the table stores it, over the cells that are there already.\<close>

definition filled :: "schema \<Rightarrow> string list \<Rightarrow> row \<Rightarrow> cells \<Rightarrow> cells" where
  "filled sch cols r b = (\<lambda>c. if c \<in> set cols then sch_stored sch c (row_get r c) else b c)"

definition row_id :: "schema \<Rightarrow> row \<Rightarrow> go_value list" where
  "row_id sch r = map (\<lambda>c. sch_stored sch c (row_get r c)) (sch_key sch)"

definition put_row :: "schema \<Rightarrow> string list \<Rightarrow> row \<Rightarrow> table \<Rightarrow> table" where
  "put_row sch cols r T =
     T(row_id sch r \<mapsto> filled sch cols r (case T (row_id sch r) of None \<Rightarrow> sch_default sch | Some b \<Rightarrow> b))"

definition has_id :: "schema \<Rightarrow> row \<Rightarrow> bool" where
  "has_id sch r \<longleftrightarrow> VNil \<notin> set (row_id sch r)"

lemma new_cells_row: "new_cells sch cols (map (row_get r) cols) = filled sch cols r (sch_default sch)"
proof
  fix c
  have "map_of (zip cols (map (row_get r) cols)) c = (if c \<in> set cols then Some (row_get r c) else None)"
    by (induction cols) auto
  then show "new_cells sch cols (map (row_get r) cols) c = filled sch cols r (sch_default sch) c"
    by (simp add: new_cells_def filled_def)
qed

lemma key_filled: "set (sch_key sch) \<subseteq> set cols \<Longrightarrow> key_of sch (filled sch cols r b) = row_id sch r"
  by (auto simp: key_of_def filled_def row_id_def)

lemma assign_own: "assign (own_sets keys cols) new b = (\<lambda>c. if c \<in> set cols \<and> c \<notin> set keys then new c else b c)"
proof (induction cols arbitrary: b)
  case Nil
  then show ?case by (simp add: own_sets_def assign_def)
next
  case (Cons x cols)
  have "assign (own_sets keys (x # cols)) new b = assign (own_sets keys cols) new (if x \<in> set keys then b else b(x := new x))"
    by (simp add: own_sets_def assign_def)
  with Cons show ?case by (auto simp: fun_eq_iff)
qed

text \<open>Updating the other columns of the row with this key gives the same as storing all of them.\<close>

lemma assign_filled:
  assumes "set keys = set (sch_key sch)" "set (sch_key sch) \<subseteq> set cols" "key_of sch b = row_id sch r"
  shows "assign (own_sets keys cols) (filled sch cols r d) b = filled sch cols r b"
proof
  fix c
  have "b c = sch_stored sch c (row_get r c)" if "c \<in> set (sch_key sch)"
    using assms(3) that by (simp add: key_of_def row_id_def)
  with assms(1,2) show "assign (own_sets keys cols) (filled sch cols r d) b c = filled sch cols r b c"
    by (auto simp: assign_own filled_def)
qed

lemma put_row_keyed:
  "set (sch_key sch) \<subseteq> set cols \<Longrightarrow> has_id sch r \<Longrightarrow> keyed_rows sch T \<Longrightarrow> keyed_rows sch (put_row sch cols r T)"
  by (simp add: keyed_rows_def put_row_def key_filled has_id_def)

lemma merge1_filled:
  assumes "set (sch_key sch) \<subseteq> set cols" "keyed_rows sch T"
  shows "merge1 sch sets cols cols (filled sch cols r (sch_default sch)) T = upsert1 sch sets (filled sch cols r (sch_default sch)) T"
proof -
  have *: "(\<lambda>c. case map_of (zip cols cols) c of None \<Rightarrow> sch_default sch c | Some d \<Rightarrow> filled sch cols r (sch_default sch) d) =
      filled sch cols r (sch_default sch)"
    using map_of_zip_map [of cols "\<lambda>x. x"] by (auto simp: filled_def fun_eq_iff)
  show ?thesis unfolding merge1_def * using assms(2)
    by (auto simp: upsert1_def insert1_def keyed_rows_def split: option.split)
qed

lemma upsert1_filled:
  assumes "set keys = set (sch_key sch)" "set (sch_key sch) \<subseteq> set cols" "keyed_rows sch T"
  shows "upsert1 sch (own_sets keys cols) (filled sch cols r (sch_default sch)) T =
    (if has_id sch r then Some (put_row sch cols r T) else None)"
proof -
  have "assign (own_sets keys cols) (filled sch cols r (sch_default sch)) b = filled sch cols r b" if "T (row_id sch r) = Some b" for b
    by (rule assign_filled [OF assms(1,2)]) (use assms(3) that in \<open>simp add: keyed_rows_def\<close>)
  then show ?thesis
    by (auto simp: upsert1_def key_filled [OF assms(2)] has_id_def put_row_def split: option.split)
qed

lemma each_upsert:
  assumes "set keys = set (sch_key sch)" "set (sch_key sch) \<subseteq> set cols"
  shows "keyed_rows sch T \<Longrightarrow>
    each (upsert1 sch (own_sets keys cols)) (map (\<lambda>r. filled sch cols r (sch_default sch)) rows) T =
      (if list_all (has_id sch) rows then Some (fold (put_row sch cols) rows T) else None)"
  by (induction rows arbitrary: T) (simp_all add: upsert1_filled [OF assms] put_row_keyed [OF assms(2)])

lemma each_merge:
  assumes "set keys = set (sch_key sch)" "set (sch_key sch) \<subseteq> set cols"
  shows "keyed_rows sch T \<Longrightarrow>
    each (merge1 sch (own_sets keys cols) cols cols) (map (\<lambda>r. filled sch cols r (sch_default sch)) rows) T =
      (if list_all (has_id sch) rows then Some (fold (put_row sch cols) rows T) else None)"
  by (induction rows arbitrary: T)
    (simp_all add: merge1_filled [OF assms(2)] upsert1_filled [OF assms] put_row_keyed [OF assms(2)])

lemma each_insert:
  assumes "set (sch_key sch) \<subseteq> set cols"
  shows "each (insert1 sch) (map (\<lambda>r. filled sch cols r (sch_default sch)) rows) T = Some T' \<Longrightarrow>
    T' = fold (put_row sch cols) rows T \<and> list_all (has_id sch) rows \<and> distinct (map (row_id sch) rows) \<and>
      (\<forall>r \<in> set rows. T (row_id sch r) = None)"
proof (induction rows arbitrary: T)
  case (Cons r rows)
  let ?T = "T(row_id sch r \<mapsto> filled sch cols r (sch_default sch))"
  have 1: "insert1 sch (filled sch cols r (sch_default sch)) T =
      (if has_id sch r \<and> T (row_id sch r) = None then Some ?T else None)"
    by (auto simp: insert1_def key_filled [OF assms] has_id_def)
  from Cons.prems have r: "has_id sch r" "T (row_id sch r) = None"
    and rest: "each (insert1 sch) (map (\<lambda>r. filled sch cols r (sch_default sch)) rows) ?T = Some T'"
    by (simp_all add: 1 split: if_splits)
  moreover have "put_row sch cols r T = ?T" using r(2) by (simp add: put_row_def)
  ultimately show ?case using Cons.IH [OF rest] by (auto simp: fun_upd_def split: if_splits)
qed simp

text \<open>What the rows leave under a key: the last row with it, over what was there.\<close>

lemma fold_put_row:
  "fold (put_row sch cols) rows T k =
     (case find (\<lambda>r. row_id sch r = k) (rev rows) of
        None \<Rightarrow> T k
      | Some r \<Rightarrow> Some (filled sch cols r (case T k of None \<Rightarrow> sch_default sch | Some b \<Rightarrow> b)))"
proof (induction rows arbitrary: T)
  case (Cons r rows)
  have "find P (xs @ [x]) = (case find P xs of None \<Rightarrow> if P x then Some x else None | Some y \<Rightarrow> Some y)" for P :: "row \<Rightarrow> bool" and xs x
    by (induction xs) auto
  then show ?case using Cons
    by (auto simp: put_row_def filled_def split: option.split)
qed simp

lemma fold_put_row_twice: "fold (put_row sch cols) rows (fold (put_row sch cols) rows T) = fold (put_row sch cols) rows T"
proof
  fix k
  show "fold (put_row sch cols) rows (fold (put_row sch cols) rows T) k = fold (put_row sch cols) rows T k"
    by (auto simp: fold_put_row [of _ _ rows _ k] filled_def fun_eq_iff split: option.split)
qed

section \<open>The batch writers on a table\<close>

lemma upsert_by_key: "set keys = set (sch_key sch) \<Longrightarrow> by_key sch parts (upsert_stmt dia parts keys cols gs)"
  by (auto simp: upsert_stmt_def own_sets_def list_all_iff)

lemma exec_upsert:
  assumes "set keys = set (sch_key sch)" "set (sch_key sch) \<subseteq> set cols" "keyed_rows sch T"
    and "exec_stmt sch (upsert_stmt dia parts keys cols (ph_groups (ph_for dia) (length cols) (length rows))) (flatArgs cols rows) T = Some T'"
  shows "T' = fold (put_row sch cols) rows T \<and> list_all (has_id sch) rows"
  using assms(4) each_upsert [OF assms(1-3), of rows] each_merge [OF assms(1-3), of rows]
  by (auto simp: upsert_stmt_def bind_rows new_cells_row comp_def Let_def split: if_splits)

lemma exec_insert:
  assumes "set (sch_key sch) \<subseteq> set cols"
    and "exec_stmt sch (Insert parts cols (ph_groups (ph_for dia) (length cols) (length rows))) (flatArgs cols rows) T = Some T'"
  shows "T' = fold (put_row sch cols) rows T \<and> list_all (has_id sch) rows \<and> distinct (map (row_id sch) rows) \<and>
      (\<forall>r \<in> set rows. T (row_id sch r) = None)"
  by (rule each_insert [OF assms(1)]) (use assms(2) in \<open>simp add: bind_rows new_cells_row comp_def\<close>)

lemma parts_nonempty: "SplitTablePath table = Inr parts \<Longrightarrow> parts \<noteq> []"
  by (auto simp: SplitTablePath_Inr)

lemma UpsertRows_table:
  assumes o: "obeys D c parts sch tab" "sc_dialect c \<in> dialects" "SplitTablePath table = Inr parts"
    and k: "set keys = set (sch_key sch)" "keys \<noteq> []" "set keys \<subseteq> set cols" "\<not> set cols \<subseteq> set keys"
    and u: "UpsertRows D c table keys cols rows w = (res, w')"
  shows "(isl res \<and> tab w' = tab w) \<or>
    (res = Inr (int (length rows)) \<and> list_all (has_id sch) rows \<and> tab w' = fold (put_row sch cols) rows (tab w))"
proof (cases "rows = [] \<or> ValidateColumns cols \<noteq> None \<or> ValidateColumns keys \<noteq> None")
  case True
  with u show ?thesis by (auto simp: UpsertRows_def o(3) split: if_splits option.splits)
next
  case False
  let ?q = "d_upsert (sc_dialect c) parts keys cols (length rows) (d_ph (sc_dialect c))"
  let ?st = "upsert_stmt (sc_dialect c) parts keys cols (ph_groups (ph_for (sc_dialect c)) (length cols) (length rows))"
  have "cols \<noteq> []" using k by auto
  then have q: "read_for (sc_dialect c) ?q = Some ?st" "by_key sch parts ?st"
    using upsert_read_for [OF o(2) parts_nonempty [OF o(3)]] False k upsert_by_key [OF k(1)] by simp_all
  obtain oe v where v: "drv_exec D (conn_driver c) (sc_dsn c) ?q (flatArgs cols rows) w = (oe, v)" by force
  have run: "w' = v" "oe = None \<Longrightarrow> res = Inr (int (length rows))" "oe \<noteq> None \<Longrightarrow> isl res"
    using u False v by (auto simp: UpsertRows_def o(3) Let_def split: option.splits)
  show ?thesis
  proof (cases oe)
    case None
    have "exec_stmt sch ?st (flatArgs cols rows) (tab w) = Some (tab v)" using obeysD [OF o(1) q v] None by simp
    moreover have "keyed_rows sch (tab w)" using o(1) by (simp add: obeys_def)
    ultimately show ?thesis using run None exec_upsert [OF k(1)] k(1,3) by simp
  next
    case (Some e)
    have "tab v = tab w" using obeysD [OF o(1) q v] Some by simp
    with run Some show ?thesis by simp
  qed
qed

lemma InsertRows_table:
  assumes o: "obeys D c parts sch tab" "sc_dialect c \<in> dialects" "SplitTablePath table = Inr parts"
    and k: "set (sch_key sch) \<subseteq> set cols" "cols \<noteq> []"
    and u: "InsertRows D c table cols rows w = (res, w')"
  shows "(isl res \<and> tab w' = tab w) \<or>
    (res = Inr (int (length rows)) \<and> list_all (has_id sch) rows \<and> tab w' = fold (put_row sch cols) rows (tab w) \<and>
      distinct (map (row_id sch) rows) \<and> (\<forall>r \<in> set rows. tab w (row_id sch r) = None))"
proof (cases "rows = [] \<or> ValidateColumns cols \<noteq> None")
  case True
  with u show ?thesis by (auto simp: InsertRows_def o(3) split: if_splits option.splits)
next
  case False
  let ?q = "d_insert (sc_dialect c) parts cols (length rows) (d_ph (sc_dialect c))"
  let ?st = "Insert parts cols (ph_groups (ph_for (sc_dialect c)) (length cols) (length rows))"
  have q: "read_for (sc_dialect c) ?q = Some ?st" "by_key sch parts ?st"
    using insert_read_for [OF o(2) parts_nonempty [OF o(3)] k(2)] False by simp_all
  obtain oe v where v: "drv_exec D (conn_driver c) (sc_dsn c) ?q (flatArgs cols rows) w = (oe, v)" by force
  have run: "w' = v" "oe = None \<Longrightarrow> res = Inr (int (length rows))" "oe \<noteq> None \<Longrightarrow> isl res"
    using u False v by (auto simp: InsertRows_def o(3) Let_def split: option.splits)
  show ?thesis
  proof (cases oe)
    case None
    have "exec_stmt sch ?st (flatArgs cols rows) (tab w) = Some (tab v)" using obeysD [OF o(1) q v] None by simp
    with run None exec_insert [OF k(1)] show ?thesis by simp
  next
    case (Some e)
    have "tab v = tab w" using obeysD [OF o(1) q v] Some by simp
    with run Some show ?thesis by simp
  qed
qed

section \<open>Properties\<close>

text \<open>
  C9: in a database that does what its statements say, an upsert is the keyed update of the
  table by the rows, in all four dialects: if it is accepted, every row has its key, and row
  by row the cells of the given columns are stored under it, other columns of an existing row
  keep their values and other rows are untouched; if it is refused, nothing changes. Sending
  the same rows again, accepted or refused, leaves the table as it is.
\<close>
theorem upsert_updates_table:
  assumes "obeys D c parts sch tab" "sc_dialect c \<in> {pgDialect, mysqlDialect, sqliteDialect, mssqlDialect}"
    and "SplitTablePath table = Inr parts"
    and "set keys = set (sch_key sch)" "keys \<noteq> []" "set keys \<subseteq> set cols" "\<not> set cols \<subseteq> set keys"
    and "UpsertRows D c table keys cols rows w = (res, w')"
  shows "case res of
      Inl e \<Rightarrow> tab w' = tab w
    | Inr n \<Rightarrow> n = int (length rows) \<and> list_all (has_id sch) rows \<and> tab w' = fold (put_row sch cols) rows (tab w) \<and>
        (\<forall>w2. tab w2 = tab w' \<longrightarrow> tab (snd (UpsertRows D c table keys cols rows w2)) = tab w')"
proof (cases res)
  case (Inr n)
  have 1: "n = int (length rows)" "list_all (has_id sch) rows" "tab w' = fold (put_row sch cols) rows (tab w)"
    using UpsertRows_table [OF assms] Inr by auto
  have "tab (snd (UpsertRows D c table keys cols rows w2)) = tab w'" if "tab w2 = tab w'" for w2
    using UpsertRows_table [OF assms(1-7), of rows w2] that fold_put_row_twice
    by (cases "UpsertRows D c table keys cols rows w2") (auto simp: 1(3))
  with 1 Inr show ?thesis by simp
qed (use UpsertRows_table [OF assms] in auto)

text \<open>A small database, to run the writers on: it reads each statement and does it.\<close>

definition own_rows :: "schema \<Rightarrow> table \<Rightarrow> table" where
  "own_rows sch T k =
     (case T k of None \<Rightarrow> None | Some b \<Rightarrow> if key_of sch b = k \<and> VNil \<notin> set k then Some b else None)"

definition sql_exec :: "dialect \<Rightarrow> string list \<Rightarrow> schema \<Rightarrow> string \<Rightarrow> go_value list \<Rightarrow> table \<Rightarrow> error option \<times> table" where
  "sql_exec dia tbl sch q args T =
     (case read_for dia q of
        None \<Rightarrow> (Some (External ''syntax error''), T)
      | Some st \<Rightarrow>
          if by_key sch tbl st then
            (case exec_stmt sch st args (own_rows sch T) of
               None \<Rightarrow> (Some (External ''constraint violation''), T)
             | Some T' \<Rightarrow> (None, T'))
          else (Some (External ''no such table or key''), T))"

definition sql_drivers :: "dialect \<Rightarrow> string list \<Rightarrow> schema \<Rightarrow> table drivers" where
  "sql_drivers dia tbl sch =
     \<lparr>drv_open = \<lambda>_ _ w. (None, w), drv_ping = \<lambda>_ _ w. (None, w), drv_close = \<lambda>_ _ w. (None, w),
      drv_query = \<lambda>_ _ _ w. (Inl (External ''no query''), w), drv_exec = \<lambda>_ _. sql_exec dia tbl sch\<rparr>"

lemma own_rows_keyed: "keyed_rows sch (own_rows sch T)"
  by (auto simp: keyed_rows_def own_rows_def split: option.splits if_splits)

lemma own_rows_same: "keyed_rows sch T \<Longrightarrow> own_rows sch T = T"
  by (rule ext) (auto simp: keyed_rows_def own_rows_def split: option.splits)

text \<open>The meaning of a statement keeps the rows under their keys.\<close>

lemma insert1_keyed: "insert1 sch r T = Some T' \<Longrightarrow> keyed_rows sch T \<Longrightarrow> keyed_rows sch T'"
  by (auto simp: insert1_def keyed_rows_def split: if_splits)

lemma assign_key:
  assumes "list_all (\<lambda>(c, d). c \<notin> set (sch_key sch)) sets"
  shows "key_of sch (assign sets r b) = key_of sch b"
  using assms
proof (induction sets arbitrary: b)
  case (Cons p sets)
  obtain c d where p: "p = (c, d)" by (cases p)
  have "key_of sch (assign (p # sets) r b) = key_of sch (b(c := r d))"
    using Cons by (simp add: p assign_def)
  also have "\<dots> = key_of sch b" using Cons.prems by (auto simp: p key_of_def)
  finally show ?case .
qed (simp add: assign_def)

lemma upsert1_keyed:
  assumes "list_all (\<lambda>(c, d). c \<notin> set (sch_key sch)) sets" "upsert1 sch sets r T = Some T'" "keyed_rows sch T"
  shows "keyed_rows sch T'"
  using assms(2,3) assign_key [OF assms(1)] by (auto simp: upsert1_def keyed_rows_def split: if_splits option.splits)

lemma merge1_keyed:
  assumes "list_all (\<lambda>(c, d). c \<notin> set (sch_key sch)) sets" "merge1 sch sets ins vals s T = Some T'" "keyed_rows sch T"
  shows "keyed_rows sch T'"
  using assms(2,3) assign_key [OF assms(1)] insert1_keyed
  by (auto simp: merge1_def keyed_rows_def [of _ "fun_upd _ _ _"] keyed_rows_def [of _ T] split: option.splits)

lemma each_keyed:
  assumes "\<And>x T T'. f x T = Some T' \<Longrightarrow> keyed_rows sch T \<Longrightarrow> keyed_rows sch T'"
  shows "each f xs T = Some T' \<Longrightarrow> keyed_rows sch T \<Longrightarrow> keyed_rows sch T'"
  using assms by (induction xs arbitrary: T) (auto split: option.splits)

lemma exec_keyed:
  assumes "by_key sch tbl st" "exec_stmt sch st args T = Some T'" "keyed_rows sch T"
  shows "keyed_rows sch T'"
  using assms
  by (cases "(sch, st, args, T)" rule: exec_stmt.cases)
    (auto simp: Let_def split: option.splits if_splits elim!: each_keyed [rotated] intro: insert1_keyed upsert1_keyed merge1_keyed)

lemma sql_drivers_obey: "sc_dialect c = dia \<Longrightarrow> obeys (sql_drivers dia tbl sch) c tbl sch (own_rows sch)"
  using exec_keyed [OF _ _ own_rows_keyed]
  by (auto simp: obeys_def sql_drivers_def sql_exec_def own_rows_keyed own_rows_same split: option.splits)

definition id_schema :: schema where
  "id_schema = \<lparr>sch_key = [''id''], sch_default = \<lambda>_. VNil, sch_stored = \<lambda>_ v. v\<rparr>"

definition users_row :: "i64 \<Rightarrow> string \<Rightarrow> row" where
  "users_row i n = [(''id'', VInt64 i), (''name'', VStr n)]"

definition users_table :: table where
  "users_table = [[VInt64 1] \<mapsto> (\<lambda>c. if c = ''id'' then VInt64 1 else if c = ''name'' then VStr ''old'' else VBool True)]"

definition users_pg :: sqlConn where
  "users_pg = \<lparr>sc_dialect = pgDialect, sc_dsn = [], sc_db = True\<rparr>"

definition users_db :: "table drivers" where
  "users_db = sql_drivers pgDialect [''users''] id_schema"

lemma users_obey: "obeys users_db users_pg [''users''] id_schema (own_rows id_schema)"
  unfolding users_db_def by (rule sql_drivers_obey) (simp add: users_pg_def)

lemma users_conn: "sc_dialect users_pg = pgDialect" "sch_key id_schema = [''id'']"
  by (simp_all add: users_pg_def id_schema_def)

lemma users_own: "own_rows id_schema users_table = users_table"
  by (rule own_rows_same) (simp add: keyed_rows_def users_table_def key_of_def id_schema_def)

theorem upsert_updates_table_witness:
  "\<exists>T. UpsertRows users_db users_pg ''users'' [''id''] [''id'', ''name'']
      [users_row 1 ''new'', users_row 2 ''b''] users_table = (Inr 2, T) \<and>
    map (map_option (\<lambda>r. map r [''id'', ''name'', ''admin''])) (map (own_rows id_schema T) [[VInt64 1], [VInt64 2], [VInt64 3]]) =
      [Some [VInt64 1, VStr ''new'', VBool True], Some [VInt64 2, VStr ''b'', VNil], None]"
proof -
  let ?rows = "[users_row 1 ''new'', users_row 2 ''b'']"
  have f: "fst (UpsertRows users_db users_pg ''users'' [''id''] [''id'', ''name''] ?rows users_table) = Inr 2"
    by code_simp
  obtain T where u: "UpsertRows users_db users_pg ''users'' [''id''] [''id'', ''name''] ?rows users_table = (Inr 2, T)"
    using f by (cases "UpsertRows users_db users_pg ''users'' [''id''] [''id'', ''name''] ?rows users_table") simp
  have "own_rows id_schema T = fold (put_row id_schema [''id'', ''name'']) ?rows users_table"
    using upsert_updates_table [OF users_obey _ SplitTable_users _ _ _ _ u] by (simp add: users_conn users_own)
  moreover have "map (map_option (\<lambda>r. map r [''id'', ''name'', ''admin'']))
      (map (fold (put_row id_schema [''id'', ''name'']) ?rows users_table) [[VInt64 1], [VInt64 2], [VInt64 3]]) =
      [Some [VInt64 1, VStr ''new'', VBool True], Some [VInt64 2, VStr ''b'', VNil], None]"
    by code_simp
  ultimately show ?thesis using u by simp
qed

text \<open>
  C11: an insert never overwrites: if it is accepted, the keys of its rows are new and
  different, and the table is what it was with these rows added; otherwise nothing changes,
  however many of the rows would have been acceptable.
\<close>
theorem insert_never_overwrites:
  assumes "obeys D c parts sch tab" "sc_dialect c \<in> {pgDialect, mysqlDialect, sqliteDialect, mssqlDialect}"
    and "SplitTablePath table = Inr parts"
    and "set (sch_key sch) \<subseteq> set cols" "cols \<noteq> []"
    and "InsertRows D c table cols rows w = (res, w')"
  shows "tab w \<subseteq>\<^sub>m tab w' \<and>
    (case res of
       Inl e \<Rightarrow> tab w' = tab w
     | Inr n \<Rightarrow> n = int (length rows) \<and> distinct (map (row_id sch) rows) \<and>
         (\<forall>r \<in> set rows. tab w (row_id sch r) = None \<and>
            tab w' (row_id sch r) = Some (filled sch cols r (sch_default sch))) \<and>
         dom (tab w') = dom (tab w) \<union> row_id sch ` set rows)"
proof (cases "isl res")
  case True
  with InsertRows_table [OF assms] show ?thesis by (auto split: sum.splits)
next
  case False
  then have 1: "res = Inr (int (length rows))" "tab w' = fold (put_row sch cols) rows (tab w)"
    "distinct (map (row_id sch) rows)" "\<forall>r \<in> set rows. tab w (row_id sch r) = None"
    using InsertRows_table [OF assms] by auto
  have old: "tab w' k = tab w k" if "k \<notin> row_id sch ` set rows" for k
  proof -
    have "find (\<lambda>r. row_id sch r = k) (rev rows) = None" using that by (auto simp: find_None_iff)
    then show ?thesis by (simp add: 1(2) fold_put_row)
  qed
  have new: "tab w' (row_id sch r) = Some (filled sch cols r (sch_default sch))" if r: "r \<in> set rows" for r
  proof -
    obtain x where x: "find (\<lambda>x. row_id sch x = row_id sch r) (rev rows) = Some x"
      using r by (cases "find (\<lambda>x. row_id sch x = row_id sch r) (rev rows)") (auto simp: find_None_iff)
    then have "x \<in> set rows" "row_id sch x = row_id sch r" using find_Some_set [OF x] by auto
    with 1(3) r have "x = r" by (auto simp: distinct_map dest: inj_onD)
    with x 1(4) r show ?thesis by (simp add: 1(2) fold_put_row)
  qed
  have "tab w k = tab w' k" if "k \<in> dom (tab w)" for k
  proof -
    have "k \<notin> row_id sch ` set rows" using that 1(4) by (auto simp: dom_def)
    with old show ?thesis by simp
  qed
  then have "tab w \<subseteq>\<^sub>m tab w'" by (simp add: map_le_def)
  moreover have "k \<in> dom (tab w') \<longleftrightarrow> k \<in> dom (tab w) \<union> row_id sch ` set rows" for k
  proof (cases "k \<in> row_id sch ` set rows")
    case True
    with new have "tab w' k \<noteq> None" by auto
    with True show ?thesis by (simp add: dom_def)
  qed (simp add: dom_def old)
  then have "dom (tab w') = dom (tab w) \<union> row_id sch ` set rows" by (rule set_eqI)
  ultimately show ?thesis using 1 new by simp
qed

text \<open>One of the two rows is there already, so neither is stored; alone the new one is.\<close>

theorem insert_never_overwrites_witness:
  "(\<exists>e T. InsertRows users_db users_pg ''users'' [''id'', ''name''] [users_row 2 ''b'', users_row 1 ''new''] users_table = (Inl e, T) \<and>
      own_rows id_schema T = users_table) \<and>
   (\<exists>T. InsertRows users_db users_pg ''users'' [''id'', ''name''] [users_row 2 ''b''] users_table = (Inr 1, T) \<and>
      dom (own_rows id_schema T) = {[VInt64 1], [VInt64 2]})"
proof -
  have 1: "isl (fst (InsertRows users_db users_pg ''users'' [''id'', ''name''] [users_row 2 ''b'', users_row 1 ''new''] users_table))"
    and 2: "fst (InsertRows users_db users_pg ''users'' [''id'', ''name''] [users_row 2 ''b''] users_table) = Inr 1"
    by code_simp+
  note p = insert_never_overwrites [OF users_obey _ SplitTable_users]
  obtain e T where e: "InsertRows users_db users_pg ''users'' [''id'', ''name''] [users_row 2 ''b'', users_row 1 ''new''] users_table = (Inl e, T)"
    using 1 by (cases "InsertRows users_db users_pg ''users'' [''id'', ''name''] [users_row 2 ''b'', users_row 1 ''new''] users_table")
      (auto simp: isl_def)
  obtain T2 where t: "InsertRows users_db users_pg ''users'' [''id'', ''name''] [users_row 2 ''b''] users_table = (Inr 1, T2)"
    using 2 by (cases "InsertRows users_db users_pg ''users'' [''id'', ''name''] [users_row 2 ''b''] users_table") simp
  have "dom users_table = {[VInt64 1]}" "row_id id_schema (users_row 2 ''b'') = [VInt64 2]"
    by (simp add: users_table_def, code_simp)
  moreover have "own_rows id_schema T = users_table" using p [OF _ _ _ e] by (simp add: users_conn users_own)
  moreover have "dom (own_rows id_schema T2) = dom users_table \<union> {row_id id_schema (users_row 2 ''b'')}"
    using p [OF _ _ _ t] by (simp add: users_conn users_own)
  ultimately show ?thesis using e t by auto
qed

end
