(* ===== verification/Sqlbulk.thy ===== *)
theory Sqlbulk
  imports Bulk Sqltable
begin

text \<open>
  What the bulk paths do to a table. The statements of their sessions (creation of a staging
  table, insertion from it, its removal) are read as in \<open>Sqlread\<close>; a session is given by what
  they, the copies and the bulk statement mean for the staging table and the target.
\<close>

section \<open>Statements of a session\<close>

text \<open>A new table with columns of another one; an insertion of the selected columns of a table,
  which may update on a conflict; a merge of a table; a removal.\<close>

datatype session_stmt =
    Create string "string list" "string list"
  | InsertFrom "string list" "string list" "string list" string "(string list \<times> (string \<times> string) list) option"
  | MergeFrom "string list" string "(string \<times> string) list" "(string \<times> string) list" "string list" "string list"
  | Drop string

definition read_create_temp :: "char \<Rightarrow> char \<Rightarrow> string \<Rightarrow> session_stmt option" where
  "read_create_temp opn cl s = do {
     s \<leftarrow> eat ''CREATE TEMP TABLE '' s;
     (n, s) \<leftarrow> lex_quoted opn cl s;
     s \<leftarrow> eat '' AS SELECT '' s;
     (cols, s) \<leftarrow> read_names opn cl s;
     s \<leftarrow> eat '' FROM '' s;
     (tbl, s) \<leftarrow> read_path opn cl s;
     s \<leftarrow> eat '' WITH NO DATA'' s;
     if s = [] then Some (Create n cols tbl) else None
   }"

definition read_select_into :: "char \<Rightarrow> char \<Rightarrow> string \<Rightarrow> session_stmt option" where
  "read_select_into opn cl s = do {
     s \<leftarrow> eat ''SELECT TOP 0 '' s;
     (cols, s) \<leftarrow> read_names opn cl s;
     s \<leftarrow> eat '' INTO '' s;
     (n, s) \<leftarrow> lex_quoted opn cl s;
     s \<leftarrow> eat '' FROM '' s;
     (tbl, s) \<leftarrow> read_path opn cl s;
     if s = [] then Some (Create n cols tbl) else None
   }"

definition read_insert_from :: "char \<Rightarrow> char \<Rightarrow> string \<Rightarrow> session_stmt option" where
  "read_insert_from opn cl s = do {
     s \<leftarrow> eat ''INSERT INTO '' s;
     (tbl, s) \<leftarrow> read_path opn cl s;
     s \<leftarrow> eat '' ('' s;
     (cols, s) \<leftarrow> read_names opn cl s;
     s \<leftarrow> eat '') SELECT '' s;
     (sel, s) \<leftarrow> read_names opn cl s;
     s \<leftarrow> eat '' FROM '' s;
     (n, s) \<leftarrow> lex_quoted opn cl s;
     if s = [] then Some (InsertFrom tbl cols sel n None)
     else (case read_conflict opn cl s of
             Some ((Some ks, sets), []) \<Rightarrow> Some (InsertFrom tbl cols sel n (Some (ks, sets)))
           | _ \<Rightarrow> None)
   }"

text \<open>With or without SQL Server's guard, a string literal without quotes.\<close>

definition read_drop :: "char \<Rightarrow> char \<Rightarrow> string \<Rightarrow> session_stmt option" where
  "read_drop opn cl s = do {
     s \<leftarrow> (case eat (''IF OBJECT_ID('' @ [CHR 0x27] @ ''tempdb..'') s of
             None \<Rightarrow> Some s
           | Some s \<Rightarrow> eat ([CHR 0x27] @ '') IS NOT NULL '') (dropWhile (\<lambda>c. c \<noteq> CHR 0x27) s));
     s \<leftarrow> eat ''DROP TABLE '' s;
     (n, s) \<leftarrow> lex_quoted opn cl s;
     if s = [] then Some (Drop n) else None
   }"

definition read_merge_from :: "char \<Rightarrow> char \<Rightarrow> string \<Rightarrow> session_stmt option" where
  "read_merge_from opn cl s =
     (case read_merge opn cl s of
        Some (Merge tbl (Inr n) cols on sets ins vals) \<Rightarrow> Some (MergeFrom tbl n on sets ins vals)
      | _ \<Rightarrow> None)"

fun first_of :: "('a \<Rightarrow> 'b option) list \<Rightarrow> 'a \<Rightarrow> 'b option" where
  "first_of [] s = None"
| "first_of (f # fs) s = (case f s of None \<Rightarrow> first_of fs s | Some x \<Rightarrow> Some x)"

definition read_session :: "char \<Rightarrow> char \<Rightarrow> string \<Rightarrow> session_stmt option" where
  "read_session opn cl =
     first_of [read_create_temp opn cl, read_select_into opn cl, read_insert_from opn cl, read_drop opn cl, read_merge_from opn cl]"

context quoting
begin

lemma name_back: "after_quote cl r \<Longrightarrow> lex_quoted opn cl (q s @ r) = Some (s, r)"
  by (rule read_back)

lemma insert_from_back:
  assumes "parts \<noteq> []" "cols \<noteq> []"
  shows "read_insert_from opn cl (''INSERT INTO '' @ qualify parts q @ '' ('' @ quotedList cols q @ '') SELECT '' @
      quotedList cols q @ '' FROM '' @ q n) = Some (InsertFrom parts cols cols n None)"
proof -
  have "read_path opn cl (qualify parts q @ '' ('' @ s) = Some (parts, '' ('' @ s)" for s
    by (rule path_back [OF assms(1)]) (use separators in auto)
  moreover have "read_names opn cl (quotedList cols q @ '') SELECT '' @ s) = Some (cols, '') SELECT '' @ s)" for s
    by (rule names_back [OF assms(2)]) (use separators in auto)
  moreover have "read_names opn cl (quotedList cols q @ '' FROM '' @ s) = Some (cols, '' FROM '' @ s)" for s
    by (rule names_back [OF assms(2)]) (use separators in auto)
  moreover have "lex_quoted opn cl (q n) = Some (n, [])" using name_back [of "[]" n] by simp
  ultimately show ?thesis by (simp add: read_insert_from_def)
qed

lemma upsert_from_back:
  assumes "parts \<noteq> []" "cols \<noteq> []" "keys \<noteq> []" "\<not> set cols \<subseteq> set keys"
  shows "read_insert_from opn cl (''INSERT INTO '' @ qualify parts q @ '' ('' @ quotedList cols q @ '') SELECT '' @
      quotedList cols q @ '' FROM '' @ q n @ '' ON CONFLICT ('' @ quotedList keys q @ '') DO UPDATE SET '' @ conflictSets keys cols q) =
    Some (InsertFrom parts cols cols n (Some (keys, own_sets keys cols)))"
proof -
  have "read_path opn cl (qualify parts q @ '' ('' @ s) = Some (parts, '' ('' @ s)" for s
    by (rule path_back [OF assms(1)]) (use separators in auto)
  moreover have "read_names opn cl (quotedList cols q @ '') SELECT '' @ s) = Some (cols, '') SELECT '' @ s)" for s
    by (rule names_back [OF assms(2)]) (use separators in auto)
  moreover have "read_names opn cl (quotedList cols q @ '' FROM '' @ s) = Some (cols, '' FROM '' @ s)" for s
    by (rule names_back [OF assms(2)]) (use separators in auto)
  moreover have "lex_quoted opn cl (q n @ '' ON CONFLICT ('' @ s) = Some (n, '' ON CONFLICT ('' @ s)" for s
    by (rule name_back) (use separators in auto)
  moreover note conflict_back [OF assms(3,4)]
  ultimately show ?thesis by (simp add: read_insert_from_def conflictSets_def)
qed

end

lemma pg_create_reads:
  assumes "parts \<noteq> []" "cols \<noteq> []"
  shows "read_session (CHR 0x22) (CHR 0x22) (pg_create parts cols) = Some (Create pgStageTempTable cols parts)"
proof -
  have "lex_quoted (CHR 0x22) (CHR 0x22) (quoteDouble n @ '' AS SELECT '' @ s) = Some (n, '' AS SELECT '' @ s)" for n s
    by (rule dquote.name_back) simp
  moreover have "read_names (CHR 0x22) (CHR 0x22) (quotedList cols quoteDouble @ '' FROM '' @ s) = Some (cols, '' FROM '' @ s)" for s
    by (rule dquote.names_back [OF assms(2)]) simp_all
  moreover have "read_path (CHR 0x22) (CHR 0x22) (qualify parts quoteDouble @ '' WITH NO DATA'') = Some (parts, '' WITH NO DATA'')"
    by (rule dquote.path_back [OF assms(1)]) simp_all
  ultimately show ?thesis by (simp add: read_session_def read_create_temp_def pg_create_def)
qed

lemma pg_merge_reads:
  assumes "parts \<noteq> []" "cols \<noteq> []" "keys \<noteq> []" "\<not> set cols \<subseteq> set keys"
  shows "read_session (CHR 0x22) (CHR 0x22) (pg_merge parts keys cols) =
    Some (InsertFrom parts cols cols pgStageTempTable (Some (keys, own_sets keys cols)))"
  using dquote.upsert_from_back [OF assms, of pgStageTempTable]
  by (simp add: read_session_def read_create_temp_def read_select_into_def pg_merge_def)

lemma pg_drop_reads: "read_session (CHR 0x22) (CHR 0x22) pg_drop = Some (Drop pgStageTempTable)"
  by code_simp

lemma ms_create_reads:
  assumes "parts \<noteq> []" "cols \<noteq> []"
  shows "read_session (CHR ''['') (CHR '']'') (ms_create n parts cols) = Some (Create n cols parts)"
proof -
  have "read_names (CHR ''['') (CHR '']'') (quotedList cols quoteBracket @ '' INTO '' @ s) = Some (cols, '' INTO '' @ s)" for s
    by (rule bracket.names_back [OF assms(2)]) simp_all
  moreover have "lex_quoted (CHR ''['') (CHR '']'') (quoteBracket n @ '' FROM '' @ s) = Some (n, '' FROM '' @ s)" for s
    by (rule bracket.name_back) simp
  moreover have "read_path (CHR ''['') (CHR '']'') (qualify parts quoteBracket @ []) = Some (parts, [])"
    by (rule bracket.path_back [OF assms(1)]) simp_all
  ultimately show ?thesis by (simp add: read_session_def read_create_temp_def read_select_into_def ms_create_def)
qed

lemma ms_insert_reads:
  assumes "parts \<noteq> []" "cols \<noteq> []"
  shows "read_session (CHR ''['') (CHR '']'') (ms_final n parts [] cols) = Some (InsertFrom parts cols cols n None)"
  using bracket.insert_from_back [OF assms, of n]
  by (simp add: read_session_def read_create_temp_def read_select_into_def ms_final_def)

lemma ms_drop_reads:
  assumes "CHR 0x27 \<notin> set n"
  shows "read_session (CHR ''['') (CHR '']'') (ms_drop n) = Some (Drop n)"
proof -
  have "dropWhile (\<lambda>c. c \<noteq> CHR 0x27) (n @ CHR 0x27 # s) = CHR 0x27 # s" for s
    using assms by (subst dropWhile_append2) auto
  moreover have "lex_quoted (CHR ''['') (CHR '']'') (quoteBracket n) = Some (n, [])" using bracket.name_back [of "[]" n] by simp
  ultimately show ?thesis
    by (simp add: read_session_def read_create_temp_def read_select_into_def read_insert_from_def read_drop_def ms_drop_def)
qed

lemma read_stmt_merge: "read_stmt opn cl s = Some (Merge tbl src cols on sets ins vals) \<Longrightarrow> read_merge opn cl s = Some (Merge tbl src cols on sets ins vals)"
  by (auto simp: read_stmt_def split: option.splits if_splits list.splits)

lemma ms_merge_reads:
  assumes "parts \<noteq> []" "cols \<noteq> []" "keys \<noteq> []" "\<not> set cols \<subseteq> set keys"
  shows "read_session (CHR ''['') (CHR '']'') (ms_final n parts keys cols) =
    Some (MergeFrom parts n (map (\<lambda>k. (k, k)) keys) (own_sets keys cols) cols cols)"
proof -
  have "read_merge (CHR ''['') (CHR '']'') (mergeFromStage parts n keys cols) =
      Some (Merge parts (Inr n) [] (map (\<lambda>k. (k, k)) keys) (own_sets keys cols) cols cols)"
    by (rule read_stmt_merge [OF stage_merge_reads [OF assms]])
  moreover have "eat p (mergeFromStage parts n keys cols) = None" if "p \<noteq> []" "hd p \<noteq> CHR ''M''" for p
    using that by (cases p) (simp_all add: mergeFromStage_def Let_def)
  ultimately show ?thesis using assms(3)
    by (simp add: read_session_def read_create_temp_def read_select_into_def read_insert_from_def read_drop_def
        read_merge_from_def ms_final_def)
qed



section \<open>The meaning of a session\<close>

text \<open>A staging table holds its columns and its rows, the values in the order of the columns.\<close>

type_synonym staged = "string list \<times> go_value list list"

fun stage_of :: "session_stmt \<Rightarrow> string" where
  "stage_of (Create n cols tbl) = n"
| "stage_of (InsertFrom tbl cols sel n cf) = n"
| "stage_of (MergeFrom tbl n on sets ins vals) = n"
| "stage_of (Drop n) = n"

text \<open>What is moved into the target, as a values list would be.\<close>

fun exec_staged :: "schema \<Rightarrow> session_stmt \<Rightarrow> staged \<Rightarrow> table \<Rightarrow> table option" where
  "exec_staged sch (InsertFrom tbl cols sel n None) s T = each (insert1 sch) (map (new_cells sch cols) (snd s)) T"
| "exec_staged sch (InsertFrom tbl cols sel n (Some (ks, sets))) s T =
     each (upsert1 sch sets) (map (new_cells sch cols) (snd s)) T"
| "exec_staged sch (MergeFrom tbl n on sets ins vals) s T =
     (let ss = map (new_cells sch (fst s)) (snd s)
      in if distinct (map (key_of sch) ss) then each (merge1 sch sets ins vals) ss T else None)"
| "exec_staged sch st s T = Some T"

text \<open>When that is their meaning: all columns are moved in their order, by the primary key.\<close>

fun moves :: "schema \<Rightarrow> string list \<Rightarrow> session_stmt \<Rightarrow> string list \<Rightarrow> bool" where
  "moves sch tbl (InsertFrom t cols sel n cf) scols =
     (t = tbl \<and> sel = scols \<and>
      (case cf of
         None \<Rightarrow> True
       | Some (ks, sets) \<Rightarrow> set ks = set (sch_key sch) \<and> list_all (\<lambda>(c, d). c \<notin> set (sch_key sch)) sets))"
| "moves sch tbl (MergeFrom t n on sets ins vals) scols =
     (t = tbl \<and> set on = (\<lambda>k. (k, k)) ` set (sch_key sch) \<and> list_all (\<lambda>(c, d). c \<notin> set (sch_key sch)) sets)"
| "moves sch tbl st scols = False"

definition read_session_for :: "dialect \<Rightarrow> string \<Rightarrow> session_stmt option" where
  "read_session_for dia =
     (if d_name dia = ''sqlserver'' then read_session (CHR ''['') (CHR '']'') else read_session (CHR 0x22) (CHR 0x22))"

text \<open>
  A session that does what it is told: \<open>tab\<close> is the target's table \<open>tbl\<close>, \<open>stg\<close> the staging
  tables of the session, \<open>pend\<close> the bulk statement that is being sent. A call that fails leaves
  the target's table as it is; nothing is assumed about what else it does.
\<close>

definition statements_obey ::
  "('w, 'x) bulk_drivers_scheme \<Rightarrow> sqlConn \<Rightarrow> string list \<Rightarrow> schema \<Rightarrow> ('w \<Rightarrow> table) \<Rightarrow> ('w \<Rightarrow> string \<Rightarrow> staged option) \<Rightarrow> bool" where
  "statements_obey D c tbl sch tab stg \<longleftrightarrow>
     (\<forall>q w oe w'. bd_exec D (conn_driver c) (sc_dsn c) q w = (oe, w') \<longrightarrow>
        (oe \<noteq> None \<longrightarrow> tab w' = tab w) \<and>
        (\<forall>st. read_session_for (sc_dialect c) q = Some st \<longrightarrow> [stage_of st] \<noteq> tbl \<longrightarrow>
           (case st of
              Create n cols like \<Rightarrow> tab w' = tab w \<and> (oe = None \<longrightarrow> stg w' n = Some (cols, []))
            | Drop n \<Rightarrow> tab w' = tab w
            | _ \<Rightarrow> oe = None \<longrightarrow> (\<forall>s. stg w (stage_of st) = Some s \<longrightarrow> moves sch tbl st (fst s) \<longrightarrow>
                exec_staged sch st s (tab w) = Some (tab w')))))"

definition copies_obey ::
  "('w, 'x) bulk_drivers_scheme \<Rightarrow> sqlConn \<Rightarrow> string list \<Rightarrow> schema \<Rightarrow> ('w \<Rightarrow> table) \<Rightarrow> ('w \<Rightarrow> string \<Rightarrow> staged option) \<Rightarrow> bool" where
  "copies_obey D c tbl sch tab stg \<longleftrightarrow>
     (\<forall>dst cols vss w oe w'. bd_copy D (sc_dsn c) dst cols vss w = (oe, w') \<longrightarrow>
        (oe \<noteq> None \<longrightarrow> tab w' = tab w) \<and>
        (oe = None \<longrightarrow> dst = tbl \<longrightarrow> each (insert1 sch) (map (new_cells sch cols) vss) (tab w) = Some (tab w')) \<and>
        (\<forall>n. dst = [n] \<longrightarrow> [n] \<noteq> tbl \<longrightarrow> tab w' = tab w \<and>
           (oe = None \<longrightarrow> (\<forall>old. stg w n = Some (cols, old) \<longrightarrow> stg w' n = Some (cols, old @ vss)))))"

definition bulk_obeys ::
  "('w, 'x) bulk_drivers_scheme \<Rightarrow> sqlConn \<Rightarrow> string list \<Rightarrow> ('w \<Rightarrow> table) \<Rightarrow> ('w \<Rightarrow> string \<Rightarrow> staged option) \<Rightarrow>
    ('w \<Rightarrow> (string \<times> staged) option) \<Rightarrow> bool" where
  "bulk_obeys D c tbl tab stg pend \<longleftrightarrow>
     (\<forall>n cols w oe w'. bd_prepare D (sc_dsn c) n cols w = (oe, w') \<longrightarrow>
        tab w' = tab w \<and> stg w' = stg w \<and> (oe = None \<longrightarrow> pend w' = Some (n, cols, []))) \<and>
     (\<forall>vals w oe w'. bd_send D (sc_dsn c) vals w = (oe, w') \<longrightarrow>
        tab w' = tab w \<and> stg w' = stg w \<and>
        (oe = None \<longrightarrow> (\<forall>n cols vss. pend w = Some (n, cols, vss) \<longrightarrow> pend w' = Some (n, cols, vss @ [vals])))) \<and>
     (\<forall>w oe w' n cols vss. bd_flush D (sc_dsn c) w = (oe, w') \<longrightarrow> pend w = Some (n, cols, vss) \<longrightarrow> [n] \<noteq> tbl \<longrightarrow>
        tab w' = tab w \<and>
        (oe = None \<longrightarrow> (\<forall>old. stg w n = Some (cols, old) \<longrightarrow> stg w' n = Some (cols, old @ vss)))) \<and>
     (\<forall>w. tab (snd (bd_stmt_close D (sc_dsn c) w)) = tab w \<and> stg (snd (bd_stmt_close D (sc_dsn c) w)) = stg w)"

definition session_obeys ::
  "('w, 'x) bulk_drivers_scheme \<Rightarrow> sqlConn \<Rightarrow> string list \<Rightarrow> schema \<Rightarrow> ('w \<Rightarrow> table) \<Rightarrow> ('w \<Rightarrow> string \<Rightarrow> staged option) \<Rightarrow>
    ('w \<Rightarrow> (string \<times> staged) option) \<Rightarrow> bool" where
  "session_obeys D c tbl sch tab stg pend \<longleftrightarrow>
     (\<forall>w. keyed_rows sch (tab w)) \<and>
     (\<forall>w. tab (snd (bd_conn D (conn_driver c) (sc_dsn c) w)) = tab w \<and>
        tab (snd (bd_conn_close D (conn_driver c) (sc_dsn c) w)) = tab w \<and> tab (snd (bd_now D w)) = tab w) \<and>
     statements_obey D c tbl sch tab stg \<and> copies_obey D c tbl sch tab stg \<and> bulk_obeys D c tbl tab stg pend"

section \<open>The bulk paths on a table\<close>

text \<open>What the rows may have done to the table: nothing, with an error, or what they should.\<close>

definition loaded ::
  "schema \<Rightarrow> string list \<Rightarrow> string list \<Rightarrow> row list \<Rightarrow> table \<Rightarrow> error + int \<Rightarrow> table \<Rightarrow> bool" where
  "loaded sch keys cols rows T res T' \<longleftrightarrow>
     (isl res \<and> T' = T) \<or>
     (res = Inr (int (length rows)) \<and> list_all (has_id sch) rows \<and> T' = fold (put_row sch cols) rows T \<and>
      (keys = [] \<longrightarrow> distinct (map (row_id sch) rows) \<and> (\<forall>r \<in> set rows. T (row_id sch r) = None)))"

text \<open>Without keys, or with the primary key.\<close>

definition bulk_keys :: "schema \<Rightarrow> string list \<Rightarrow> string list \<Rightarrow> bool" where
  "bulk_keys sch keys cols \<longleftrightarrow>
     set (sch_key sch) \<subseteq> set cols \<and> cols \<noteq> [] \<and> (keys = [] \<or> (set keys = set (sch_key sch) \<and> \<not> set cols \<subseteq> set keys))"

lemma loaded_inserted:
  assumes "set (sch_key sch) \<subseteq> set cols"
    and "each (insert1 sch) (map (new_cells sch cols) (map (\<lambda>r. map (row_get r) cols) rows)) T = Some T'"
  shows "loaded sch keys cols rows T (Inr (int (length rows))) T'"
  using each_insert [OF assms(1), of rows T T'] assms(2) by (simp add: loaded_def new_cells_row comp_def)

lemma loaded_staged:
  assumes k: "bulk_keys sch keys cols" "keys \<noteq> []" "keyed_rows sch T"
    and st: "st = InsertFrom parts cols cols n (Some (keys, own_sets keys cols)) \<or>
      st = MergeFrom parts n (map (\<lambda>k. (k, k)) keys) (own_sets keys cols) cols cols"
    and ex: "exec_staged sch st (cols, map (\<lambda>r. map (row_get r) cols) rows) T = Some T'"
  shows "moves sch parts st cols \<and> loaded sch keys cols rows T (Inr (int (length rows))) T'"
proof -
  have key: "set keys = set (sch_key sch)" "set (sch_key sch) \<subseteq> set cols" using k(1,2) by (simp_all add: bulk_keys_def)
  have "moves sch parts st cols" using st key(1) by (auto simp: own_sets_def list_all_iff)
  then show ?thesis using st ex each_upsert [OF key k(3), of rows] each_merge [OF key k(3), of rows] k(2)
    by (auto simp: loaded_def new_cells_row comp_def Let_def split: if_splits)
qed

lemma session_exec:
  assumes "session_obeys D c tbl sch tab stg pend" "bd_exec D (conn_driver c) (sc_dsn c) q w = (oe, w')"
  shows "oe \<noteq> None \<Longrightarrow> tab w' = tab w"
    and "read_session_for (sc_dialect c) q = Some (Create n cols like) \<Longrightarrow> [n] \<noteq> tbl \<Longrightarrow>
      tab w' = tab w \<and> (oe = None \<longrightarrow> stg w' n = Some (cols, []))"
    and "read_session_for (sc_dialect c) q = Some (Drop n) \<Longrightarrow> [n] \<noteq> tbl \<Longrightarrow> tab w' = tab w"
    and "read_session_for (sc_dialect c) q = Some st \<Longrightarrow> [stage_of st] \<noteq> tbl \<Longrightarrow> oe = None \<Longrightarrow>
      stg w (stage_of st) = Some s \<Longrightarrow> moves sch tbl st (fst s) \<Longrightarrow> exec_staged sch st s (tab w) = Some (tab w')"
proof -
  note l = assms(1) [unfolded session_obeys_def, THEN conjunct2, THEN conjunct2, THEN conjunct1, unfolded statements_obey_def,
      THEN spec, THEN spec, THEN spec, THEN spec, THEN mp, OF assms(2)]
  show "oe \<noteq> None \<Longrightarrow> tab w' = tab w" using l by blast
  show "read_session_for (sc_dialect c) q = Some (Create n cols like) \<Longrightarrow> [n] \<noteq> tbl \<Longrightarrow>
      tab w' = tab w \<and> (oe = None \<longrightarrow> stg w' n = Some (cols, []))"
    and "read_session_for (sc_dialect c) q = Some (Drop n) \<Longrightarrow> [n] \<noteq> tbl \<Longrightarrow> tab w' = tab w"
    using l by fastforce+
  show "read_session_for (sc_dialect c) q = Some st \<Longrightarrow> [stage_of st] \<noteq> tbl \<Longrightarrow> oe = None \<Longrightarrow>
      stg w (stage_of st) = Some s \<Longrightarrow> moves sch tbl st (fst s) \<Longrightarrow> exec_staged sch st s (tab w) = Some (tab w')"
    using l by (cases st) fastforce+
qed

lemma session_copy:
  assumes "session_obeys D c tbl sch tab stg pend" "bd_copy D (sc_dsn c) dst cols vss w = (oe, w')"
  shows "oe \<noteq> None \<Longrightarrow> tab w' = tab w"
    and "oe = None \<Longrightarrow> dst = tbl \<Longrightarrow> each (insert1 sch) (map (new_cells sch cols) vss) (tab w) = Some (tab w')"
    and "dst = [n] \<Longrightarrow> [n] \<noteq> tbl \<Longrightarrow> tab w' = tab w \<and> (oe = None \<longrightarrow> stg w n = Some (cols, old) \<longrightarrow> stg w' n = Some (cols, old @ vss))"
proof -
  note l = assms(1) [unfolded session_obeys_def, THEN conjunct2, THEN conjunct2, THEN conjunct2, THEN conjunct1, unfolded copies_obey_def,
      THEN spec, THEN spec, THEN spec, THEN spec, THEN spec, THEN spec, THEN mp, OF assms(2)]
  show "oe \<noteq> None \<Longrightarrow> tab w' = tab w"
    and "oe = None \<Longrightarrow> dst = tbl \<Longrightarrow> each (insert1 sch) (map (new_cells sch cols) vss) (tab w) = Some (tab w')"
    and "dst = [n] \<Longrightarrow> [n] \<noteq> tbl \<Longrightarrow> tab w' = tab w \<and> (oe = None \<longrightarrow> stg w n = Some (cols, old) \<longrightarrow> stg w' n = Some (cols, old @ vss))"
    using l by blast+
qed

lemma session_frame:
  assumes "session_obeys D c tbl sch tab stg pend"
  shows "tab (snd (bd_conn D (conn_driver c) (sc_dsn c) w)) = tab w" "tab (snd (bd_conn_close D (conn_driver c) (sc_dsn c) w)) = tab w"
    "tab (snd (bd_now D w)) = tab w" "keyed_rows sch (tab w)"
  using assms by (simp_all add: session_obeys_def)

lemma pg_session_table:
  assumes o: "session_obeys D c parts sch tab stg pend" "sc_dialect c = pgDialect"
    and p: "parts \<noteq> []" "[pgStageTempTable] \<noteq> parts" and k: "bulk_keys sch keys cols"
    and run: "pg_session D c parts keys cols rows w = (oe, w')"
  shows "loaded sch keys cols rows (tab w) (case oe of Some e \<Rightarrow> Inl e | None \<Rightarrow> Inr (int (length rows))) (tab w')"
proof (cases "bd_is_pgx D \<and> keys \<noteq> []")
  case False
  show ?thesis
  proof (cases "bd_is_pgx D")
    case True
    with False have keys: "keys = []" by simp
    obtain ce v where copy: "bd_copy D (sc_dsn c) parts cols (map (\<lambda>r. map (row_get r) cols) rows) w = (ce, v)" by force
    then have v: "w' = v" "oe = map_option (Wrapf ''pg copy: %w'' []) ce"
      using run True keys by (auto simp: pg_session_def drain_from Let_def split: option.splits)
    show ?thesis
    proof (cases ce)
      case None
      with session_copy(2) [OF o(1) copy] loaded_inserted v k show ?thesis by (simp add: bulk_keys_def)
    next
      case (Some e)
      with session_copy(1) [OF o(1) copy] v show ?thesis by (simp add: loaded_def)
    qed
  qed (use run in \<open>auto simp: pg_session_def loaded_def\<close>)
next
  case keys: True
  have n: "cols \<noteq> []" "\<not> set cols \<subseteq> set keys" using k keys unfolding bulk_keys_def by blast+
  have rd: "read_session_for (sc_dialect c) = read_session (CHR 0x22) (CHR 0x22)"
    by (simp add: read_session_for_def o(2) pgDialect_def)
  obtain e1 w1 where create: "bd_exec D (conn_driver c) (sc_dsn c) (pg_create parts cols) w = (e1, w1)" by force
  have 1: "tab w1 = tab w" "e1 = None \<Longrightarrow> stg w1 pgStageTempTable = Some (cols, [])"
    using session_exec(2) [OF o(1) create, of pgStageTempTable cols parts] pg_create_reads [OF p(1) n(1)] p(2) by (simp_all add: rd)
  obtain e2 w2 where copy: "bd_copy D (sc_dsn c) [pgStageTempTable] cols (map (\<lambda>r. map (row_get r) cols) rows) w1 = (e2, w2)" by force
  have 2: "tab w2 = tab w1" "e1 = None \<Longrightarrow> e2 = None \<Longrightarrow> stg w2 pgStageTempTable = Some (cols, map (\<lambda>r. map (row_get r) cols) rows)"
    using session_copy(3) [OF o(1) copy refl p(2), of "[]"] 1(2) by simp_all
  obtain e3 w3 where merge: "bd_exec D (conn_driver c) (sc_dsn c) (pg_merge parts keys cols) w2 = (e3, w3)" by force
  let ?st = "InsertFrom parts cols cols pgStageTempTable (Some (keys, own_sets keys cols))"
  have m: "moves sch parts ?st cols" using k keys by (auto simp: bulk_keys_def own_sets_def list_all_iff)
  have 3: "tab w3 = tab w2" if "e3 \<noteq> None" using session_exec(1) [OF o(1) merge that] .
  have 4: "loaded sch keys cols rows (tab w) (Inr (int (length rows))) (tab w3)" if "e1 = None" "e2 = None" "e3 = None"
  proof -
    have "exec_staged sch ?st (cols, map (\<lambda>r. map (row_get r) cols) rows) (tab w2) = Some (tab w3)"
      using session_exec(4) [OF o(1) merge, of ?st "(cols, map (\<lambda>r. map (row_get r) cols) rows)"] that m p(2) 2(2)
        pg_merge_reads [OF p(1) n(1) _ n(2)] keys by (simp add: rd)
    with loaded_staged [OF k _ session_frame(4) [OF o(1)], of ?st parts pgStageTempTable] keys 1 2 show ?thesis by auto
  qed
  obtain de w4 where drop: "bd_exec D (conn_driver c) (sc_dsn c) pg_drop w3 = (de, w4)" by force
  have 5: "tab w4 = tab w3" using session_exec(3) [OF o(1) drop, of pgStageTempTable] pg_drop_reads p(2) by (simp add: rd)
  have "(oe, w') = (if e1 \<noteq> None then (Some (Wrapf ''pg bulk staging: %w'' [] (the e1)), w1)
      else if e2 \<noteq> None then (Some (Wrapf ''pg copy: %w'' [] (the e2)), w2)
      else if e3 \<noteq> None then (Some (Wrapf ''pg bulk merge: %w'' [] (the e3)), w3) else (None, w4))"
    using run keys create copy merge drop by (auto simp: pg_session_def drain_from Let_def split: option.splits)
  then show ?thesis using 1(1) 2(1) 3 4 5 by (auto simp: loaded_def split: if_splits)
qed

lemma bulkPostgres_table:
  assumes "session_obeys D c parts sch tab stg pend" "sc_dialect c = pgDialect"
    and "parts \<noteq> []" "[pgStageTempTable] \<noteq> parts" "bulk_keys sch keys cols"
    and run: "bulkPostgres D c parts keys cols rows w = (res, w')"
  shows "loaded sch keys cols rows (tab w) res (tab w')"
proof -
  obtain ce w1 where c: "bd_conn D (conn_driver c) (sc_dsn c) w = (ce, w1)" by force
  have 1: "tab w1 = tab w" using session_frame(1) [OF assms(1), of w] c by simp
  show ?thesis
  proof (cases ce)
    case None
    obtain oe w2 where s: "pg_session D c parts keys cols rows w1 = (oe, w2)" by force
    have "res = (case oe of Some e \<Rightarrow> Inl e | None \<Rightarrow> Inr (int (length rows)))" "tab w' = tab w2"
      using run c None s session_frame(2) [OF assms(1), of w2] by (auto simp: bulkPostgres_def)
    with pg_session_table [OF assms(1-5) s] 1 show ?thesis by simp
  qed (use run c 1 in \<open>auto simp: bulkPostgres_def loaded_def\<close>)
qed

lemma session_bulk:
  assumes "session_obeys D c tbl sch tab stg pend"
  shows "bd_prepare D (sc_dsn c) n cols w = (oe, w') \<Longrightarrow>
      tab w' = tab w \<and> stg w' = stg w \<and> (oe = None \<longrightarrow> pend w' = Some (n, cols, []))"
    and "bd_send D (sc_dsn c) vals w = (oe, w') \<Longrightarrow> pend w = Some (n, cols, vss) \<Longrightarrow>
      tab w' = tab w \<and> stg w' = stg w \<and> (oe = None \<longrightarrow> pend w' = Some (n, cols, vss @ [vals]))"
    and "bd_flush D (sc_dsn c) w = (oe, w') \<Longrightarrow> pend w = Some (n, cols, vss) \<Longrightarrow> [n] \<noteq> tbl \<Longrightarrow>
      tab w' = tab w \<and> (oe = None \<longrightarrow> stg w n = Some (cols, old) \<longrightarrow> stg w' n = Some (cols, old @ vss))"
    and "tab (snd (bd_stmt_close D (sc_dsn c) w)) = tab w" "stg (snd (bd_stmt_close D (sc_dsn c) w)) = stg w"
proof -
  have b: "bulk_obeys D c tbl tab stg pend" using assms by (simp add: session_obeys_def)
  note b1 = b [unfolded bulk_obeys_def, THEN conjunct1, THEN spec, THEN spec, THEN spec, THEN spec, THEN spec, THEN mp]
  note b2 = b [unfolded bulk_obeys_def, THEN conjunct2, THEN conjunct1, THEN spec, THEN spec, THEN spec, THEN spec, THEN mp]
  note b3 = b [unfolded bulk_obeys_def, THEN conjunct2, THEN conjunct2, THEN conjunct1,
      THEN spec, THEN spec, THEN spec, THEN spec, THEN spec, THEN spec, THEN mp, THEN mp, THEN mp]
  show "bd_prepare D (sc_dsn c) n cols w = (oe, w') \<Longrightarrow>
      tab w' = tab w \<and> stg w' = stg w \<and> (oe = None \<longrightarrow> pend w' = Some (n, cols, []))"
    by (rule b1)
  show "bd_send D (sc_dsn c) vals w = (oe, w') \<Longrightarrow> pend w = Some (n, cols, vss) \<Longrightarrow>
      tab w' = tab w \<and> stg w' = stg w \<and> (oe = None \<longrightarrow> pend w' = Some (n, cols, vss @ [vals]))"
    using b2 by simp
  show "bd_flush D (sc_dsn c) w = (oe, w') \<Longrightarrow> pend w = Some (n, cols, vss) \<Longrightarrow> [n] \<noteq> tbl \<Longrightarrow>
      tab w' = tab w \<and> (oe = None \<longrightarrow> stg w n = Some (cols, old) \<longrightarrow> stg w' n = Some (cols, old @ vss))"
    using b3 by simp
  show "tab (snd (bd_stmt_close D (sc_dsn c) w)) = tab w" "stg (snd (bd_stmt_close D (sc_dsn c) w)) = stg w"
    using b by (simp_all add: bulk_obeys_def)
qed

lemma send_rows_obey:
  assumes o: "session_obeys D c tbl sch tab stg pend"
  shows "pend w = Some (n, cols, vss) \<Longrightarrow> ms_send_rows D (sc_dsn c) cols rows w = (oe, w') \<Longrightarrow>
    tab w' = tab w \<and> stg w' = stg w \<and> (oe = None \<longrightarrow> pend w' = Some (n, cols, vss @ map (\<lambda>r. map (row_get r) cols) rows))"
proof (induction rows arbitrary: w vss)
  case (Cons r rows)
  obtain se v where v: "bd_send D (sc_dsn c) (map (row_get r) cols) w = (se, v)" by force
  have 1: "tab v = tab w" "stg v = stg w" "se = None \<Longrightarrow> pend v = Some (n, cols, vss @ [map (row_get r) cols])"
    using session_bulk(2) [OF o v Cons.prems(1)] by simp_all
  show ?case
  proof (cases se)
    case None
    with Cons.IH [OF 1(3)] 1 Cons.prems(2) v show ?thesis by simp
  next
    case (Some e)
    with 1 Cons.prems(2) v session_bulk(4,5) [OF o, of v] show ?thesis by auto
  qed
qed simp

lemma ms_fill_table:
  assumes o: "session_obeys D c parts sch tab stg pend" "sc_dialect c = mssqlDialect"
    and p: "parts \<noteq> []" "[n] \<noteq> parts" and k: "bulk_keys sch keys cols" and stage: "stg w n = Some (cols, [])"
    and run: "ms_fill D c n parts keys cols rows w = (res, w')"
  shows "loaded sch keys cols rows (tab w) res (tab w')"
proof -
  note close = session_bulk(4,5) [OF o(1)]
  let ?vss = "map (\<lambda>r. map (row_get r) cols) rows"
  obtain e1 w1 where prep: "bd_prepare D (sc_dsn c) n cols w = (e1, w1)" by force
  have 1: "tab w1 = tab w" "stg w1 = stg w" "e1 = None \<Longrightarrow> pend w1 = Some (n, cols, [])"
    using session_bulk(1) [OF o(1) prep] by simp_all
  show ?thesis
  proof (cases e1)
    case (Some e)
    with run prep 1 show ?thesis by (auto simp: ms_fill_def loaded_def)
  next
    case e1: None
    obtain e2 w2 where send: "ms_send_rows D (sc_dsn c) cols rows w1 = (e2, w2)" by force
    have 2: "tab w2 = tab w" "stg w2 = stg w" "e2 = None \<Longrightarrow> pend w2 = Some (n, cols, ?vss)"
      using send_rows_obey [OF o(1) 1(3) [OF e1] send] 1 by simp_all
    show ?thesis
    proof (cases e2)
      case (Some e)
      with run prep e1 send 2 show ?thesis by (auto simp: ms_fill_def loaded_def)
    next
      case e2: None
      obtain e3 w3 where flush: "bd_flush D (sc_dsn c) w2 = (e3, w3)" by force
      have 3: "tab w3 = tab w" "e3 = None \<Longrightarrow> stg w3 n = Some (cols, ?vss)"
        using session_bulk(3) [OF o(1) flush 2(3) [OF e2] p(2), of "[]"] 2(1,2) stage by simp_all
      obtain e4 w4 where cl: "bd_stmt_close D (sc_dsn c) w3 = (e4, w4)" by force
      have 4: "tab w4 = tab w3" "stg w4 = stg w3" using close [of w3] cl by simp_all
      obtain e5 w5 where fin: "bd_exec D (conn_driver c) (sc_dsn c) (ms_final n parts keys cols) w4 = (e5, w5)" by force
      have fail: "tab w5 = tab w4" if "e5 \<noteq> None" using session_exec(1) [OF o(1) fin that] .
      have ok: "loaded sch keys cols rows (tab w) (Inr (int (length rows))) (tab w5)" if "e3 = None" "e5 = None"
      proof -
        have rd: "read_session_for (sc_dialect c) = read_session (CHR ''['') (CHR '']'')"
          by (simp add: read_session_for_def o(2) mssqlDialect_def)
        have cols: "cols \<noteq> []" "set (sch_key sch) \<subseteq> set cols" using k by (simp_all add: bulk_keys_def)
        show ?thesis
        proof (cases "keys = []")
          case True
          let ?st = "InsertFrom parts cols cols n None"
          have "exec_staged sch ?st (cols, ?vss) (tab w4) = Some (tab w5)"
            using session_exec(4) [OF o(1) fin, of ?st "(cols, ?vss)"] that p(2) 3 4 ms_insert_reads [OF p(1) cols(1)]
            by (simp add: rd True)
          with loaded_inserted [OF cols(2), of rows] 3 4 show ?thesis by simp
        next
          case False
          let ?st = "MergeFrom parts n (map (\<lambda>k. (k, k)) keys) (own_sets keys cols) cols cols"
          have nk: "\<not> set cols \<subseteq> set keys" using k False unfolding bulk_keys_def by blast
          have m: "moves sch parts ?st cols" using k False by (auto simp: bulk_keys_def own_sets_def list_all_iff)
          have "exec_staged sch ?st (cols, ?vss) (tab w4) = Some (tab w5)"
            using session_exec(4) [OF o(1) fin, of ?st "(cols, ?vss)"] that p(2) 3 4 m ms_merge_reads [OF p(1) cols(1) False nk]
            by (simp add: rd)
          with loaded_staged [OF k False session_frame(4) [OF o(1)], of ?st parts n] 3 4 show ?thesis by auto
        qed
      qed
      show ?thesis
        using run prep e1 send e2 flush cl fin 3 4 close [of w3] fail ok
        by (auto simp: ms_fill_def Let_def loaded_def split: option.splits)
    qed
  qed
qed

lemma stage_name: "CHR 0x27 \<notin> set (''#replicron_bulk_'' @ itoa i)"
proof -
  have "CHR 0x27 \<notin> set (nat_str n)" for n
    using nat_str_digits [of "CHR 0x27" n] by (auto simp: is_digit_def less_eq_char_def)
  then show ?thesis by (simp add: itoa_def)
qed

lemma bulkSQLServer_table:
  assumes o: "session_obeys D c parts sch tab stg pend" "sc_dialect c = mssqlDialect"
    and p: "parts \<noteq> []" "list_all identRe parts" "bulk_keys sch keys cols"
    and run: "bulkSQLServer D c parts keys cols rows w = (res, w')"
  shows "loaded sch keys cols rows (tab w) res (tab w')"
proof -
  obtain now w0 where now: "bd_now D w = (now, w0)" by force
  let ?n = "''#replicron_bulk_'' @ itoa (inst now)"
  have n: "[?n] \<noteq> parts" using p(2) by (auto simp: identRe_def ident_start_def less_eq_char_def)
  have rd: "read_session_for (sc_dialect c) = read_session (CHR ''['') (CHR '']'')"
    by (simp add: read_session_for_def o(2) mssqlDialect_def)
  obtain ce w1 where conn: "bd_conn D (conn_driver c) (sc_dsn c) w0 = (ce, w1)" by force
  have 0: "tab w0 = tab w" "tab w1 = tab w" using session_frame(1,3) [OF o(1)] now conn by (metis snd_conv)+
  show ?thesis
  proof (cases ce)
    case None
    obtain e2 w2 where create: "bd_exec D (conn_driver c) (sc_dsn c) (ms_create ?n parts cols) w1 = (e2, w2)" by force
    have "cols \<noteq> []" using p(3) by (simp add: bulk_keys_def)
    then have 2: "tab w2 = tab w" "e2 = None \<Longrightarrow> stg w2 ?n = Some (cols, [])"
      using session_exec(2) [OF o(1) create, of ?n cols parts] ms_create_reads [OF p(1)] n 0 by (simp_all add: rd)
    show ?thesis
    proof (cases e2)
      case e2: None
      obtain r w3 where fill: "ms_fill D c ?n parts keys cols rows w2 = (r, w3)" by force
      obtain de w4 where drop: "bd_exec D (conn_driver c) (sc_dsn c) (ms_drop ?n) w3 = (de, w4)" by force
      have "tab w4 = tab w3"
        using session_exec(3) [OF o(1) drop, of ?n] ms_drop_reads [OF stage_name] n by (simp add: rd)
      then have "res = r" "tab w' = tab w3"
        using run now conn None create e2 fill drop session_frame(2) [OF o(1), of w4] by (auto simp: bulkSQLServer_def Let_def)
      with ms_fill_table [OF o p(1) n p(3) 2(2) [OF e2] fill] 2 show ?thesis by simp
    next
      case (Some e)
      then show ?thesis
        using run now conn None create 2 session_frame(2) [OF o(1), of w2] by (auto simp: bulkSQLServer_def Let_def loaded_def)
    qed
  qed (use run now conn 0 in \<open>auto simp: bulkSQLServer_def Let_def loaded_def\<close>)
qed

lemma BulkLoad_table:
  assumes "session_obeys D c parts sch tab stg pend" "sc_dialect c \<in> dialects" "SplitTablePath table = Inr parts"
    and "[pgStageTempTable] \<noteq> parts" "bulk_keys sch keys cols"
    and run: "BulkLoad D c table keys cols rows w = (res, w')"
  shows "loaded sch keys cols rows (tab w) res (tab w')"
proof (cases "rows = [] \<or> ValidateColumns cols \<noteq> None \<or> ValidateColumns keys \<noteq> None")
  case True
  with run show ?thesis by (auto simp: BulkLoad_def assms(3) loaded_def split: if_splits option.splits)
next
  case False
  have parts: "parts \<noteq> []" "list_all identRe parts" using assms(3) by (auto simp: SplitTablePath_Inr list_all_iff)
  have d: "d_name pgDialect = ''postgres''" "d_name mssqlDialect = ''sqlserver''" "d_name mysqlDialect = ''mysql''" "d_name sqliteDialect = ''sqlite''"
    by (simp_all add: pgDialect_def mysqlDialect_def sqliteDialect_def mssqlDialect_def)
  consider "sc_dialect c = pgDialect" | "sc_dialect c = mssqlDialect" | "sc_dialect c \<in> {mysqlDialect, sqliteDialect}"
    using assms(2) by auto
  then show ?thesis
  proof cases
    case 1
    then have "bulkPostgres D c parts keys cols rows w = (res, w')" using run False by (auto simp: BulkLoad_def assms(3) d)
    then show ?thesis by (rule bulkPostgres_table [OF assms(1) 1 parts(1) assms(4,5)])
  next
    case 2
    then have "bulkSQLServer D c parts keys cols rows w = (res, w')" using run False by (auto simp: BulkLoad_def assms(3) d)
    then show ?thesis by (rule bulkSQLServer_table [OF assms(1) 2 parts assms(5)])
  next
    case 3
    then show ?thesis using run False by (auto simp: BulkLoad_def assms(3) d loaded_def)
  qed
qed

section \<open>What a session does not touch\<close>

definition session_keeps :: "('w, 'x) bulk_drivers_scheme \<Rightarrow> sqlConn \<Rightarrow> ('w \<Rightarrow> 'b) \<Rightarrow> bool" where
  "session_keeps D c f \<longleftrightarrow>
     (\<forall>w. f (snd (bd_conn D (conn_driver c) (sc_dsn c) w)) = f w \<and>
        f (snd (bd_conn_close D (conn_driver c) (sc_dsn c) w)) = f w \<and> f (snd (bd_now D w)) = f w \<and>
        f (snd (bd_flush D (sc_dsn c) w)) = f w \<and> f (snd (bd_stmt_close D (sc_dsn c) w)) = f w) \<and>
     (\<forall>q w. f (snd (bd_exec D (conn_driver c) (sc_dsn c) q w)) = f w) \<and>
     (\<forall>dst cols vss w. f (snd (bd_copy D (sc_dsn c) dst cols vss w)) = f w) \<and>
     (\<forall>n cols w. f (snd (bd_prepare D (sc_dsn c) n cols w)) = f w) \<and>
     (\<forall>vals w. f (snd (bd_send D (sc_dsn c) vals w)) = f w)"

lemma send_rows_keep: "session_keeps D c f \<Longrightarrow> f (snd (ms_send_rows D (sc_dsn c) cols rows w)) = f w"
proof (induction rows arbitrary: w)
  case (Cons r rows)
  have k: "f (snd (bd_send D (sc_dsn c) vals v)) = f v" "f (snd (bd_stmt_close D (sc_dsn c) v)) = f v" for vals v
    using Cons.prems by (simp_all add: session_keeps_def)
  obtain oe v where v: "bd_send D (sc_dsn c) (map (row_get r) cols) w = (oe, v)" by force
  then have "f v = f w" using k(1) [of "map (row_get r) cols" w] by simp
  with v k(2) Cons show ?case by (cases oe) auto
qed simp

lemma keepE: "f (snd p) = a \<Longrightarrow> p = (x, v) \<Longrightarrow> f v = a"
  by simp

lemma BulkLoad_keeps:
  assumes "session_keeps D c f"
  shows "f (snd (BulkLoad D c table keys cols rows w)) = f w"
proof -
  note s = send_rows_keep [OF assms]
  have k: "f (snd (bd_conn D (conn_driver c) (sc_dsn c) w)) = f w" "f (snd (bd_conn_close D (conn_driver c) (sc_dsn c) w)) = f w"
    "f (snd (bd_now D w)) = f w" "f (snd (bd_flush D (sc_dsn c) w)) = f w" "f (snd (bd_stmt_close D (sc_dsn c) w)) = f w"
    "f (snd (bd_exec D (conn_driver c) (sc_dsn c) q w)) = f w" "f (snd (bd_copy D (sc_dsn c) dst cs vss w)) = f w"
    "f (snd (bd_prepare D (sc_dsn c) n cs w)) = f w" for w q dst cs vss n
    using assms by (simp_all add: session_keeps_def)
  note e = k [THEN keepE [where f = f]] s [THEN keepE [where f = f]]
  have fill: "f (snd (ms_fill D c n parts keys cols rows w)) = f w" for n parts w
    by (auto simp: ms_fill_def Let_def k split: prod.split option.split dest!: e)
  note e = e fill [THEN keepE [where f = f]]
  have sess: "f (snd (pg_session D c parts keys cols rows w)) = f w" for parts w
    by (auto simp: pg_session_def Let_def k split: prod.split option.split dest!: e)
  have "f (snd (bulkPostgres D c parts keys cols rows w)) = f w" for parts w
    by (auto simp: bulkPostgres_def k split: prod.split option.split dest!: e sess [THEN keepE [where f = f]])
  moreover have "f (snd (bulkSQLServer D c parts keys cols rows w)) = f w" for parts w
    by (auto simp: bulkSQLServer_def Let_def k split: prod.split option.split dest!: e)
  ultimately show ?thesis by (simp add: BulkLoad_def split: sum.split option.split)
qed

section \<open>Property\<close>

text \<open>
  C10: the bulk paths do to the table what the batch writers do: on PostgreSQL through a
  temporary table and an insertion that updates, on SQL Server through a staging table and a
  merge, a bulk load with the primary key that is accepted is the keyed update by its rows,
  and without keys adds them as new rows; one that fails anywhere leaves the table as it was,
  so the fallback starts from there; the other two dialects refuse. With keys, an accepted
  bulk load and an accepted batch upsert of the same rows give the same table.
\<close>
theorem bulk_load_updates_table:
  assumes "session_obeys D c parts sch tab stg pend"
    and "sc_dialect c \<in> {pgDialect, mysqlDialect, sqliteDialect, mssqlDialect}"
    and "SplitTablePath table = Inr parts" "[pgStageTempTable] \<noteq> parts"
    and "bulk_keys sch keys cols"
    and "BulkLoad D c table keys cols rows w = (res, w')"
  shows "case res of
      Inl e \<Rightarrow> tab w' = tab w
    | Inr n \<Rightarrow> n = int (length rows) \<and> list_all (has_id sch) rows \<and> tab w' = fold (put_row sch cols) rows (tab w) \<and>
        (keys = [] \<longrightarrow> distinct (map (row_id sch) rows) \<and> (\<forall>r \<in> set rows. tab w (row_id sch r) = None)) \<and>
        (keys \<noteq> [] \<longrightarrow> obeys D c parts sch tab \<longrightarrow>
          (\<forall>m w2. UpsertRows D c table keys cols rows w = (Inr m, w2) \<longrightarrow> tab w2 = tab w'))"
proof (cases res)
  case (Inr n)
  have l: "n = int (length rows) \<and> list_all (has_id sch) rows \<and> tab w' = fold (put_row sch cols) rows (tab w) \<and>
      (keys = [] \<longrightarrow> distinct (map (row_id sch) rows) \<and> (\<forall>r \<in> set rows. tab w (row_id sch r) = None))"
    using BulkLoad_table [OF assms] by (simp add: loaded_def Inr)
  have "tab w2 = tab w'" if "keys \<noteq> []" "obeys D c parts sch tab" "UpsertRows D c table keys cols rows w = (Inr m, w2)" for m w2
  proof -
    have "set keys = set (sch_key sch)" "set keys \<subseteq> set cols" "\<not> set cols \<subseteq> set keys"
      using assms(5) that(1) unfolding bulk_keys_def by auto
    from UpsertRows_table [OF that(2) assms(2,3) this(1) that(1) this(2,3) that(3)] l show ?thesis by simp
  qed
  with l show ?thesis by (simp add: Inr)
next
  case (Inl e)
  with BulkLoad_table [OF assms] show ?thesis by (simp add: loaded_def)
qed

text \<open>A small session, to run the bulk paths on.\<close>

type_synonym session_world = "table \<times> (string \<rightharpoonup> staged) \<times> (string \<times> staged) option"

definition run_session :: "dialect \<Rightarrow> string list \<Rightarrow> schema \<Rightarrow> string \<Rightarrow> session_world \<Rightarrow> error option \<times> session_world" where
  "run_session dia tbl sch q w = (case w of (T, G, P) \<Rightarrow>
     (case read_session_for dia q of
        None \<Rightarrow> (Some (External ''syntax error''), w)
      | Some (Create n cols like) \<Rightarrow>
          (if G n = None then (None, (T, G(n \<mapsto> (cols, [])), P)) else (Some (External ''table exists''), w))
      | Some (Drop n) \<Rightarrow> (None, (T, G(n := None), P))
      | Some st \<Rightarrow>
          (case G (stage_of st) of
             None \<Rightarrow> (Some (External ''no such table''), w)
           | Some s \<Rightarrow>
               if moves sch tbl st (fst s) then
                 (case exec_staged sch st s (own_rows sch T) of
                    None \<Rightarrow> (Some (External ''constraint violation''), w)
                  | Some T' \<Rightarrow> (None, (T', G, P)))
               else (Some (External ''no such table or key''), w))))"

definition run_copy :: "string list \<Rightarrow> schema \<Rightarrow> string list \<Rightarrow> string list \<Rightarrow> go_value list list \<Rightarrow> session_world \<Rightarrow> error option \<times> session_world" where
  "run_copy tbl sch dst cols vss w = (case w of (T, G, P) \<Rightarrow>
     if dst = tbl then
       (case each (insert1 sch) (map (new_cells sch cols) vss) (own_rows sch T) of
          None \<Rightarrow> (Some (External ''constraint violation''), w)
        | Some T' \<Rightarrow> (None, (T', G, P)))
     else (case G (hd dst) of
             None \<Rightarrow> (Some (External ''no such table''), w)
           | Some (cs, old) \<Rightarrow>
               if cs = cols then (None, (T, G(hd dst \<mapsto> (cols, old @ vss)), P)) else (Some (External ''no such column''), w)))"

definition run_send :: "go_value list \<Rightarrow> session_world \<Rightarrow> error option \<times> session_world" where
  "run_send vals w = (case w of (T, G, P) \<Rightarrow>
     (case P of
        None \<Rightarrow> (Some (External ''not prepared''), w)
      | Some (n, cs, vss) \<Rightarrow> (None, (T, G, Some (n, cs, vss @ [vals])))))"

definition run_flush :: "session_world \<Rightarrow> error option \<times> session_world" where
  "run_flush w = (case w of (T, G, P) \<Rightarrow>
     (case P of
        None \<Rightarrow> (Some (External ''not prepared''), w)
      | Some (n, cs, vss) \<Rightarrow>
          (case G n of
             None \<Rightarrow> (Some (External ''no such table''), w)
           | Some (cs', old) \<Rightarrow>
               if cs' = cs then (None, (T, G(n \<mapsto> (cs, old @ vss)), None)) else (Some (External ''no such column''), w))))"

definition session_drivers :: "dialect \<Rightarrow> string list \<Rightarrow> schema \<Rightarrow> session_world bulk_drivers" where
  "session_drivers dia tbl sch =
     \<lparr>drv_open = \<lambda>_ _ w. (None, w), drv_ping = \<lambda>_ _ w. (None, w), drv_close = \<lambda>_ _ w. (None, w),
      drv_query = \<lambda>_ _ _ w. (Inl (External ''no query''), w),
      drv_exec = \<lambda>_ _ q args w. (case sql_exec dia tbl sch q args (fst w) of (oe, T) \<Rightarrow> (oe, (T, snd w))),
      bd_conn = \<lambda>_ _ w. (None, w), bd_conn_close = \<lambda>_ _ w. (None, w),
      bd_exec = \<lambda>_ _. run_session dia tbl sch, bd_is_pgx = True, bd_copy = \<lambda>_. run_copy tbl sch,
      bd_prepare = \<lambda>_ n cols w. (None, (fst w, fst (snd w), Some (n, cols, []))), bd_send = \<lambda>_. run_send,
      bd_flush = \<lambda>_. run_flush, bd_stmt_close = \<lambda>_ w. (None, w), bd_now = \<lambda>w. (GoTime 7 0, w)\<rparr>"

lemma staged_keyed:
  assumes "moves sch tbl st scols" "exec_staged sch st s T = Some T'" "keyed_rows sch T"
  shows "keyed_rows sch T'"
  using assms
  by (cases "(sch, st, s, T)" rule: exec_staged.cases)
    (auto simp: Let_def split: if_splits elim!: each_keyed [rotated] intro: insert1_keyed upsert1_keyed merge1_keyed)

lemma session_drivers_obey:
  assumes "sc_dialect c = dia"
  shows "session_obeys (session_drivers dia tbl sch) c tbl sch (\<lambda>w. own_rows sch (fst w)) (\<lambda>w. fst (snd w)) (\<lambda>w. snd (snd w))"
proof -
  have own: "own_rows sch T' = T'" if "each (insert1 sch) ss (own_rows sch T) = Some T'" for ss T T'
    by (rule own_rows_same) (rule each_keyed [OF _ that own_rows_keyed], rule insert1_keyed)
  have st: "own_rows sch T' = T'" if "moves sch tbl st scols" "exec_staged sch st s (own_rows sch T) = Some T'" for st scols s T T'
    by (rule own_rows_same) (rule staged_keyed [OF that own_rows_keyed])
  have 1: "statements_obey (session_drivers dia tbl sch) c tbl sch (\<lambda>w. own_rows sch (fst w)) (\<lambda>w. fst (snd w))"
    using assms
    by (auto simp: statements_obey_def session_drivers_def run_session_def simp del: exec_staged.simps moves.simps
        split: option.splits session_stmt.splits if_splits prod.splits dest: st)
  have 2: "copies_obey (session_drivers dia tbl sch) c tbl sch (\<lambda>w. own_rows sch (fst w)) (\<lambda>w. fst (snd w))"
    using own by (auto simp: copies_obey_def session_drivers_def run_copy_def split: option.splits if_splits prod.splits)
  have 3: "bulk_obeys (session_drivers dia tbl sch) c tbl (\<lambda>w. own_rows sch (fst w)) (\<lambda>w. fst (snd w)) (\<lambda>w. snd (snd w))"
    by (auto simp: bulk_obeys_def session_drivers_def run_send_def run_flush_def split: option.splits if_splits prod.splits)
  show ?thesis using 1 2 3 by (simp add: session_obeys_def own_rows_keyed) (simp add: session_drivers_def)
qed

lemma session_drivers_obey_batches:
  assumes "sc_dialect c = dia"
  shows "obeys (session_drivers dia tbl sch) c tbl sch (\<lambda>w. own_rows sch (fst w))"
  using assms exec_keyed [OF _ _ own_rows_keyed]
  by (auto simp: obeys_def session_drivers_def sql_exec_def own_rows_keyed own_rows_same split: option.splits prod.splits)

definition users_session :: "session_world bulk_drivers" where
  "users_session = session_drivers mssqlDialect [''users''] id_schema"

text \<open>On SQL Server, a row that exists and a new one.\<close>

theorem bulk_load_updates_table_witness:
  "\<exists>w w2. BulkLoad users_session ms_conn ''users'' [''id''] [''id'', ''name'']
      [users_row 1 ''new'', users_row 2 ''b''] (users_table, Map.empty, None) = (Inr 2, w) \<and>
    map (map_option (\<lambda>r. map r [''id'', ''name'', ''admin''])) (map (own_rows id_schema (fst w)) [[VInt64 1], [VInt64 2], [VInt64 3]]) =
      [Some [VInt64 1, VStr ''new'', VBool True], Some [VInt64 2, VStr ''b'', VNil], None] \<and>
    UpsertRows users_session ms_conn ''users'' [''id''] [''id'', ''name'']
      [users_row 1 ''new'', users_row 2 ''b''] (users_table, Map.empty, None) = (Inr 2, w2) \<and>
    own_rows id_schema (fst w2) = own_rows id_schema (fst w)"
proof -
  let ?rows = "[users_row 1 ''new'', users_row 2 ''b'']" and ?w = "(users_table, Map.empty, None) :: session_world"
  let ?b = "BulkLoad users_session ms_conn ''users'' [''id''] [''id'', ''name''] ?rows ?w"
  let ?u = "UpsertRows users_session ms_conn ''users'' [''id''] [''id'', ''name''] ?rows ?w"
  have "fst ?b = Inr 2" "fst ?u = Inr 2" by code_simp+
  then obtain w w2 where b: "?b = (Inr 2, w)" and u: "?u = (Inr 2, w2)" by (cases ?b; cases ?u) simp
  obtain T G P where w2: "w2 = (T, G, P)" by (cases w2)
  have c: "sc_dialect ms_conn = mssqlDialect" by (simp add: ms_conn_def)
  have o: "session_obeys users_session ms_conn [''users''] id_schema (\<lambda>w. own_rows id_schema (fst w)) (\<lambda>w. fst (snd w)) (\<lambda>w. snd (snd w))"
    "obeys users_session ms_conn [''users''] id_schema (\<lambda>w. own_rows id_schema (fst w))"
    unfolding users_session_def using session_drivers_obey [OF c] session_drivers_obey_batches [OF c] by blast+
  have k: "bulk_keys id_schema [''id''] [''id'', ''name'']" by (simp add: bulk_keys_def users_conn)
  have "own_rows id_schema (fst w) = fold (put_row id_schema [''id'', ''name'']) ?rows users_table"
    "own_rows id_schema (fst w2) = own_rows id_schema (fst w)"
    using bulk_load_updates_table [OF o(1) _ SplitTable_users _ k b] o(2) u c by (simp_all add: w2 users_own pgStageTempTable_def)
  moreover have "map (map_option (\<lambda>r. map r [''id'', ''name'', ''admin'']))
      (map (fold (put_row id_schema [''id'', ''name'']) ?rows users_table) [[VInt64 1], [VInt64 2], [VInt64 3]]) =
      [Some [VInt64 1, VStr ''new'', VBool True], Some [VInt64 2, VStr ''b'', VNil], None]"
    by code_simp
  ultimately show ?thesis using b u by simp
qed




end
