(* ===== verification/Sqlrecover.thy ===== *)
theory Sqlrecover
  imports Recover Sqlbulk
begin

text \<open>
  The successive runs of \<open>Recover\<close> on databases that are given by the meaning of their SQL
  statements only: the texts the engine sends, read and carried out on the target's table,
  make it catch up with the source.
\<close>

section \<open>A target that does what its statements say\<close>

text \<open>The columns of the source, as far as the target's table holds them.\<close>

definition rows_view :: "string list \<Rightarrow> table \<Rightarrow> go_value list \<rightharpoonup> row" where
  "rows_view scols T k = map_option (\<lambda>b. map (\<lambda>c. (c, b c)) scols) (T k)"

text \<open>A row of the source has its columns, and the target's columns store its values as they
  are.\<close>

definition fits :: "schema \<Rightarrow> string list \<Rightarrow> row \<Rightarrow> bool" where
  "fits sch scols r \<longleftrightarrow> map fst r = scols \<and> (\<forall>c \<in> set scols. sch_stored sch c (row_get r c) = row_get r c)"

text \<open>An upsert task whose keys are the primary key of its table, in plain batches or bulk.\<close>

definition upsert_task :: "Task \<Rightarrow> string list \<Rightarrow> schema \<Rightarrow> string list \<Rightarrow> bool" where
  "upsert_task t parts sch scols \<longleftrightarrow>
     tg_Mode (tk_Target t) \<noteq> ''insert'' \<and> (tg_Bulk (tk_Target t) \<longrightarrow> [pgStageTempTable] \<noteq> parts) \<and>
     SplitTablePath (tg_Table (tk_Target t)) = Inr parts \<and>
     set (tg_Keys (tk_Target t)) = set (sch_key sch) \<and> tg_Keys (tk_Target t) \<noteq> [] \<and>
     set (sch_key sch) \<subset> set scols \<and> distinct scols"

definition id_of :: "schema \<Rightarrow> row \<Rightarrow> go_value list" where
  "id_of sch r = map (row_get r) (sch_key sch)"

lemma row_shape:
  assumes "map fst r = scols" "distinct scols"
  shows "map (\<lambda>c. (c, row_get r c)) scols = r"
proof -
  have "(fst p, row_get r (fst p)) = p" if "p \<in> set r" for p
  proof -
    have "map_of r (fst p) = Some (snd p)" by (rule map_of_is_SomeI) (use that assms in simp_all)
    then show ?thesis by (simp add: row_get_def)
  qed
  then show ?thesis by (simp add: map_idI flip: assms(1))
qed

lemma view_put_row:
  assumes "fits sch scols r" "distinct scols" "set (sch_key sch) \<subseteq> set scols" "set cols = set scols"
  shows "rows_view scols (put_row sch cols r T) = upsert_row (id_of sch) r (rows_view scols T)"
proof -
  have "row_id sch r = id_of sch r" using assms(1,3) by (auto simp: row_id_def id_of_def fits_def)
  moreover have "map (\<lambda>c. (c, filled sch cols r b c)) scols = r" for b
  proof -
    have "map (\<lambda>c. (c, filled sch cols r b c)) scols = map (\<lambda>c. (c, row_get r c)) scols"
      using assms(1,4) by (simp add: filled_def fits_def)
    also have "\<dots> = r" by (rule row_shape) (use assms(1,2) in \<open>simp_all add: fits_def\<close>)
    finally show ?thesis .
  qed
  ultimately show ?thesis by (simp add: rows_view_def put_row_def upsert_row_def fun_eq_iff)
qed

lemma view_put_rows:
  assumes "distinct scols" "set (sch_key sch) \<subseteq> set scols" "set cols = set scols"
  shows "list_all (fits sch scols) rows \<Longrightarrow>
    rows_view scols (fold (put_row sch cols) rows T) = fold (upsert_row (id_of sch)) rows (rows_view scols T)"
  by (induction rows arbitrary: T) (simp_all add: view_put_row [OF _ assms])

text \<open>So it is a target as the runs need it.\<close>

lemma obeys_upserting:
  assumes o: "obeys D c parts sch tab" "sc_dialect c \<in> dialects"
    and b: "tg_Bulk (tk_Target t) \<Longrightarrow> session_obeys D c parts sch tab stg pend \<and> session_keeps D c src"
    and t: "upsert_task t parts sch scols"
    and fit: "\<And>w r. r \<in> set (src w) \<Longrightarrow> fits sch scols r"
    and src: "\<And>q args w. src (snd (drv_exec D (conn_driver c) (sc_dsn c) q args w)) = src w"
  shows "upserting (sql_target D c) t (sort scols) src (\<lambda>w. rows_view scols (tab w)) (id_of sch)"
proof -
  let ?T = "tk_Target t"
  have k: "set (tg_Keys ?T) = set (sch_key sch)" "tg_Keys ?T \<noteq> []" "set (tg_Keys ?T) \<subseteq> set (sort scols)"
      "\<not> set (sort scols) \<subseteq> set (tg_Keys ?T)" "SplitTablePath (tg_Table ?T) = Inr parts"
    using t by (auto simp: upsert_task_def)
  have d: "distinct scols" "set (sch_key sch) \<subseteq> set scols" using t by (auto simp: upsert_task_def)
  have bk: "bulk_keys sch (tg_Keys ?T) (sort scols)"
  proof -
    have "sort scols \<noteq> []" using k(4) by (cases "sort scols") simp_all
    with k d(2) show ?thesis unfolding bulk_keys_def by simp
  qed
  have load: "stores src (\<lambda>w. rows_view scols (tab w)) (id_of sch) chunk
      (BulkLoad D c (tg_Table ?T) (tg_Keys ?T) (sort scols) chunk w) w"
    if sub: "set chunk \<subseteq> set (src w)" and bulk: "tg_Bulk ?T" for chunk w
  proof -
    obtain res w' where l: "BulkLoad D c (tg_Table ?T) (tg_Keys ?T) (sort scols) chunk w = (res, w')" by force
    have "src w' = src w" using BulkLoad_keeps [of D c src "tg_Table ?T" "tg_Keys ?T" "sort scols" chunk w] b [OF bulk] l by simp
    moreover have "loaded sch (tg_Keys ?T) (sort scols) chunk (tab w) res (tab w')"
      by (rule BulkLoad_table [OF b [OF bulk, THEN conjunct1] o(2) k(5) _ bk l]) (use t bulk in \<open>simp add: upsert_task_def\<close>)
    moreover have "list_all (fits sch scols) chunk" using sub fit by (auto simp: list_all_iff)
    note view_put_rows [OF d _ this, of "sort scols" "tab w"]
    ultimately show ?thesis unfolding l stores_def loaded_def by (auto intro: exI [of _ "[]"] exI [of _ chunk])
  qed
  have "stores src (\<lambda>w. rows_view scols (tab w)) (id_of sch) chunk (writeChunk (sql_target D c) t (sort scols) chunk w) w"
    if sub: "set chunk \<subseteq> set (src w)" for chunk w
  proof -
    obtain res w' where u: "UpsertRows D c (tg_Table ?T) (tg_Keys ?T) (sort scols) chunk w = (res, w')" by force
    then have c: "writeChunk (sql_target D c) t (sort scols) chunk w = (res, w')"
      using t by (simp add: writeChunk_def sql_target_def upsert_task_def)
    have "src (snd (UpsertRows D c (tg_Table ?T) (tg_Keys ?T) (sort scols) chunk w)) = src w"
      using src [of _ _ w] by (auto simp: UpsertRows_def Let_def split: sum.split option.split prod.split) (metis snd_conv)+
    moreover have "list_all (fits sch scols) chunk" using sub fit by (auto simp: list_all_iff)
    note view_put_rows [OF d _ this, of "sort scols" "tab w"]
    ultimately show ?thesis
      using UpsertRows_table [OF o k(5,1-4) u] unfolding c stores_def u
      by (auto intro: exI [of _ "[]"] exI [of _ chunk])
  qed
  then show ?thesis using load by (simp add: upserting_def sql_target_def)
qed

section \<open>The databases\<close>

text \<open>
  What is assumed of them. Opening, closing and querying may fail and change neither table.
  The source's rows have the columns \<open>scols\<close>; asked with an integer literal in place of the
  token, the query delivers rows of the source beyond it, and all of them, in some order,
  unless an error is reported. The target may refuse any statement; one it accepts does what
  it says. So do the sessions of the bulk paths, for a task that uses them.
\<close>

definition sql_may_fail ::
  "('w, 'x) bulk_drivers_scheme \<Rightarrow> Task \<Rightarrow> string \<Rightarrow> string list \<Rightarrow> string list \<Rightarrow> schema \<Rightarrow>
    ('w \<Rightarrow> row list) \<Rightarrow> ('w \<Rightarrow> table) \<Rightarrow> ('w \<Rightarrow> string \<Rightarrow> staged option) \<Rightarrow> ('w \<Rightarrow> (string \<times> staged) option) \<Rightarrow> bool" where
  "sql_may_fail D t col scols parts sch src tab stg pend \<longleftrightarrow>
     (\<forall>typ dsn w. kept src tab w (snd (OpenSource D typ dsn w)) \<and> kept src tab w (snd (OpenTarget D typ dsn w))) \<and>
     (\<forall>c w. kept src tab w (snd (Close D c w))) \<and>
     (\<forall>s w0 w1 lo w. OpenSource D (ep_Type (tk_Source t)) (ep_DSN (tk_Source t)) w0 = (Inr s, w1) \<longrightarrow> int64_range lo \<longrightarrow>
        (case drv_query D (conn_driver s) (sc_dsn s)
             (replace_all (ep_Query (tk_Source t)) watermarkToken (itoa lo)) w of
           (q, w') \<Rightarrow> kept src tab w w' \<and> set (answer q) \<subseteq> set (beyond col lo (src w)) \<and>
             (complete q \<longrightarrow> set (answer q) = set (beyond col lo (src w))))) \<and>
     (\<forall>c w0 w1. OpenTarget D (ep_Type (tg_Endpoint (tk_Target t))) (ep_DSN (tg_Endpoint (tk_Target t))) w0 = (Inr c, w1) \<longrightarrow>
        obeys D c parts sch tab \<and> (\<forall>q args w. src (snd (drv_exec D (conn_driver c) (sc_dsn c) q args w)) = src w) \<and>
        (tg_Bulk (tk_Target t) \<longrightarrow> session_obeys D c parts sch tab stg pend \<and> session_keeps D c src)) \<and>
     (\<forall>w. list_all (fits sch scols) (src w))"

lemma kept_view: "kept src tab w w' \<Longrightarrow> kept src (\<lambda>w. rows_view scols (tab w)) w w'"
  by (simp add: kept_def)

lemma sql_may_fail_may_fail:
  assumes D: "sql_may_fail D t col scols parts sch src tab stg pend" and t: "upsert_task t parts sch scols"
  shows "may_fail D t col (sort scols) src (\<lambda>w. rows_view scols (tab w)) (id_of sch)"
  unfolding may_fail_def
proof (intro conjI allI impI)
  fix ty dsn w
  show "kept src (\<lambda>w. rows_view scols (tab w)) w (snd (OpenSource D ty dsn w))"
    "kept src (\<lambda>w. rows_view scols (tab w)) w (snd (OpenTarget D ty dsn w))"
    by (rule kept_view, use D [unfolded sql_may_fail_def, THEN conjunct1] in blast)+
next
  fix c w
  show "kept src (\<lambda>w. rows_view scols (tab w)) w (snd (Close D c w))"
    by (rule kept_view) (use D in \<open>simp add: sql_may_fail_def\<close>)
next
  fix s w0 w1 lo w
  assume o: "OpenSource D (ep_Type (tk_Source t)) (ep_DSN (tk_Source t)) w0 = (Inr s, w1)" and lo: "int64_range lo"
  obtain q w' where q: "drv_query D (conn_driver s) (sc_dsn s) (replace_all (ep_Query (tk_Source t)) watermarkToken (itoa lo)) w = (q, w')"
    by force
  have "case drv_query D (conn_driver s) (sc_dsn s) (replace_all (ep_Query (tk_Source t)) watermarkToken (itoa lo)) w of
      (q, w') \<Rightarrow> kept src tab w w' \<and> set (answer q) \<subseteq> set (beyond col lo (src w)) \<and>
        (complete q \<longrightarrow> set (answer q) = set (beyond col lo (src w)))"
    by (rule D [unfolded sql_may_fail_def, THEN conjunct2, THEN conjunct2, THEN conjunct1,
          THEN spec, THEN spec, THEN spec, THEN spec, THEN spec, THEN mp, THEN mp, OF o lo])
  then show "case drv_query D (conn_driver s) (sc_dsn s) (replace_all (ep_Query (tk_Source t)) watermarkToken (itoa lo)) w of
      (q, w') \<Rightarrow> kept src (\<lambda>w. rows_view scols (tab w)) w w' \<and> set (answer q) \<subseteq> set (beyond col lo (src w)) \<and>
        (complete q \<longrightarrow> set (answer q) = set (beyond col lo (src w)))"
    unfolding q prod.case by (intro conjI kept_view) blast+
next
  fix c w0 w1
  assume o: "OpenTarget D (ep_Type (tg_Endpoint (tk_Target t))) (ep_DSN (tg_Endpoint (tk_Target t))) w0 = (Inr c, w1)"
  note c = D [unfolded sql_may_fail_def, THEN conjunct2, THEN conjunct2, THEN conjunct2]
  show "upserting (sql_target D c) t (sort scols) src (\<lambda>w. rows_view scols (tab w)) (id_of sch)"
  proof (rule obeys_upserting [OF _ _ _ t])
    show "obeys D c parts sch tab" "src (snd (drv_exec D (conn_driver c) (sc_dsn c) q args w)) = src w"
      "tg_Bulk (tk_Target t) \<Longrightarrow> session_obeys D c parts sch tab stg pend \<and> session_keeps D c src" for q args w
      using c [THEN conjunct1, THEN spec, THEN spec, THEN spec, THEN mp, OF o] by blast+
    show "sc_dialect c \<in> dialects" using OpenTarget_connected [OF o] by blast
    show "fits sch scols r" if "r \<in> set (src w)" for w r using c that by (auto simp: list_all_iff)
  qed
qed

lemma appends_view: "list_all2 (appends src tab) news chs \<Longrightarrow> list_all2 (appends src (\<lambda>w. rows_view scols (tab w))) news chs"
  by (erule list_all2_mono) (simp add: appends_def)

lemma appends_fit:
  assumes "list_all2 (appends src tab) news chs" "\<And>w. list_all P (src w)"
  shows "list_all P (concat news)"
  using assms(1)
proof (induction rule: list_all2_induct)
  case (Cons new news ch chs)
  have "src (ch w) = src w @ new" for w using Cons.hyps by (simp add: appends_def)
  then have "list_all P new" using assms(2) by (metis list_all_append)
  with Cons show ?case by simp
qed simp

section \<open>Property\<close>

text \<open>
  C5: what the engine sends makes a real table catch up: over databases that may refuse or
  break off anything, and that do what the SQL texts they accept say, any number of
  incremental upsert runs all return, in each of the four dialects, in plain batches or on the
  bulk path; afterwards every source
  row up to the stored watermark is in the target's table, under its primary key and with the
  values of all its columns, the table holds nothing but rows of the source, and one more run
  that succeeds without a failed row leaves all of them there.
\<close>
theorem sql_runs_lose_nothing:
  assumes "sql_may_fail D t col scols parts sch src tab stg pend" "upsert_task t parts sch scols" "keyed_task t col init"
    and "list_all2 (appends src tab) news chs"
    and "st_state (es_runs e) (tk_Name t) = None" "tab w = Map.empty"
    and "increasing col (src w @ concat news)" "inj_on (id_of sch) (set (src w @ concat news))"
  shows "\<exists>e' w'. inc_runs (NewEngine D reg clk F) t chs (e, w) = Some (e', w') \<and>
    src w' = src w @ concat news \<and>
    (\<exists>lo. marked t init (es_runs e') lo \<and>
      covered col init (id_of sch) src (\<lambda>w. rows_view scols (tab w)) lo w') \<and>
    (\<exists>res e'' w''. RunTask (NewEngine D reg clk F) t trigger (e', w') = Some (res, e'', w'') \<and>
      (rr_Status res = Succeeded \<and> rr_FailRows res = 0 \<longrightarrow>
        full_copy col init (id_of sch) src (\<lambda>w. rows_view scols (tab w)) w''))"
proof (rule runs_recover [OF sql_may_fail_may_fail [OF assms(1,2)] assms(3) appends_view [OF assms(4)] assms(5) _ assms(7,8)])
  show "rows_view scols (tab w) = Map.empty" by (simp add: assms(6) rows_view_def fun_eq_iff)
  have f: "list_all (fits sch scols) (src w)" for w using assms(1) by (simp add: sql_may_fail_def)
  have "list_all (fits sch scols) (src w @ concat news)" using f appends_fit [OF assms(4) f] by simp
  then show "\<forall>r \<in> set (src w @ concat news). sortedCols r = sort scols"
    by (auto simp: list_all_iff fits_def sortedCols_def)
qed

text \<open>The source fails and the target refuses as \<open>Recover\<close>'s do; the target reads SQL.\<close>

type_synonym sql_world = "i64 list \<times> table \<times> nat"

definition world_src :: "sql_world \<Rightarrow> row list" where
  "world_src w = mirror_src (fst w, [])"

definition world_tab :: "sql_world \<Rightarrow> table" where
  "world_tab w = own_rows id_schema (fst (snd w))"

definition world_query :: "string \<Rightarrow> sql_world \<Rightarrow> (error + rowset) \<times> sql_world" where
  "world_query q w = (case w of (ids, T, n) \<Rightarrow>
     if 1 < n then (Inl (External ''down''), (ids, T, n - 1))
     else (Inr \<lparr>rs_cols = Inr [''id'', ''v''], rs_fetches = map FRow (mirror_rows q (ids, [])), rs_err = None\<rparr>, w))"

definition world_exec :: "string \<Rightarrow> go_value list \<Rightarrow> sql_world \<Rightarrow> error option \<times> sql_world" where
  "world_exec q args w = (case w of (ids, T, n) \<Rightarrow>
     if 0 < n then (Some (External ''down''), (ids, T, n - 1))
     else (case sql_exec sqliteDialect [''users''] id_schema q args T of (oe, T) \<Rightarrow> (oe, (ids, T, n))))"

definition sql_world_drivers :: "sql_world bulk_drivers" where
  "sql_world_drivers =
     \<lparr>drv_open = \<lambda>_ _ w. (None, w), drv_ping = \<lambda>_ _ w. (None, w), drv_close = \<lambda>_ _ w. (None, w),
      drv_query = \<lambda>_ _. world_query, drv_exec = \<lambda>_ _. world_exec,
      bd_conn = \<lambda>_ _ w. (None, w), bd_conn_close = \<lambda>_ _ w. (None, w), bd_exec = \<lambda>_ _ q w. (None, w),
      bd_is_pgx = False, bd_copy = \<lambda>_ dst cols rows w. (None, w), bd_prepare = \<lambda>_ stage cols w. (None, w),
      bd_send = \<lambda>_ vals w. (None, w), bd_flush = \<lambda>_ w. (None, w), bd_stmt_close = \<lambda>_ w. (None, w),
      bd_now = \<lambda>w. (GoTime 0 0, w)\<rparr>"

lemma world_obeys:
  assumes "sc_dialect c = sqliteDialect"
  shows "obeys sql_world_drivers c [''users''] id_schema world_tab"
proof -
  have "exec_stmt id_schema st args (own_rows id_schema T) = Some T' \<Longrightarrow> by_key id_schema [''users''] st \<Longrightarrow>
      own_rows id_schema T' = T'" for st args T T'
    by (rule own_rows_same) (rule exec_keyed [OF _ _ own_rows_keyed])
  then show ?thesis using assms
    by (auto simp: obeys_def sql_world_drivers_def world_exec_def sql_exec_def world_tab_def own_rows_keyed
        split: option.splits prod.splits if_splits)
qed

lemma world_query_demo:
  assumes "int64_range lo" "world_query (''id > '' @ itoa lo) w = (q, w')"
  shows "kept world_src world_tab w w' \<and> set (answer q) \<subseteq> set (beyond ''id'' lo (world_src w)) \<and>
    (complete q \<longrightarrow> set (answer q) = set (beyond ''id'' lo (world_src w)))"
proof -
  obtain ids T n where w: "w = (ids, T, n)" by (cases w)
  obtain r f where f: "flaky_query (''id > '' @ itoa lo) (ids, [], n) = (r, f)"
    by (cases "flaky_query (''id > '' @ itoa lo) (ids, [], n)")
  then have "q = r" "fst w' = fst f" "fst (snd w') = T"
    using assms(2) by (auto simp: world_query_def flaky_query_def w split: if_splits)
  with flaky_query_demo [OF assms(1) f] show ?thesis
    by (simp add: kept_def world_src_def world_tab_def flaky_src_def w)
qed

lemma world_may_fail: "sql_may_fail sql_world_drivers demo_inc ''id'' [''id'', ''v''] [''users''] id_schema world_src world_tab stg pend"
proof -
  have o: "kept world_src world_tab w (snd (OpenSource sql_world_drivers ty dsn w))"
    "kept world_src world_tab w (snd (OpenTarget sql_world_drivers ty dsn w))" for ty dsn w
    by (auto simp: OpenSource_def OpenTarget_def open_conn_def Connect_def sql_world_drivers_def Let_def kept_def
        split: prod.split option.split sum.split)
  have c: "kept world_src world_tab w (snd (Close sql_world_drivers c w))" for c w
    by (simp add: Close_def sql_world_drivers_def kept_def)
  have q: "drv_query sql_world_drivers a b (replace_all (ep_Query (tk_Source demo_inc)) watermarkToken (itoa lo)) w =
      world_query (''id > '' @ itoa lo) w" for a b lo w
    by (simp add: sql_world_drivers_def demo_query)
  have ty: "ep_Type (tg_Endpoint (tk_Target demo_inc)) = ''sqlite''" by (simp add: demo_inc_def demo_task_def)
  have t: "obeys sql_world_drivers c [''users''] id_schema world_tab"
    if "OpenTarget sql_world_drivers ''sqlite'' dsn w0 = (Inr c, w1)" for c w0 w1 dsn
    by (rule world_obeys) (use OpenTarget_connected [OF that] in \<open>auto simp: pgDialect_def mysqlDialect_def mssqlDialect_def\<close>)
  have s: "world_src (snd (drv_exec sql_world_drivers a b qq args w)) = world_src w" for a b qq args w
    by (auto simp: sql_world_drivers_def world_exec_def world_src_def split: prod.splits)
  have f: "list_all (fits id_schema [''id'', ''v'']) (world_src w)" for w
    by (auto simp: list_all_iff fits_def world_src_def mirror_src_def mirror_row_def id_schema_def)
  have nb: "\<not> tg_Bulk (tk_Target demo_inc)" by (rule demo_inc_hyps(8))
  show ?thesis unfolding sql_may_fail_def q ty using o c world_query_demo t s f nb by (simp split: prod.split)
qed

theorem sql_runs_lose_nothing_witness:
  "\<exists>e' w' lo. inc_runs (NewEngine sql_world_drivers registry_locker demo_clock bits_text) demo_inc
      [id, \<lambda>w. (fst w @ [5], snd w), id] (demo_state, ([1, 2], Map.empty, 2)) = Some (e', w') \<and>
    world_src w' = map (\<lambda>i. mirror_row (VInt64 i, VStr ''x'')) [1, 2, 5] \<and>
    marked demo_inc 0 (es_runs e') lo \<and>
    covered ''id'' 0 (id_of id_schema) world_src (\<lambda>w. rows_view [''id'', ''v''] (world_tab w)) lo w'"
proof -
  let ?w = "([1, 2], Map.empty, 2) :: sql_world" and ?r = "\<lambda>i. mirror_row (VInt64 i, VStr ''x'')"
  have i: "itoa 0 = ''0''" by code_simp
  have t: "keyed_task demo_inc ''id'' 0"
    using demo_inc_hyps(4) by (simp add: keyed_task_def demo_inc_sizes i) (simp add: demo_inc_def watermarkToken_def int64_range_def)
  have u: "upsert_task demo_inc [''users''] id_schema [''id'', ''v'']"
    by (auto simp: upsert_task_def demo_inc_def demo_task_def id_schema_def SplitTable_users)
  have ap: "list_all2 (appends world_src world_tab) [[], [?r 5], []] [id, \<lambda>w. (fst w @ [5], snd w), id]"
    by (simp add: appends_def world_src_def world_tab_def mirror_src_def)
  have st: "st_state (es_runs demo_state) (tk_Name demo_inc) = None" by (simp add: demo_inc_hyps(3))
  have tb: "world_tab ?w = Map.empty" by (simp add: world_tab_def own_rows_def fun_eq_iff)
  have src: "world_src ?w @ concat [[], [?r 5], []] = [?r 1, ?r 2, ?r 5]" by (simp add: world_src_def mirror_src_def)
  have inc: "increasing ''id'' (world_src ?w @ concat [[], [?r 5], []])"
    unfolding src by (simp add: increasing_def keyed_def row_key_def mirror_row_def row_get_def)
  have inj: "inj_on (id_of id_schema) (set (world_src ?w @ concat [[], [?r 5], []]))"
    unfolding src by (simp add: id_of_def id_schema_def mirror_row_def row_get_def)
  obtain e' w' lo where "inc_runs (NewEngine sql_world_drivers registry_locker demo_clock bits_text) demo_inc
      [id, \<lambda>w. (fst w @ [5], snd w), id] (demo_state, ?w) = Some (e', w')" "world_src w' = [?r 1, ?r 2, ?r 5]"
    "marked demo_inc 0 (es_runs e') lo"
    "covered ''id'' 0 (id_of id_schema) world_src (\<lambda>w. rows_view [''id'', ''v''] (world_tab w)) lo w'"
    using sql_runs_lose_nothing [where reg = registry_locker and clk = demo_clock and F = bits_text
        and trigger = "''cron''", OF world_may_fail u t ap st tb inc inj] unfolding src by blast
  then show ?thesis unfolding list.map by blast
qed

end
