(* ===== verification/Daemon.thy ===== *)
theory Daemon
  imports Metrics
begin

text \<open>
  \<open>internal/daemon/daemon.go\<close>: start-up, the selection of scheduled tasks and the loop; then
  what the loop's goroutines do to each other: the scheduler starts a run whenever a task's
  schedule fires, also while earlier runs are still in progress, so the operations of several
  \<open>RunTask\<close> calls on the locker and the run log interleave. That interleaving is a step
  relation, with the operations themselves those of the other theories.
\<close>

section \<open>Start-up\<close>

record Options =
  op_Config :: "Task list"
  op_DBPath :: string
  op_KeepRuns :: int
  op_UI :: bool

definition is_scheduled :: "Task \<Rightarrow> bool" where
  "is_scheduled t \<longleftrightarrow> \<not> (tk_Schedule t = [] \<or> \<not> tk_IsEnabled t)"

text \<open>The registration loop; \<open>add\<close> is the error of the cron library's \<open>AddFunc\<close> for a schedule.\<close>

fun register_tasks :: "(string \<Rightarrow> error option) \<Rightarrow> Task list \<Rightarrow> error + Task list" where
  "register_tasks add [] = Inr []"
| "register_tasks add (t # ts) =
     (if tk_Schedule t = [] \<or> \<not> tk_IsEnabled t then register_tasks add ts
      else case add (tk_Schedule t) of
        Some e \<Rightarrow> Inl (Wrapf ''register schedule for %q: %w'' [AStr (tk_Name t)] e)
      | None \<Rightarrow> (case register_tasks add ts of Inl e \<Rightarrow> Inl e | Inr reg \<Rightarrow> Inr (t # reg)))"

text \<open>\<open>ui.New\<close>, called when the dashboard is asked for, fails when its template does not parse.\<close>

definition init_ui :: "bool \<Rightarrow> error option \<Rightarrow> error option" where
  "init_ui enabled tmpl_err =
     (if enabled then map_option (\<lambda>e. Wrapf ''init ui: %w'' [] e) tmpl_err else None)"

text \<open>\<open>Run\<close> up to the wait: the outcomes of the directory creation, of opening the database and
  of parsing the UI's template are arguments. \<open>Inr\<close> gives the registered tasks.\<close>

definition daemon_start ::
  "(string \<Rightarrow> error option) \<Rightarrow> Options \<Rightarrow> error option \<Rightarrow> error option \<Rightarrow> error option \<Rightarrow> gotime \<Rightarrow> Store \<Rightarrow>
    (error + Task list) \<times> Store" where
  "daemon_start add opts mkdir_err open_err tmpl_err now S =
     (case Open (op_DBPath opts) mkdir_err open_err now S of
        (Some e, S) \<Rightarrow> (Inl (Wrapf ''open run log: %w'' [] e), S)
      | (None, S) \<Rightarrow>
          let S = snd (Prune (op_KeepRuns opts) S)
          in case register_tasks add (op_Config opts) of
               Inl e \<Rightarrow> (Inl e, S)
             | Inr reg \<Rightarrow>
                 (case init_ui (op_UI opts) tmpl_err of
                    Some e \<Rightarrow> (Inl e, S)
                  | None \<Rightarrow> (Inr reg, S)))"

section \<open>The wait\<close>

text \<open>What happens to the waiting daemon: a schedule fires (by position among the registered
  tasks), the HTTP server ends with an error, or the context is cancelled.\<close>

datatype daemon_event = Fire nat | ServeError error | Cancelled

datatype daemon_exit = Waiting | Exited "error option"

text \<open>With runs that do not overlap; overlapping ones are below.\<close>

fun daemon_loop ::
  "('t, 'l, 'w) Engine \<Rightarrow> Task list \<Rightarrow> daemon_event list \<Rightarrow> 'l EngineState \<times> 'w \<Rightarrow> (daemon_exit \<times> 'l EngineState \<times> 'w) option" where
  "daemon_loop E reg [] s = Some (Waiting, s)"
| "daemon_loop E reg (Fire i # es) s =
     (if i < length reg then
        (case RunTask E (reg ! i) ''cron'' s of None \<Rightarrow> None | Some (r, s) \<Rightarrow> daemon_loop E reg es s)
      else daemon_loop E reg es s)"
| "daemon_loop E reg (ServeError e # es) s = Some (Exited (Some e), s)"
| "daemon_loop E reg (Cancelled # es) s = Some (Exited None, s)"

text \<open>The runs the events start, up to the exit.\<close>

fun fired :: "Task list \<Rightarrow> daemon_event list \<Rightarrow> (Task \<times> string) list" where
  "fired reg (Fire i # es) = (if i < length reg then (reg ! i, ''cron'') # fired reg es else fired reg es)"
| "fired reg _ = []"

fun exit_of :: "daemon_event list \<Rightarrow> daemon_exit" where
  "exit_of [] = Waiting"
| "exit_of (Fire i # es) = exit_of es"
| "exit_of (ServeError e # es) = Exited (Some e)"
| "exit_of (Cancelled # es) = Exited None"

lemma register_tasks_ok:
  "\<forall>t \<in> set ts. is_scheduled t \<longrightarrow> add (tk_Schedule t) = None \<Longrightarrow> register_tasks add ts = Inr (filter is_scheduled ts)"
  by (induction ts) (auto simp: is_scheduled_def)

lemma register_tasks_Inr: "register_tasks add ts = Inr reg \<Longrightarrow> reg = filter is_scheduled ts"
  by (induction ts arbitrary: reg) (auto simp: is_scheduled_def split: if_splits option.splits sum.splits)

lemma daemon_loop_runs:
  "daemon_loop E reg es s = (case run_all E (fired reg es) s of None \<Rightarrow> None | Some (rs, s) \<Rightarrow> Some (exit_of es, s))"
  by (induction E reg es s rule: daemon_loop.induct) (auto split: option.splits)

lemma fired_registered: "(t, tr) \<in> set (fired reg es) \<Longrightarrow> t \<in> set reg \<and> tr = ''cron''"
  by (induction reg es rule: fired.induct) (auto split: if_splits)

section \<open>Runs in progress\<close>

text \<open>
  How far a goroutine in \<open>RunTask\<close> has come: with the lock refused, and then with its skipped
  row started; with the lock taken, then with its row started (or the start failed, and
  \<open>runID\<close> is 0), then finalized and about to release.
\<close>

datatype progress =
    Refused string
  | Skipping string int
  | Locked Token
  | Started Token int
  | NoRow Token
  | Finished Token

record System =
  sy_reg :: Registry
  sy_log :: Store
  sy_runs :: "progress list"

inductive sys_step :: "float_text \<Rightarrow> System \<Rightarrow> System \<Rightarrow> bool" for F where
  refuse: "Acquire n (sy_reg S) = (None, r) \<Longrightarrow>
     sys_step F S (S\<lparr>sy_reg := r, sy_runs := sy_runs S @ [Refused n]\<rparr>)"
| skip_start: "sy_runs S = xs @ Refused n # ys \<Longrightarrow> StartRun now n trigger (sy_log S) = (Inr i, L) \<Longrightarrow>
     sys_step F S (S\<lparr>sy_log := L, sy_runs := xs @ Skipping n i # ys\<rparr>)"
| skip_lost: "sy_runs S = xs @ Refused n # ys \<Longrightarrow> StartRun now n trigger (sy_log S) = (Inl e, L) \<Longrightarrow>
     sys_step F S (S\<lparr>sy_log := L, sy_runs := xs @ ys\<rparr>)"
| skip_finish: "sy_runs S = xs @ Skipping n i # ys \<Longrightarrow> rr_Status res = Skipped \<Longrightarrow>
     FinishRun F now i res (sy_log S) = (oe, L) \<Longrightarrow>
     sys_step F S (S\<lparr>sy_log := L, sy_runs := xs @ ys\<rparr>)"
| lock: "Acquire n (sy_reg S) = (Some tok, r) \<Longrightarrow>
     sys_step F S (S\<lparr>sy_reg := r, sy_runs := sy_runs S @ [Locked tok]\<rparr>)"
| start: "sy_runs S = xs @ Locked tok # ys \<Longrightarrow> StartRun now (tok_Name tok) trigger (sy_log S) = (Inr i, L) \<Longrightarrow>
     sys_step F S (S\<lparr>sy_log := L, sy_runs := xs @ Started tok i # ys\<rparr>)"
| start_lost: "sy_runs S = xs @ Locked tok # ys \<Longrightarrow> StartRun now (tok_Name tok) trigger (sy_log S) = (Inl e, L) \<Longrightarrow>
     sys_step F S (S\<lparr>sy_log := L, sy_runs := xs @ NoRow tok # ys\<rparr>)"
| event: "sy_runs S = xs @ Started tok i # ys \<Longrightarrow> Event now i k p (sy_log S) = (oe, L) \<Longrightarrow>
     sys_step F S (S\<lparr>sy_log := L\<rparr>)"
| look: "Started tok i \<in> set (sy_runs S) \<or> NoRow tok \<in> set (sy_runs S) \<Longrightarrow>
     GetWatermark F (tok_Name tok) (sy_log S) = (v, L) \<Longrightarrow>
     sys_step F S (S\<lparr>sy_log := L\<rparr>)"
| advance: "Started tok i \<in> set (sy_runs S) \<or> NoRow tok \<in> set (sy_runs S) \<Longrightarrow>
     SetWatermark F (tok_Name tok) v (sy_log S) = (oe, L) \<Longrightarrow>
     sys_step F S (S\<lparr>sy_log := L\<rparr>)"
| finish: "sy_runs S = xs @ Started tok i # ys \<Longrightarrow> rr_Status res \<in> {Succeeded, Failed} \<Longrightarrow>
     FinishRun F now i res (sy_log S) = (oe, L) \<Longrightarrow>
     sys_step F S (S\<lparr>sy_log := L, sy_runs := xs @ Finished tok # ys\<rparr>)"
| finish_lost: "sy_runs S = xs @ NoRow tok # ys \<Longrightarrow>
     sys_step F S (S\<lparr>sy_runs := xs @ Finished tok # ys\<rparr>)"
| release: "sy_runs S = xs @ Finished tok # ys \<Longrightarrow>
     sys_step F S (S\<lparr>sy_reg := Release (Some tok) (sy_reg S), sy_runs := xs @ ys\<rparr>)"

definition sys_init :: "Store \<Rightarrow> System" where
  "sys_init L = \<lparr>sy_reg = NewRegistry, sy_log = L, sy_runs = []\<rparr>"

definition reachable :: "float_text \<Rightarrow> Store \<Rightarrow> System \<Rightarrow> bool" where
  "reachable F L S \<longleftrightarrow> (sys_step F)\<^sup>*\<^sup>* (sys_init L) S"

text \<open>The tokens held and the row ids open among the runs in progress.\<close>

fun token_of :: "progress \<Rightarrow> Token list" where
  "token_of (Locked tok) = [tok]"
| "token_of (Started tok i) = [tok]"
| "token_of (NoRow tok) = [tok]"
| "token_of (Finished tok) = [tok]"
| "token_of _ = []"

fun row_of :: "progress \<Rightarrow> int list" where
  "row_of (Skipping n i) = [i]"
| "row_of (Started tok i) = [i]"
| "row_of _ = []"

definition tokens :: "System \<Rightarrow> Token list" where
  "tokens S = concat (map token_of (sy_runs S))"

definition open_rows :: "System \<Rightarrow> int list" where
  "open_rows S = concat (map row_of (sy_runs S))"

section \<open>Invariants\<close>

text \<open>The registry's leases in force are exactly the tokens of the runs in progress.\<close>

definition lock_inv :: "System \<Rightarrow> bool" where
  "lock_inv S \<longleftrightarrow> reg.run_inv (sy_reg S, tokens S)"

lemma run_inv_same_set: "reg.run_inv (s, xs) \<Longrightarrow> distinct ys \<Longrightarrow> set ys = set xs \<Longrightarrow> reg.run_inv (s, ys)"
  by (simp add: reg.run_inv_def)

lemma tokens_simps:
  "tokens (S\<lparr>sy_reg := r, sy_runs := sy_runs S @ [p]\<rparr>) = tokens S @ token_of p"
  "sy_runs S = xs @ p # ys \<Longrightarrow> tokens S = concat (map token_of xs) @ token_of p @ concat (map token_of ys)"
  "tokens (S\<lparr>sy_log := L, sy_runs := xs @ q # ys\<rparr>) = concat (map token_of xs) @ token_of q @ concat (map token_of ys)"
  "tokens (S\<lparr>sy_runs := xs @ q # ys\<rparr>) = concat (map token_of xs) @ token_of q @ concat (map token_of ys)"
  "tokens (S\<lparr>sy_log := L, sy_runs := xs @ ys\<rparr>) = concat (map token_of xs) @ concat (map token_of ys)"
  "tokens (S\<lparr>sy_reg := r, sy_runs := xs @ ys\<rparr>) = concat (map token_of xs) @ concat (map token_of ys)"
  "tokens (S\<lparr>sy_log := L\<rparr>) = tokens S"
  by (simp_all add: tokens_def)

lemma lock_inv_step:
  assumes "sys_step F S S'" "lock_inv S"
  shows "lock_inv S'"
  using assms
proof (induction rule: sys_step.induct)
  case (refuse n S r)
  then have "r = sy_reg S" by (simp add: lock_simps)
  with refuse show ?case by (simp add: lock_inv_def tokens_def)
next
  case (lock n S tok r)
  have "reg.run_inv (r, tok # tokens S)"
    using reg.step_inv [of "Start () n" "(sy_reg S, tokens S)"] lock by (simp add: lock_inv_def)
  then have "reg.run_inv (r, tokens S @ [tok])" by (rule run_inv_same_set) (use \<open>reg.run_inv (r, tok # tokens S)\<close> in \<open>auto simp: reg.run_inv_def\<close>)
  then show ?case by (simp add: lock_inv_def tokens_def)
next
  case (release S xs tok ys)
  let ?a = "concat (map token_of xs)" and ?b = "concat (map token_of ys)"
  have t: "tokens S = ?a @ tok # ?b" using tokens_simps(2) [OF release(1)] by simp
  have d: "distinct (?a @ tok # ?b)" using release(2) by (simp add: lock_inv_def reg.run_inv_def t)
  have "reg.run_inv (Release (Some tok) (sy_reg S), remove1 tok (?a @ tok # ?b))"
    using reg.step_inv [of "Finish () tok" "(sy_reg S, tokens S)"] release(2) by (simp add: lock_inv_def t)
  then have "reg.run_inv (Release (Some tok) (sy_reg S), ?a @ ?b)"
    by (rule run_inv_same_set) (use d in auto)
  then show ?case by (simp add: lock_inv_def tokens_simps)
qed (simp_all add: lock_inv_def tokens_simps)

text \<open>The rows still running are exactly those open in the runs in progress.\<close>

definition running_ids :: "Store \<Rightarrow> int list" where
  "running_ids L = map rw_id (filter (\<lambda>r. rw_status r = Running) (st_runs L))"

definition log_inv :: "System \<Rightarrow> bool" where
  "log_inv S \<longleftrightarrow> healthy_log (sy_log S) \<and> distinct (open_rows S) \<and> set (open_rows S) = set (running_ids (sy_log S))"

lemma running_start:
  assumes "StartRun now n tr L = (x, L')" "healthy_log L"
  shows "x = Inr (st_run_seq L + 1)" "running_ids L' = running_ids L @ [st_run_seq L + 1]"
    "st_run_seq L + 1 \<notin> set (running_ids L)" "healthy_log L'"
  using assms StartRun_healthy [OF assms]
  by (auto simp: StartRun_def sql_def Let_def healthy_log_def running_ids_def started_row_def store_ok_def)

lemma running_map_finish: "rr_Status res \<noteq> Running \<Longrightarrow>
    map rw_id (filter (\<lambda>r. rw_status r = Running) (map (\<lambda>row. if rw_id row = i then finish_row F now res row else row) rows)) =
    filter (\<lambda>j. j \<noteq> i) (map rw_id (filter (\<lambda>r. rw_status r = Running) rows))"
  by (induction rows) (simp_all add: finish_row_def)

lemma running_finish:
  assumes "FinishRun F now i res L = (oe, L')" "healthy_log L" "rr_Status res \<noteq> Running"
  shows "set (running_ids L') = set (running_ids L) - {i}" "healthy_log L'"
proof -
  have "st_runs L' = map (\<lambda>row. if rw_id row = i then finish_row F now res row else row) (st_runs L)"
    using FinishRun_store(2) [OF assms(1)] assms(2) by (simp add: healthy_log_def)
  then have "running_ids L' = filter (\<lambda>j. j \<noteq> i) (running_ids L)"
    unfolding running_ids_def by (simp only: running_map_finish [OF assms(3)])
  then show "set (running_ids L') = set (running_ids L) - {i}" by auto
  show "healthy_log L'" by (rule FinishRun_healthy [OF assms(1,2)])
qed

text \<open>Closing and opening a row among the open ones.\<close>

lemma close_one: "distinct (xs @ i # ys) \<Longrightarrow> set (xs @ i # ys) = R \<Longrightarrow> distinct (xs @ ys) \<and> set (xs @ ys) = R - {i}"
  by auto

lemma open_one: "distinct (xs @ ys) \<Longrightarrow> set (xs @ ys) = R \<Longrightarrow> i \<notin> R \<Longrightarrow> distinct (xs @ i # ys) \<and> set (xs @ i # ys) = R \<union> {i}"
  by auto

lemma running_event:
  assumes "Event now i k p L = (oe, L')" "healthy_log L"
  shows "running_ids L' = running_ids L" "healthy_log L'"
  using Event_store [OF assms(1)] assms(2) by (auto simp: healthy_log_def running_ids_def)

lemma running_look:
  assumes "GetWatermark F n L = (v, L')" "healthy_log L"
  shows "L' = L"
  using assms by (auto simp: GetWatermark_def sql_none healthy_log_def split: option.splits)

lemma running_set:
  assumes "SetWatermark F n v L = (oe, L')" "healthy_log L"
  shows "running_ids L' = running_ids L" "healthy_log L'"
  using SetWatermark_store [OF assms(1)] assms(2) by (auto simp: healthy_log_def running_ids_def store_ok_def)

lemma open_rows_simps:
  "open_rows (S\<lparr>sy_reg := r, sy_runs := sy_runs S @ [p]\<rparr>) = open_rows S @ row_of p"
  "sy_runs S = xs @ p # ys \<Longrightarrow> open_rows S = concat (map row_of xs) @ row_of p @ concat (map row_of ys)"
  "open_rows (S\<lparr>sy_log := L, sy_runs := xs @ q # ys\<rparr>) = concat (map row_of xs) @ row_of q @ concat (map row_of ys)"
  "open_rows (S\<lparr>sy_runs := xs @ q # ys\<rparr>) = concat (map row_of xs) @ row_of q @ concat (map row_of ys)"
  "open_rows (S\<lparr>sy_log := L, sy_runs := xs @ ys\<rparr>) = concat (map row_of xs) @ concat (map row_of ys)"
  "open_rows (S\<lparr>sy_reg := r, sy_runs := xs @ ys\<rparr>) = concat (map row_of xs) @ concat (map row_of ys)"
  "open_rows (S\<lparr>sy_log := L\<rparr>) = open_rows S"
  by (simp_all add: open_rows_def)

lemma log_inv_step:
  assumes "sys_step F S S'" "log_inv S"
  shows "log_inv S'"
  using assms
proof (induction rule: sys_step.induct)
  case (skip_start S xs n ys now trigger i L)
  from running_start [OF skip_start(2)] skip_start(3) open_one [of "concat (map row_of xs)" "concat (map row_of ys)"]
  show ?case by (simp add: log_inv_def open_rows_simps open_rows_simps(2) [OF skip_start(1)])
next
  case (skip_lost S xs n ys now trigger e L)
  from running_start(1) [OF skip_lost(2)] skip_lost(3) show ?case by (simp add: log_inv_def)
next
  case (skip_finish S xs n i ys res now oe L)
  from running_finish [OF skip_finish(3)] skip_finish(2,4) close_one [of "concat (map row_of xs)" i "concat (map row_of ys)"]
  show ?case by (simp add: log_inv_def open_rows_simps open_rows_simps(2) [OF skip_finish(1)])
next
  case (start S xs tok ys now trigger i L)
  from running_start [OF start(2)] start(3) open_one [of "concat (map row_of xs)" "concat (map row_of ys)"]
  show ?case by (simp add: log_inv_def open_rows_simps open_rows_simps(2) [OF start(1)])
next
  case (start_lost S xs tok ys now trigger e L)
  from running_start(1) [OF start_lost(2)] start_lost(3) show ?case by (simp add: log_inv_def)
next
  case (event S xs tok i ys now k p oe L)
  from running_event [OF event(2)] event(3) show ?case by (auto simp: log_inv_def open_rows_simps)
next
  case (look tok i S v L)
  have "healthy_log (sy_log S)" using look(3) by (simp add: log_inv_def)
  from running_look [OF look(2) this] look(3) show ?case by (simp add: log_inv_def open_rows_simps)
next
  case (advance tok i S v oe L)
  from running_set [OF advance(2)] advance(3) show ?case by (auto simp: log_inv_def open_rows_simps)
next
  case (finish S xs tok i ys res now oe L)
  have "rr_Status res \<noteq> Running" using finish(2) by auto
  with running_finish [OF finish(3)] finish(4) close_one [of "concat (map row_of xs)" i "concat (map row_of ys)"]
  show ?case by (simp add: log_inv_def open_rows_simps open_rows_simps(2) [OF finish(1)])
next
  case (refuse n S r)
  then show ?case by (simp add: log_inv_def open_rows_def)
next
  case (lock n S tok r)
  then show ?case by (simp add: log_inv_def open_rows_def)
next
  case (finish_lost S xs tok ys)
  then show ?case by (simp add: log_inv_def open_rows_simps open_rows_simps(2) [OF finish_lost(1)])
next
  case (release S xs tok ys)
  then show ?case by (simp add: log_inv_def open_rows_simps open_rows_simps(2) [OF release(1)])
qed

lemma reachable_lock_inv: "reachable F L S \<Longrightarrow> lock_inv S"
  unfolding reachable_def
proof (induction rule: rtranclp_induct)
  case base
  show ?case using registry_start by (simp add: sys_init_def lock_inv_def tokens_def)
qed (rule lock_inv_step)

lemma reachable_log_inv:
  assumes "reachable F L S" "healthy_log L" "running_ids L = []"
  shows "log_inv S"
  using assms(1) unfolding reachable_def
proof (induction rule: rtranclp_induct)
  case base
  show ?case using assms(2,3) by (simp add: sys_init_def log_inv_def open_rows_def)
qed (rule log_inv_step)

section \<open>Draining\<close>

text \<open>How many steps each run still has to make.\<close>

fun todo :: "progress \<Rightarrow> nat" where
  "todo (Refused n) = 2"
| "todo (Skipping n i) = 1"
| "todo (Locked tok) = 3"
| "todo (Started tok i) = 2"
| "todo (NoRow tok) = 2"
| "todo (Finished tok) = 1"

lemma run_can_step:
  assumes "sy_runs S = p # ps"
  shows "\<exists>S'. sys_step F S S' \<and> sum_list (map todo (sy_runs S')) < sum_list (map todo (sy_runs S))"
proof -
  define now :: gotime where "now = GoTime 0 0"
  define skipped where "skipped = (empty_result [] [])\<lparr>rr_Status := Skipped\<rparr>"
  define failed where "failed = (empty_result [] [])\<lparr>rr_Status := Failed\<rparr>"
  have st: "rr_Status skipped = Skipped" "rr_Status failed \<in> {Succeeded, Failed}"
    by (simp_all add: skipped_def failed_def)
  show ?thesis
  proof (cases p)
    case (Refused n)
    then have r: "sy_runs S = [] @ Refused n # ps" using assms by simp
    obtain x L where s: "StartRun now n [] (sy_log S) = (x, L)" by (cases "StartRun now n [] (sy_log S)")
    show ?thesis
    proof (cases x)
      case (Inl e)
      from sys_step.skip_lost [OF r s [unfolded Inl], of F] assms Refused show ?thesis by (auto intro!: exI)
    next
      case (Inr i)
      from sys_step.skip_start [OF r s [unfolded Inr], of F] assms Refused show ?thesis by (auto intro!: exI)
    qed
  next
    case (Skipping n i)
    then have r: "sy_runs S = [] @ Skipping n i # ps" using assms by simp
    obtain oe L where "FinishRun F now i skipped (sy_log S) = (oe, L)" by (cases "FinishRun F now i skipped (sy_log S)")
    from sys_step.skip_finish [OF r st(1) this] assms Skipping show ?thesis by (auto intro!: exI)
  next
    case (Locked tok)
    then have r: "sy_runs S = [] @ Locked tok # ps" using assms by simp
    obtain x L where s: "StartRun now (tok_Name tok) [] (sy_log S) = (x, L)" by (cases "StartRun now (tok_Name tok) [] (sy_log S)")
    show ?thesis
    proof (cases x)
      case (Inl e)
      from sys_step.start_lost [OF r s [unfolded Inl], of F] assms Locked show ?thesis by (auto intro!: exI)
    next
      case (Inr i)
      from sys_step.start [OF r s [unfolded Inr], of F] assms Locked show ?thesis by (auto intro!: exI)
    qed
  next
    case (Started tok i)
    then have r: "sy_runs S = [] @ Started tok i # ps" using assms by simp
    obtain oe L where "FinishRun F now i failed (sy_log S) = (oe, L)" by (cases "FinishRun F now i failed (sy_log S)")
    from sys_step.finish [OF r st(2) this] assms Started show ?thesis by (auto intro!: exI)
  next
    case (NoRow tok)
    then have r: "sy_runs S = [] @ NoRow tok # ps" using assms by simp
    from sys_step.finish_lost [OF r, of F] assms NoRow show ?thesis by (auto intro!: exI)
  next
    case (Finished tok)
    then have r: "sy_runs S = [] @ Finished tok # ps" using assms by simp
    from sys_step.release [OF r, of F] assms Finished show ?thesis by (auto intro!: exI)
  qed
qed

lemma drains: "\<exists>S'. (sys_step F)\<^sup>*\<^sup>* S S' \<and> sy_runs S' = []"
proof (induction "sum_list (map todo (sy_runs S))" arbitrary: S rule: less_induct)
  case less
  show ?case
  proof (cases "sy_runs S")
    case Nil
    then show ?thesis by blast
  next
    case (Cons p ps)
    obtain S1 where "sys_step F S S1" "sum_list (map todo (sy_runs S1)) < sum_list (map todo (sy_runs S))"
      using run_can_step [OF Cons] by blast
    with less [of S1] show ?thesis by (meson converse_rtranclp_into_rtranclp)
  qed
qed

lemma reachable_more: "reachable F L S \<Longrightarrow> (sys_step F)\<^sup>*\<^sup>* S S' \<Longrightarrow> reachable F L S'"
  by (simp add: reachable_def)

lemma locked_names:
  assumes "lock_inv S"
  shows "reg_running (sy_reg S) n \<noteq> None \<longleftrightarrow> n \<in> set (map tok_Name (tokens S))"
proof
  have inv: "reg_inv (sy_reg S)" "\<And>t. t \<in> set (tokens S) \<longleftrightarrow> reg_running (sy_reg S) (tok_Name t) = Some t"
    using assms by (auto simp: lock_inv_def reg.run_inv_def reg_owns_def)
  show "n \<in> set (map tok_Name (tokens S))" if "reg_running (sy_reg S) n \<noteq> None"
  proof -
    from that obtain t where t: "reg_running (sy_reg S) n = Some t" by auto
    with inv(1) have "tok_Name t = n" by (simp add: reg_inv_def)
    with t inv(2) [of t] show ?thesis by auto
  qed
  show "reg_running (sy_reg S) n \<noteq> None" if "n \<in> set (map tok_Name (tokens S))"
    using that inv(2) by auto
qed

lemma no_runs_no_locks: "lock_inv S \<Longrightarrow> sy_runs S = [] \<Longrightarrow> reg_running (sy_reg S) = Map.empty"
  using locked_names [of S] by (simp add: fun_eq_iff tokens_def)

section \<open>Properties\<close>

text \<open>
  C19: in a daemon whose runs overlap, however their operations on the lock and the log
  interleave, and whatever log statements fail, at most one run per task is between taking
  the lock and giving it back; and the names locked are exactly those of the runs in
  progress, so a finished task is never locked and a running one always is.
\<close>
theorem overlapping_runs_exclusive:
  assumes "reachable F L S"
  shows "distinct (map tok_Name (tokens S)) \<and>
    (\<forall>n. reg_running (sy_reg S) n \<noteq> None \<longleftrightarrow> n \<in> set (map tok_Name (tokens S)))"
proof -
  have inv: "reg.run_inv (sy_reg S, tokens S)" using reachable_lock_inv [OF assms] by (simp add: lock_inv_def)
  have "distinct (map tok_Name (tokens S))"
    using reg.one_active_per_name [OF inv, of "[]"] by (simp add: lock_run_def)
  then show ?thesis using locked_names [OF reachable_lock_inv [OF assms]] by blast
qed

text \<open>
  C22: on a healthy log the rows marked running are exactly those of the runs in progress,
  each open in one run only; so when no run is in progress no row is running and no task is
  locked.
\<close>
theorem running_rows_are_live:
  assumes "reachable F L S" "healthy_log L" "running_ids L = []"
  shows "distinct (open_rows S) \<and> set (running_ids (sy_log S)) = set (open_rows S) \<and>
    (sy_runs S = [] \<longrightarrow> running_ids (sy_log S) = [] \<and> reg_running (sy_reg S) = Map.empty)"
proof -
  have l: "log_inv S" by (rule reachable_log_inv [OF assms])
  with no_runs_no_locks [OF reachable_lock_inv [OF assms(1)]] show ?thesis
    by (auto simp: log_inv_def open_rows_def)
qed

text \<open>
  C23: no interleaving gets stuck: from every reachable state the runs in progress can all
  be finished, whatever the log's statements answer, ending with no lock held; if the log is
  healthy, no row is left running.
\<close>
theorem overlapping_runs_drain:
  assumes "reachable F L S"
  shows "\<exists>S'. (sys_step F)\<^sup>*\<^sup>* S S' \<and> sy_runs S' = [] \<and> reg_running (sy_reg S') = Map.empty \<and>
    (healthy_log L \<and> running_ids L = [] \<longrightarrow> running_ids (sy_log S') = [])"
proof -
  obtain S' where s: "(sys_step F)\<^sup>*\<^sup>* S S'" "sy_runs S' = []" using drains by blast
  have r: "reachable F L S'" by (rule reachable_more [OF assms s(1)])
  have "reg_running (sy_reg S') = Map.empty" by (rule no_runs_no_locks [OF reachable_lock_inv [OF r] s(2)])
  moreover have "running_ids (sy_log S') = []" if "healthy_log L" "running_ids L = []"
    using reachable_log_inv [OF r that] s(2) by (simp add: log_inv_def open_rows_def)
  ultimately show ?thesis using s by blast
qed

text \<open>Two triggers of one task, the second while the first is running.\<close>

definition demo_token :: Token where
  "demo_token = \<lparr>tok_Name = ''a'', tok_Gen = 1, tok_addr = 0\<rparr>"

definition demo_system :: System where
  "demo_system = \<lparr>sy_reg = snd (Acquire ''a'' NewRegistry),
     sy_log = snd (StartRun (GoTime 0 0) ''a'' ''cron'' new_store),
     sy_runs = [Started demo_token 1, Refused ''a'']\<rparr>"

lemma demo_reachable: "reachable F new_store demo_system"
proof -
  let ?r = "snd (Acquire ''a'' NewRegistry)" and ?L = "snd (StartRun (GoTime 0 0) ''a'' ''cron'' new_store)"
  let ?S1 = "\<lparr>sy_reg = ?r, sy_log = new_store, sy_runs = [Locked demo_token]\<rparr>"
  let ?S2 = "\<lparr>sy_reg = ?r, sy_log = ?L, sy_runs = [Started demo_token 1]\<rparr>"
  have a: "Acquire ''a'' NewRegistry = (Some demo_token, ?r)" "Acquire ''a'' ?r = (None, ?r)"
    by (simp_all add: Acquire_def NewRegistry_def Let_def demo_token_def)
  have s: "StartRun (GoTime 0 0) ''a'' ''cron'' new_store = (Inr 1, ?L)"
    by (simp add: StartRun_def new_store_def sql_def Let_def)
  have "sys_step F (sys_init new_store) ?S1"
    using sys_step.lock [of "''a''" "sys_init new_store" demo_token ?r F] a by (simp add: sys_init_def)
  moreover have "sys_step F ?S1 ?S2"
    using sys_step.start [of ?S1 "[]" demo_token "[]" "GoTime 0 0" "''cron''" 1 ?L F] s by (simp add: demo_token_def)
  moreover have "sys_step F ?S2 demo_system"
    using sys_step.refuse [of "''a''" ?S2 ?r F] a by (simp add: demo_system_def)
  ultimately show ?thesis
    unfolding reachable_def
    by (rule rtranclp.rtrancl_into_rtrancl [OF rtranclp.rtrancl_into_rtrancl [OF rtranclp.rtrancl_into_rtrancl [OF rtranclp.rtrancl_refl]]])
qed

lemma demo_log: "healthy_log new_store" "running_ids new_store = []"
  by (simp_all add: healthy_log_def store_ok_def new_store_def running_ids_def)

theorem overlapping_runs_exclusive_witness:
  "distinct (map tok_Name (tokens demo_system)) \<and> reg_running (sy_reg demo_system) ''a'' \<noteq> None \<and>
    reg_running (sy_reg demo_system) ''b'' = None"
proof -
  have t: "map tok_Name (tokens demo_system) = [''a'']" by (simp add: tokens_def demo_system_def demo_token_def)
  have "distinct (map tok_Name (tokens demo_system)) \<and>
      (\<forall>n. reg_running (sy_reg demo_system) n \<noteq> None \<longleftrightarrow> n \<in> set (map tok_Name (tokens demo_system)))"
    by (rule overlapping_runs_exclusive [OF demo_reachable [of bits_text]])
  then have n: "reg_running (sy_reg demo_system) n \<noteq> None \<longleftrightarrow> n = ''a''" for n unfolding t by simp
  from n [of "''a''"] n [of "''b''"] show ?thesis by (simp add: t)
qed

theorem running_rows_are_live_witness:
  "set (running_ids (sy_log demo_system)) = {1}"
proof -
  have o: "open_rows demo_system = [1]" by (simp add: open_rows_def demo_system_def)
  from running_rows_are_live [OF demo_reachable [of bits_text] demo_log] show ?thesis unfolding o by simp
qed

theorem overlapping_runs_drain_witness:
  "\<exists>S'. (sys_step bits_text)\<^sup>*\<^sup>* demo_system S' \<and> sy_runs S' = [] \<and> running_ids (sy_log S') = []"
  using overlapping_runs_drain [OF demo_reachable [of bits_text]] demo_log by blast

text \<open>
  The daemon schedules what the configuration says: for a validated configuration, read
  with the cron parser it was validated with, registration succeeds and registers exactly
  the enabled tasks that have a schedule, in order.
\<close>
theorem daemon_registers_scheduled:
  assumes "Validate env c = (None, c')"
  shows "register_tasks (cf_cron env) c' = Inr (filter is_scheduled c')"
proof -
  have "list_all (task_ok env) c'"
    using assms by (auto simp: Validate_ok list_all_iff intro: validated_task_ok)
  then have "\<forall>t \<in> set c'. is_scheduled t \<longrightarrow> cf_cron env (tk_Schedule t) = None"
    by (auto simp: list_all_iff task_ok_def is_scheduled_def)
  then show ?thesis by (rule register_tasks_ok)
qed

theorem daemon_registers_scheduled_witness:
  "register_tasks (cf_cron no_env) [validated no_env sample_task] = Inr []"
proof -
  have "filter is_scheduled [validated no_env sample_task] = []"
    by (simp add: is_scheduled_def validated_def sample_task_def)
  with daemon_registers_scheduled [OF sample_validates] show ?thesis by simp
qed

text \<open>
  C24: the daemon's loop runs each firing to its end and records it: for a validated
  configuration whose pages can be allocated, on a healthy, empty log, whatever the databases do, the loop answers every
  sequence of events; it leaves one row per firing before the exit, in order, of the task
  that fired and with the trigger \<open>cron\<close>; and it exits with the server's error, with none
  when cancelled.
\<close>
theorem daemon_records_firings:
  assumes "Validate env c = (None, c')" "reg = filter is_scheduled c'"
    and "healthy_log (es_runs e)" "st_runs (es_runs e) = []" "\<forall>t \<in> set c'. tk_PageSize t \<le> maxPageCap"
  shows "\<exists>e' w'. daemon_loop (NewEngine D lk clk F) reg es (e, w) = Some (exit_of es, e', w') \<and>
    map rw_task (st_runs (es_runs e')) = map (\<lambda>(t, tr). tk_Name t) (fired reg es) \<and>
    (\<forall>row \<in> set (st_runs (es_runs e')). rw_trigger_kind row = ''cron'' \<and>
      (\<exists>t \<in> set c'. tk_Name t = rw_task row \<and> tk_IsEnabled t \<and> tk_Schedule t \<noteq> []))"
proof -
  have b: "\<forall>(t, tr) \<in> set (fired reg es). sizes_ok t"
  proof (clarify)
    fix t tr assume "(t, tr) \<in> set (fired reg es)"
    then have "t \<in> set reg" using fired_registered by blast
    then have "t \<in> set c'" by (simp add: assms(2))
    then show "sizes_ok t" using validated_batch [OF assms(1)] assms(5) by (simp add: sizes_ok_def)
  qed
  obtain rs e' w' rows where r: "run_all (NewEngine D lk clk F) (fired reg es) (e, w) = Some (rs, e', w')"
    "st_runs (es_runs e') = rows" "map rw_task rows = map (\<lambda>(t, tr). tk_Name t) (fired reg es)"
    "map rw_trigger_kind rows = map snd (fired reg es)"
    using prog.run_all_agrees [OF b assms(3), of D lk clk F w] assms(4) by auto
  have "rw_trigger_kind row = ''cron'' \<and> (\<exists>t \<in> set c'. tk_Name t = rw_task row \<and> tk_IsEnabled t \<and> tk_Schedule t \<noteq> [])"
    if "row \<in> set rows" for row
  proof -
    from that obtain i where i: "i < length rows" "row = rows ! i" by (auto simp: in_set_conv_nth)
    have len: "length (fired reg es) = length rows" using r(3) by (metis length_map)
    obtain t tr where f: "fired reg es ! i = (t, tr)" by (cases "fired reg es ! i")
    have "rw_task row = tk_Name t" "rw_trigger_kind row = tr"
      using arg_cong [OF r(3), of "\<lambda>l. l ! i"] arg_cong [OF r(4), of "\<lambda>l. l ! i"] i len f by auto
    moreover have "(t, tr) \<in> set (fired reg es)" using f i(1) len by (metis nth_mem)
    then have "t \<in> set reg" "tr = ''cron''" using fired_registered by blast+
    ultimately show ?thesis using assms(2) by (auto simp: is_scheduled_def)
  qed
  with r show ?thesis unfolding daemon_loop_runs by simp
qed

definition cron_task :: Task where
  "cron_task = sample_task\<lparr>tk_Schedule := ''@hourly''\<rparr>"

theorem daemon_records_firings_witness:
  "\<exists>e' w'. daemon_loop (demo_engine never) [validated no_env cron_task] [Fire 0, Fire 3, Fire 0, Cancelled, Fire 0] (demo_state, []) =
      Some (Exited None, e', w') \<and> map rw_task (st_runs (es_runs e')) = [''t'', ''t'']"
proof -
  have "ParseDuration ''90s'' = Some 90000000000" by code_simp
  then have v: "Validate no_env [cron_task] = (None, [validated no_env cron_task])"
    by (simp add: Validate_ok acceptable_def cron_task_def sample_task_def sample_endpoint_def no_env_def supportedTypes_def
        resolveDSN_def incremental_ok_def)
  have f: "[validated no_env cron_task] = filter is_scheduled [validated no_env cron_task]"
    by (simp add: is_scheduled_def validated_def cron_task_def sample_task_def)
  have h: "healthy_log (es_runs demo_state)" "st_runs (es_runs demo_state) = []"
    by (simp_all add: demo_state_def healthy_log_def store_ok_def new_store_def)
  have fr: "fired [v] [Fire 0, Fire 3, Fire 0, Cancelled, Fire 0] = [(v, ''cron''), (v, ''cron'')]"
    "exit_of [Fire 0, Fire 3, Fire 0, Cancelled, Fire 0] = Exited None" for v
    by simp_all
  have n: "tk_Name cron_task = ''t''" by (simp add: cron_task_def sample_task_def)
  have m: "map (\<lambda>(t, tr). tk_Name t) [(validated no_env cron_task, ''cron''), (validated no_env cron_task, ''cron'')] = [''t'', ''t'']"
    by (simp add: n)
  have pg: "\<forall>t \<in> set [validated no_env cron_task]. tk_PageSize t \<le> maxPageCap"
    by (simp add: validated_def cron_task_def sample_task_def maxPageCap_def)
  from daemon_records_firings [OF v f h pg, of "demo_drivers never" registry_locker demo_clock bits_text
      "[Fire 0, Fire 3, Fire 0, Cancelled, Fire 0]" "[]", folded demo_engine_def, unfolded fr m]
  show ?thesis by (elim exE conjE) (intro exI conjI)
qed

end
