(* ===== verification/Leases.thy ===== *)
theory Leases
  imports Lease
begin

text \<open>
  Instances that share a lease table, statement by statement. \<open>Acquire\<close> reads its clock once and
  then sends two statements that are not in a transaction, so another instance's statements
  may come between them, and between any two of a run's renewals and its release. The step
  relation has one step per statement; a run may also crash at any point, and any statement
  may fail.
\<close>

section \<open>The two statements of Acquire\<close>

text \<open>Whether the eviction went through, and the insertion with its number of rows.\<close>

definition acquire_evict :: "gotime \<Rightarrow> LeaseTable \<Rightarrow> bool \<times> LeaseTable" where
  "acquire_evict time_now T =
     (case lease_fault T of
        (Some _, T) \<Rightarrow> (False, T)
      | (None, T) \<Rightarrow> (True, evict (utc time_now) T))"

definition acquire_insert :: "Lease \<Rightarrow> gotime \<Rightarrow> string \<Rightarrow> LeaseTable \<Rightarrow> Token option \<times> LeaseTable" where
  "acquire_insert l time_now name T =
     (case lease_fault T of
        (Some _, T) \<Rightarrow> (None, T)
      | (None, T) \<Rightarrow>
          (case insert_or_ignore (new_row l time_now name) T of
             (n, T) \<Rightarrow>
               (case lease_fault T of
                  (Some _, T) \<Rightarrow> (None, T)
                | (None, T) \<Rightarrow>
                    if n \<noteq> 1 then (None, T)
                    else (Some \<lparr>tok_Name = name, tok_Gen = 0, tok_addr = 0\<rparr>, T))))"

text \<open>Nothing coming between them, they are the operation.\<close>

lemma LeaseAcquire_statements:
  "LeaseAcquire l now n T =
    (case acquire_evict now T of
       (False, T) \<Rightarrow> (None, T)
     | (True, T) \<Rightarrow> acquire_insert l now n T)"
  by (auto simp: LeaseAcquire_def acquire_evict_def acquire_insert_def new_row_def Let_def
      split: prod.splits option.splits bool.splits)

lemma acquire_evict_rows:
  "acquire_evict now T = (ok, T') \<Longrightarrow> lt_rows T' = lt_rows T \<or> lt_rows T' = live_rows now T"
  by (auto simp: acquire_evict_def live_rows_def split: prod.splits option.splits dest!: lease_fault_rows)

lemma acquire_insert_rows:
  assumes "acquire_insert l now n T = (r, T')"
  shows "(r = None \<and> lt_rows T' = lt_rows T) \<or>
    (\<forall>x \<in> set (lt_rows T). lr_name x \<noteq> n) \<and> lt_rows T' = lt_rows T @ [new_row l now n] \<and>
      (\<forall>tok. r = Some tok \<longrightarrow> tok_Name tok = n)"
  using assms
  by (auto simp: acquire_insert_def insert_or_ignore_def new_row_def split: prod.splits option.splits if_splits
      dest!: lease_fault_rows)

section \<open>The system\<close>

text \<open>A run of a task: before the eviction, before the insertion, or holding its lease until
  the given expiry.\<close>

datatype lease_phase =
    Asking Lease string gotime
  | Evicted Lease string gotime
  | Holding Lease Token gotime

fun phase_task :: "lease_phase \<Rightarrow> string" where
  "phase_task (Asking l n t) = n"
| "phase_task (Evicted l n t) = n"
| "phase_task (Holding l tok e) = tok_Name tok"

text \<open>The instant by which a run must have taken its next step to be in time.\<close>

fun phase_due :: "lease_phase \<Rightarrow> int" where
  "phase_due (Asking l n t) = inst t + ls_ttl l"
| "phase_due (Evicted l n t) = inst t + ls_ttl l"
| "phase_due (Holding l tok e) = inst e"

fun holds :: "string \<Rightarrow> lease_phase \<Rightarrow> bool" where
  "holds n (Holding l tok e) = (tok_Name tok = n)"
| "holds n _ = False"

record LeaseSystem =
  ly_now :: int
  ly_table :: LeaseTable
  ly_runs :: "lease_phase list"

text \<open>
  The runs of task \<open>n\<close> are in time (\<open>tick\<close>): none lets its TTL pass between two of its
  statements, as the package comment demands of pages. Runs of other tasks need not be.
\<close>

inductive lease_sys :: "string \<Rightarrow> LeaseSystem \<Rightarrow> LeaseSystem \<Rightarrow> bool" for n where
  tick: "ly_now S \<le> c \<Longrightarrow> \<forall>p \<in> set (ly_runs S). phase_task p = n \<longrightarrow> c \<le> phase_due p \<Longrightarrow>
     lease_sys n S (S\<lparr>ly_now := c\<rparr>)"
| ask: "inst now = ly_now S \<Longrightarrow> lease_client now l \<Longrightarrow>
     lease_sys n S (S\<lparr>ly_runs := ly_runs S @ [Asking l m now]\<rparr>)"
| evict_done: "ly_runs S = xs @ Asking l m t # ys \<Longrightarrow> acquire_evict t (ly_table S) = (True, T) \<Longrightarrow>
     lease_sys n S (S\<lparr>ly_table := T, ly_runs := xs @ Evicted l m t # ys\<rparr>)"
| evict_failed: "ly_runs S = xs @ Asking l m t # ys \<Longrightarrow> acquire_evict t (ly_table S) = (False, T) \<Longrightarrow>
     lease_sys n S (S\<lparr>ly_table := T, ly_runs := xs @ ys\<rparr>)"
| granted: "ly_runs S = xs @ Evicted l m t # ys \<Longrightarrow> acquire_insert l t m (ly_table S) = (Some tok, T) \<Longrightarrow>
     lease_sys n S (S\<lparr>ly_table := T, ly_runs := xs @ Holding l tok (add_time (utc t) (ls_ttl l)) # ys\<rparr>)"
| refused: "ly_runs S = xs @ Evicted l m t # ys \<Longrightarrow> acquire_insert l t m (ly_table S) = (None, T) \<Longrightarrow>
     lease_sys n S (S\<lparr>ly_table := T, ly_runs := xs @ ys\<rparr>)"
| renewed: "ly_runs S = xs @ Holding l tok e # ys \<Longrightarrow> inst now = ly_now S \<Longrightarrow> lease_client now l \<Longrightarrow>
     fst (lease_fault (ly_table S)) = None \<Longrightarrow>
     lease_sys n S (S\<lparr>ly_table := LeaseRenew l now (Some tok) (ly_table S),
       ly_runs := xs @ Holding l tok (add_time (utc now) (ls_ttl l)) # ys\<rparr>)"
| renew_failed: "ly_runs S = xs @ Holding l tok e # ys \<Longrightarrow> fst (lease_fault (ly_table S)) \<noteq> None \<Longrightarrow>
     lease_sys n S (S\<lparr>ly_table := LeaseRenew l now (Some tok) (ly_table S)\<rparr>)"
| released: "ly_runs S = xs @ Holding l tok e # ys \<Longrightarrow>
     lease_sys n S (S\<lparr>ly_table := LeaseRelease l (Some tok) (ly_table S), ly_runs := xs @ ys\<rparr>)"
| crashed: "ly_runs S = xs @ p # ys \<Longrightarrow> lease_sys n S (S\<lparr>ly_runs := xs @ ys\<rparr>)"

definition lease_sys_init :: "int \<Rightarrow> LeaseTable \<Rightarrow> LeaseSystem" where
  "lease_sys_init c T = \<lparr>ly_now = c, ly_table = T, ly_runs = []\<rparr>"

section \<open>The invariant\<close>

text \<open>What is known of one run: it asked in the past; if it holds task \<open>n\<close>, the table has its row.\<close>

fun phase_ok :: "string \<Rightarrow> int \<Rightarrow> lease_row list \<Rightarrow> lease_phase \<Rightarrow> bool" where
  "phase_ok n c rows (Asking l m t) = (lease_client t l \<and> inst t \<le> c)"
| "phase_ok n c rows (Evicted l m t) = (lease_client t l \<and> inst t \<le> c)"
| "phase_ok n c rows (Holding l tok e) = (tok_Name tok = n \<longrightarrow> year_ok (utc e) \<and>
     (\<exists>r \<in> set rows. lr_name r = n \<and> lr_owner r = ls_owner l \<and> lr_expires_at r = fmt_lease (utc e)))"

definition lease_sys_inv :: "string \<Rightarrow> LeaseSystem \<Rightarrow> bool" where
  "lease_sys_inv n S \<longleftrightarrow>
     table_ok (ly_table S) \<and> length (filter (holds n) (ly_runs S)) \<le> 1 \<and>
     (\<forall>p \<in> set (ly_runs S). phase_ok n (ly_now S) (lt_rows (ly_table S)) p \<and>
        (phase_task p = n \<longrightarrow> ly_now S \<le> phase_due p))"

lemma phase_ok_later: "phase_ok n c rows p \<Longrightarrow> c \<le> c' \<Longrightarrow> phase_ok n c' rows p"
  by (cases p) auto

lemma phase_ok_rows:
  "phase_ok n c rows p \<Longrightarrow> (\<And>r. r \<in> set rows \<Longrightarrow> lr_name r = n \<Longrightarrow> holds n p \<Longrightarrow> r \<in> set rows') \<Longrightarrow> phase_ok n c rows' p"
  by (cases p) auto

lemma table_ok_rows: "lt_rows T' = lt_rows T \<Longrightarrow> table_ok T \<Longrightarrow> table_ok T'"
  by (simp add: table_ok_def)

lemma one_holder:
  assumes "length (filter (holds n) (xs @ p # ys)) \<le> 1" "holds n p" "q \<in> set xs \<union> set ys"
  shows "\<not> holds n q"
proof
  assume "holds n q"
  with assms(3) have "q \<in> set (filter (holds n) xs @ filter (holds n) ys)" by auto
  then have "0 < length (filter (holds n) xs @ filter (holds n) ys)" by (rule length_pos_if_in_set)
  with assms(1,2) show False by simp
qed

text \<open>A run of another task, or one that has not its lease yet, needs no row of the table.\<close>

lemma phase_ok_other: "phase_ok n c rows p \<Longrightarrow> \<not> holds n p \<Longrightarrow> phase_ok n c rows' p"
  by (cases p) auto

lemma invI:
  assumes "table_ok T" "length (filter (holds n) runs) \<le> 1"
    and "\<And>p. p \<in> set runs \<Longrightarrow> phase_ok n c (lt_rows T) p"
    and "\<And>p. p \<in> set runs \<Longrightarrow> phase_task p = n \<Longrightarrow> c \<le> phase_due p"
  shows "lease_sys_inv n \<lparr>ly_now = c, ly_table = T, ly_runs = runs\<rparr>"
  using assms by (simp add: lease_sys_inv_def)

lemma inv_evict:
  assumes inv: "lease_sys_inv n S" and runs: "ly_runs S = xs @ Asking l m t # ys"
    and e: "acquire_evict t (ly_table S) = (ok, T)" and z: "zs = [] \<or> zs = [Evicted l m t]"
  shows "lease_sys_inv n (S\<lparr>ly_table := T, ly_runs := xs @ zs @ ys\<rparr>)"
proof -
  let ?rows = "lt_rows (ly_table S)"
  have ok: "table_ok (ly_table S)" and ph: "\<And>p. p \<in> set (ly_runs S) \<Longrightarrow> phase_ok n (ly_now S) ?rows p"
    and due: "\<And>p. p \<in> set (ly_runs S) \<Longrightarrow> phase_task p = n \<Longrightarrow> ly_now S \<le> phase_due p"
    using inv by (auto simp: lease_sys_inv_def)
  have t: "lease_client t l" "inst t \<le> ly_now S" using ph [of "Asking l m t"] runs by auto
  have rows: "lt_rows T = ?rows \<or> lt_rows T = live_rows t (ly_table S)" by (rule acquire_evict_rows [OF e])
  have old: "phase_ok n (ly_now S) (lt_rows T) p" if p: "p \<in> set (ly_runs S)" for p
  proof (cases p)
    case (Holding l' tok x)
    with ph [OF p] due [OF p] rows live_row_kept [of _ "ly_table S" x t] t show ?thesis
      by (fastforce simp: lease_client_def less_eq_gotime_def)
  qed (use ph [OF p] in simp_all)
  have sub: "p \<in> set (ly_runs S) \<or> p = Evicted l m t" if "p \<in> set (xs @ zs @ ys)" for p
    using that z runs by auto
  have "table_ok T"
    using rows ok by (auto simp: table_ok_def live_rows_def distinct_map_filter)
  moreover have "length (filter (holds n) (xs @ zs @ ys)) \<le> 1"
    using inv z by (auto simp: lease_sys_inv_def runs)
  moreover have "phase_ok n (ly_now S) (lt_rows T) p" if "p \<in> set (xs @ zs @ ys)" for p
    using sub [OF that] old t by auto
  moreover have "ly_now S \<le> phase_due p" if "p \<in> set (xs @ zs @ ys)" "phase_task p = n" for p
    using sub [OF that(1)] due [of p] due [of "Asking l m t"] that(2) runs by auto
  ultimately show ?thesis by (simp add: lease_sys_inv_def)
qed

lemma inv_insert:
  assumes inv: "lease_sys_inv n S" and runs: "ly_runs S = xs @ Evicted l m t # ys"
    and i: "acquire_insert l t m (ly_table S) = (r, T)"
    and z: "zs = [] \<or> (\<exists>tok. r = Some tok \<and> zs = [Holding l tok (add_time (utc t) (ls_ttl l))])"
  shows "lease_sys_inv n (S\<lparr>ly_table := T, ly_runs := xs @ zs @ ys\<rparr>)"
proof -
  let ?rows = "lt_rows (ly_table S)"
  have ok: "table_ok (ly_table S)" and ph: "\<And>p. p \<in> set (ly_runs S) \<Longrightarrow> phase_ok n (ly_now S) ?rows p"
    and due: "\<And>p. p \<in> set (ly_runs S) \<Longrightarrow> phase_task p = n \<Longrightarrow> ly_now S \<le> phase_due p"
    and one: "length (filter (holds n) (xs @ ys)) \<le> 1"
    using inv by (auto simp: lease_sys_inv_def runs)
  have t: "lease_client t l" "inst t \<le> ly_now S" using ph [of "Evicted l m t"] runs by auto
  consider (no) "r = None" "lt_rows T = ?rows"
    | (yes) "\<forall>x \<in> set ?rows. lr_name x \<noteq> m" "lt_rows T = ?rows @ [new_row l t m]" "\<forall>tok. r = Some tok \<longrightarrow> tok_Name tok = m"
    using acquire_insert_rows [OF i] by blast
  then show ?thesis
  proof cases
    case no
    then have "zs = []" using z by auto
    with no ok one ph due show ?thesis
      by (auto simp: lease_sys_inv_def runs table_ok_def)
  next
    case yes
    have free: "\<not> holds m p" if "p \<in> set (ly_runs S)" "m = n" for p
      using ph [OF that(1)] yes(1) that(2) by (cases p) auto
    have sub: "p \<in> set (ly_runs S) \<or> (\<exists>tok. r = Some tok \<and> p = Holding l tok (add_time (utc t) (ls_ttl l)))"
      if "p \<in> set (xs @ zs @ ys)" for p
      using that z runs by auto
    have "table_ok T" using ok yes(1,2) by (auto simp: table_ok_def new_row_def)
    moreover have "length (filter (holds n) (xs @ zs @ ys)) \<le> 1"
    proof (cases "m = n")
      case True
      then have "filter (holds n) xs = []" "filter (holds n) ys = []"
        using free by (auto simp: filter_empty_conv runs)
      with z show ?thesis by auto
    next
      case False
      with z yes(3) one show ?thesis by auto
    qed
    moreover have "phase_ok n (ly_now S) (lt_rows T) p" if "p \<in> set (xs @ zs @ ys)" for p
      using sub [OF that] phase_ok_rows [OF ph, of p "lt_rows T"] t yes
      by (auto simp: new_row_def lease_client_def add_time_def utc_def)
    moreover have "ly_now S \<le> phase_due p" if "p \<in> set (xs @ zs @ ys)" "phase_task p = n" for p
      using sub [OF that(1)] due [of p] due [of "Evicted l m t"] that(2) runs yes(3)
      by (auto simp: add_time_def utc_def)
    ultimately show ?thesis by (simp add: lease_sys_inv_def)
  qed
qed

lemma inv_drop:
  assumes inv: "lease_sys_inv n S" and runs: "ly_runs S = xs @ p # ys" and T: "table_ok T"
    and keep: "\<And>q r. q \<in> set (xs @ ys) \<Longrightarrow> holds n q \<Longrightarrow> r \<in> set (lt_rows (ly_table S)) \<Longrightarrow> lr_name r = n \<Longrightarrow> r \<in> set (lt_rows T)"
  shows "lease_sys_inv n (S\<lparr>ly_table := T, ly_runs := xs @ ys\<rparr>)"
proof -
  have "length (filter (holds n) (xs @ ys)) \<le> 1" using inv by (auto simp: lease_sys_inv_def runs split: if_splits)
  moreover have "phase_ok n (ly_now S) (lt_rows T) q" if "q \<in> set (xs @ ys)" for q
  proof (rule phase_ok_rows)
    show "phase_ok n (ly_now S) (lt_rows (ly_table S)) q" using inv that by (auto simp: lease_sys_inv_def runs)
  qed (rule keep [OF that])
  ultimately show ?thesis using inv T by (auto simp: lease_sys_inv_def runs)
qed

lemma inv_release:
  assumes inv: "lease_sys_inv n S" and runs: "ly_runs S = xs @ Holding l tok e # ys"
  shows "lease_sys_inv n (S\<lparr>ly_table := LeaseRelease l (Some tok) (ly_table S), ly_runs := xs @ ys\<rparr>)"
proof (rule inv_drop [OF inv runs])
  show "table_ok (LeaseRelease l (Some tok) (ly_table S))"
    using inv by (simp add: lease_sys_inv_def table_ok_ops)
  show "r \<in> set (lt_rows (LeaseRelease l (Some tok) (ly_table S)))"
    if "q \<in> set (xs @ ys)" "holds n q" "r \<in> set (lt_rows (ly_table S))" "lr_name r = n" for q r
  proof -
    have "tok_Name tok \<noteq> n"
      using one_holder [of n xs "Holding l tok e" ys q] inv that(1,2) by (auto simp: lease_sys_inv_def runs)
    with LeaseRelease_rows [of l tok "ly_table S"] that(3,4) show ?thesis by auto
  qed
qed

lemma LeaseRenew_done:
  "fst (lease_fault T) = None \<Longrightarrow> lt_rows (LeaseRenew l now (Some tok) T) =
    map (\<lambda>r. if lr_name r = tok_Name tok \<and> lr_owner r = ls_owner l
              then r\<lparr>lr_expires_at := fmt_lease (add_time (utc now) (ls_ttl l))\<rparr> else r) (lt_rows T)"
  by (cases "lease_fault T") (auto simp: LeaseRenew_def dest: lease_fault_rows)

lemma LeaseRenew_failed:
  "fst (lease_fault T) \<noteq> None \<Longrightarrow> lt_rows (LeaseRenew l now (Some tok) T) = lt_rows T"
  by (cases "lease_fault T") (auto simp: LeaseRenew_def dest: lease_fault_rows split: option.splits)

lemma inv_renew:
  assumes inv: "lease_sys_inv n S" and runs: "ly_runs S = xs @ Holding l tok e # ys"
    and now: "inst now = ly_now S" "lease_client now l" and f: "fst (lease_fault (ly_table S)) = None"
  shows "lease_sys_inv n (S\<lparr>ly_table := LeaseRenew l now (Some tok) (ly_table S),
    ly_runs := xs @ Holding l tok (add_time (utc now) (ls_ttl l)) # ys\<rparr>)"
proof -
  let ?e = "add_time (utc now) (ls_ttl l)" and ?T = "LeaseRenew l now (Some tok) (ly_table S)"
  let ?upd = "\<lambda>r. if lr_name r = tok_Name tok \<and> lr_owner r = ls_owner l then r\<lparr>lr_expires_at := fmt_lease ?e\<rparr> else r"
  have rows: "lt_rows ?T = map ?upd (lt_rows (ly_table S))" by (rule LeaseRenew_done [OF f])
  have ph: "phase_ok n (ly_now S) (lt_rows (ly_table S)) p" if "p \<in> set (ly_runs S)" for p
    using inv that by (simp add: lease_sys_inv_def)
  have self: "phase_ok n (ly_now S) (lt_rows ?T) (Holding l tok ?e)"
  proof (cases "tok_Name tok = n")
    case True
    then obtain r where "r \<in> set (lt_rows (ly_table S))" "lr_name r = n" "lr_owner r = ls_owner l"
      using ph [of "Holding l tok e"] runs by auto
    then have "?upd r \<in> set (lt_rows ?T)" unfolding rows by simp
    with \<open>lr_name r = n\<close> \<open>lr_owner r = ls_owner l\<close> True
    have "\<exists>r \<in> set (lt_rows ?T). lr_name r = n \<and> lr_owner r = ls_owner l \<and> lr_expires_at r = fmt_lease ?e"
      by (intro bexI [of _ "?upd r"]) simp_all
    then show ?thesis using now(2) by (simp add: lease_client_def add_time_def utc_def)
  qed simp
  have other: "phase_ok n (ly_now S) (lt_rows ?T) p" if p: "p \<in> set xs \<union> set ys" for p
  proof (rule phase_ok_rows [OF ph])
    show "p \<in> set (ly_runs S)" using p runs by auto
    show "r \<in> set (lt_rows ?T)" if "r \<in> set (lt_rows (ly_table S))" "lr_name r = n" "holds n p" for r
    proof -
      have "tok_Name tok \<noteq> n"
        using one_holder [of n xs "Holding l tok e" ys p] inv p that(3) by (auto simp: lease_sys_inv_def runs)
      with that(1,2) show ?thesis unfolding rows by force
    qed
  qed
  have "ly_now S \<le> phase_due (Holding l tok ?e)"
    using now by (simp add: lease_client_def add_time_def utc_def)
  with inv self other show ?thesis by (auto simp: lease_sys_inv_def runs table_ok_ops)
qed

lemma lease_sys_inv_step: "lease_sys n S S' \<Longrightarrow> lease_sys_inv n S \<Longrightarrow> lease_sys_inv n S'"
proof (induction rule: lease_sys.induct)
  case (tick S c)
  then show ?case by (auto simp: lease_sys_inv_def intro: phase_ok_later)
next
  case (ask now S l m)
  then show ?case by (auto simp: lease_sys_inv_def lease_client_def)
next
  case (evict_done S xs l m t ys T)
  then show ?case using inv_evict [of n S xs l m t ys True T "[Evicted l m t]"] by simp
next
  case (evict_failed S xs l m t ys T)
  then show ?case using inv_evict [of n S xs l m t ys False T "[]"] by simp
next
  case (granted S xs l m t ys tok T)
  then show ?case using inv_insert [of n S xs l m t ys "Some tok" T "[Holding l tok (add_time (utc t) (ls_ttl l))]"] by simp
next
  case (refused S xs l m t ys T)
  then show ?case using inv_insert [of n S xs l m t ys None T "[]"] by simp
next
  case (renewed S xs l tok e ys now)
  then show ?case by (rule_tac inv_renew)
next
  case (renew_failed S xs l tok e ys now)
  then show ?case by (auto simp: lease_sys_inv_def LeaseRenew_failed table_ok_ops)
next
  case (released S xs l tok e ys)
  then show ?case by (rule_tac inv_release)
next
  case (crashed S xs p ys)
  then have "lease_sys_inv n (S\<lparr>ly_table := ly_table S, ly_runs := xs @ ys\<rparr>)"
    by (intro inv_drop [where p = p]) (auto simp: lease_sys_inv_def)
  then show ?case by simp
qed

lemma lease_sys_inv_init: "table_ok T \<Longrightarrow> lease_sys_inv n (lease_sys_init c T)"
  by (simp add: lease_sys_init_def lease_sys_inv_def)

lemma lease_sys_reachable: "(lease_sys n)\<^sup>*\<^sup>* (lease_sys_init c T) S \<Longrightarrow> table_ok T \<Longrightarrow> lease_sys_inv n S"
  by (induction rule: rtranclp_induct) (auto intro: lease_sys_inv_step lease_sys_inv_init)

section \<open>Properties\<close>

text \<open>
  C20: several instances on one lease table never run a task twice at the same time, although
  acquiring is two statements that others may come between: in every interleaving of the
  statements of any number of runs of any instances, with failing statements and crashes, and
  as long as no run of the task lets its TTL pass between two of its own statements, at most
  one run holds the task; and the table has its row, not expired.
\<close>
theorem leases_exclusive:
  assumes "(lease_sys n)\<^sup>*\<^sup>* (lease_sys_init c T) S" and "table_ok T"
  shows "length (filter (holds n) (ly_runs S)) \<le> 1 \<and>
    (\<forall>l tok e. Holding l tok e \<in> set (ly_runs S) \<and> tok_Name tok = n \<longrightarrow>
      ly_now S \<le> inst e \<and>
      (\<exists>r \<in> set (lt_rows (ly_table S)). lr_name r = n \<and> lr_owner r = ls_owner l \<and> lr_expires_at r = fmt_lease (utc e)))"
  using lease_sys_reachable [OF assms] by (force simp: lease_sys_inv_def)

text \<open>One instance is between its two statements while another takes the lease.\<close>

definition demo_leases :: LeaseSystem where
  "demo_leases = \<lparr>ly_now = inst t_2026, ly_table = \<lparr>lt_rows = [new_row inst_b t_2026 ''x''], lt_faults = []\<rparr>,
     ly_runs = [Evicted inst_a ''x'' t_2026,
       Holding inst_b \<lparr>tok_Name = ''x'', tok_Gen = 0, tok_addr = 0\<rparr> (add_time (utc t_2026) (ls_ttl inst_b))]\<rparr>"

lemma demo_client: "lease_client t_2026 inst_a" "lease_client t_2026 inst_b"
  by code_simp+

lemma demo_leases_reachable: "(lease_sys ''x'')\<^sup>*\<^sup>* (lease_sys_init (inst t_2026) empty_table) demo_leases"
proof -
  let ?sys = "\<lambda>T ps. \<lparr>ly_now = inst t_2026, ly_table = T, ly_runs = ps\<rparr>"
  let ?b = "Holding inst_b \<lparr>tok_Name = ''x'', tok_Gen = 0, tok_addr = 0\<rparr> (add_time (utc t_2026) (ls_ttl inst_b))"
  have ev: "acquire_evict t_2026 empty_table = (True, empty_table)"
    by (simp add: acquire_evict_def lease_fault_def evict_def)
  have ins: "acquire_insert inst_b t_2026 ''x'' empty_table =
      (Some \<lparr>tok_Name = ''x'', tok_Gen = 0, tok_addr = 0\<rparr>, \<lparr>lt_rows = [new_row inst_b t_2026 ''x''], lt_faults = []\<rparr>)"
    by (simp add: acquire_insert_def insert_or_ignore_def lease_fault_def)
  have "lease_sys ''x'' (?sys empty_table []) (?sys empty_table [Asking inst_a ''x'' t_2026])"
    using lease_sys.ask [of t_2026 "?sys empty_table []" inst_a "''x''" "''x''"] demo_client by simp
  moreover have "lease_sys ''x'' \<dots> (?sys empty_table [Evicted inst_a ''x'' t_2026])"
    using lease_sys.evict_done [of "?sys empty_table [Asking inst_a ''x'' t_2026]" "[]"] ev by simp
  moreover have "lease_sys ''x'' \<dots> (?sys empty_table [Evicted inst_a ''x'' t_2026, Asking inst_b ''x'' t_2026])"
    using lease_sys.ask [of t_2026 "?sys empty_table [Evicted inst_a ''x'' t_2026]" inst_b "''x''" "''x''"] demo_client by simp
  moreover have "lease_sys ''x'' \<dots> (?sys empty_table [Evicted inst_a ''x'' t_2026, Evicted inst_b ''x'' t_2026])"
    using lease_sys.evict_done [of "?sys empty_table [Evicted inst_a ''x'' t_2026, Asking inst_b ''x'' t_2026]"
        "[Evicted inst_a ''x'' t_2026]"] ev by simp
  moreover have "lease_sys ''x'' \<dots> demo_leases"
    using lease_sys.granted [of "?sys empty_table [Evicted inst_a ''x'' t_2026, Evicted inst_b ''x'' t_2026]"
        "[Evicted inst_a ''x'' t_2026]" inst_b "''x''" t_2026 "[]", OF _ _, of _ _ "''x''"] ins
    by (simp add: demo_leases_def)
  ultimately show ?thesis
    unfolding lease_sys_init_def by (meson converse_rtranclp_into_rtranclp r_into_rtranclp)
qed

theorem leases_exclusive_witness:
  "length (filter (holds ''x'') (ly_runs demo_leases)) \<le> 1 \<and> ly_now demo_leases \<le> inst t_2026 + 1000000000"
proof -
  have "table_ok empty_table" by (simp add: table_ok_def)
  from leases_exclusive [OF demo_leases_reachable this] show ?thesis
    by (auto simp: demo_leases_def)
qed

end
