(* ===== verification/Refine.thy ===== *)
theory Refine
  imports Daemon Leases EngineCopy
begin

text \<open>
  \<open>RunTask\<close> refines the step relation of Daemon: what one call does to the in-process registry
  and the run log, call by call in the order of its history, is a sequence of the steps by
  which runs interleave, whatever the databases do. So the invariants of the step relation
  are about the code's own runs, at every point of them. On a lease table the history of a
  run is one acquire, one renewal per page and one release.
\<close>

section \<open>Operations during a run\<close>

text \<open>On the log, between the start and the end of the run \<open>i\<close> of task \<open>n\<close>; without a row
  (\<open>i = 0\<close>) there are no events.\<close>

definition log_act :: "float_text \<Rightarrow> string \<Rightarrow> int \<Rightarrow> Store \<Rightarrow> Store \<Rightarrow> bool" where
  "log_act F n i L L' \<longleftrightarrow>
     (0 < i \<and> (\<exists>now k p oe. Event now i k p L = (oe, L'))) \<or> (\<exists>v. GetWatermark F n L = (v, L')) \<or>
     (\<exists>v oe. SetWatermark F n v L = (oe, L'))"

text \<open>The renewals of a run's lock at the clock readings \<open>ks\<close>, and the locks after each of
  them; a lock that does not expire has none.\<close>

fun scan :: "('a \<Rightarrow> 'b \<Rightarrow> 'b) \<Rightarrow> 'a list \<Rightarrow> 'b \<Rightarrow> 'b list" where
  "scan f [] l = []"
| "scan f (k # ks) l = f k l # scan f ks (f k l)"

lemma scan_append: "scan f (ks @ ks') l = scan f ks l @ scan f ks' (fold f ks l)"
  by (induction ks arbitrary: l) simp_all

definition renew_at :: "('t, 'l, 'w) Engine \<Rightarrow> 't \<Rightarrow> nat \<Rightarrow> 'l \<Rightarrow> 'l" where
  "renew_at E tok k = (case lk_Renew (en_Reg E) of None \<Rightarrow> id | Some renew \<Rightarrow> renew (en_clock E k) tok)"

text \<open>The locks among the entries of a history.\<close>

fun locks :: "('l + 's) list \<Rightarrow> 'l list" where
  "locks [] = []"
| "locks (Inl l # ts) = l # locks ts"
| "locks (Inr S # ts) = locks ts"

lemma locks_append [simp]: "locks (ts @ ts') = locks ts @ locks ts'"
  by (induction ts rule: locks.induct) simp_all

text \<open>A history in which the lock is renewed and the log is acted on, from one lock and log to
  another.\<close>

fun history ::
  "('t, 'l, 'w) Engine \<Rightarrow> 't \<Rightarrow> string \<Rightarrow> int \<Rightarrow> 'l \<Rightarrow> Store \<Rightarrow> ('l + Store) list \<Rightarrow> 'l \<Rightarrow> Store \<Rightarrow> bool" where
  "history E tok n i l L [] l' L' = (l = l' \<and> L = L')"
| "history E tok n i l L (Inl l1 # ts) l' L' =
     (lk_Renew (en_Reg E) \<noteq> None \<and> (\<exists>k. l1 = renew_at E tok k l) \<and> history E tok n i l1 L ts l' L')"
| "history E tok n i l L (Inr L1 # ts) l' L' =
     ((L1 = L \<or> log_act (en_float E) n i L L1) \<and> history E tok n i l L1 ts l' L')"

lemma history_append:
  "history E tok n i l L ts l1 L1 \<Longrightarrow> history E tok n i l1 L1 ts' l' L' \<Longrightarrow> history E tok n i l L (ts @ ts') l' L'"
  by (induction E tok n i l L ts l1 L1 rule: history.induct) auto

definition acted ::
  "('t, 'l, 'w) Engine \<Rightarrow> 't \<Rightarrow> string \<Rightarrow> int \<Rightarrow> nat list \<Rightarrow> 'l EngineState \<Rightarrow> 'l EngineState \<Rightarrow> bool" where
  "acted E tok n i ks e e' \<longleftrightarrow>
     es_ticks e \<le> es_ticks e' \<and> sorted_wrt (<) ks \<and> set ks \<subseteq> {es_ticks e..<es_ticks e'} \<and>
     es_lock e' = fold (renew_at E tok) ks (es_lock e) \<and>
     (\<exists>ts. es_trace e' = es_trace e @ ts \<and> locks ts = scan (renew_at E tok) ks (es_lock e) \<and>
       history E tok n i (es_lock e) (es_runs e) ts (es_lock e') (es_runs e'))"

lemma acted_refl [simp]: "acted E tok n i [] e e"
  by (simp add: acted_def)

lemma acted_trans:
  assumes "acted E tok n i ks e e'" "acted E tok n i ks' e' e''"
  shows "acted E tok n i (ks @ ks') e e''"
proof -
  obtain ts ts' where "es_trace e' = es_trace e @ ts" "locks ts = scan (renew_at E tok) ks (es_lock e)"
    "history E tok n i (es_lock e) (es_runs e) ts (es_lock e') (es_runs e')"
    "es_trace e'' = es_trace e' @ ts'" "locks ts' = scan (renew_at E tok) ks' (es_lock e')"
    "history E tok n i (es_lock e') (es_runs e') ts' (es_lock e'') (es_runs e'')"
    using assms by (auto simp: acted_def)
  then have "\<exists>ts. es_trace e'' = es_trace e @ ts \<and> locks ts = scan (renew_at E tok) (ks @ ks') (es_lock e) \<and>
      history E tok n i (es_lock e) (es_runs e) ts (es_lock e'') (es_runs e'')"
    using assms by (intro exI [of _ "ts @ ts'"]) (auto simp: acted_def scan_append intro: history_append)
  moreover have "sorted_wrt (<) (ks @ ks')" "set (ks @ ks') \<subseteq> {es_ticks e..<es_ticks e''}"
    using assms by (fastforce simp: acted_def sorted_wrt_append)+
  ultimately show ?thesis using assms by (simp add: acted_def)
qed

lemma acted_log:
  "L = es_runs e \<or> log_act (en_float E) n i (es_runs e) L \<Longrightarrow> es_ticks e \<le> m \<Longrightarrow>
    acted E tok n i [] e (set_runs L (e\<lparr>es_ticks := m\<rparr>))"
  by (simp add: acted_def)

lemma set_runs_ticks: "set_runs L e = set_runs L (e\<lparr>es_ticks := es_ticks e\<rparr>)"
  by simp

lemma acted_event:
  assumes "0 < i"
  shows "acted E tok n i [] e (set_runs (snd (Event now i k p (es_runs e))) (e\<lparr>es_ticks := es_ticks e + 1\<rparr>))"
proof (rule acted_log)
  have "\<exists>oe. Event now i k p (es_runs e) = (oe, snd (Event now i k p (es_runs e)))" by (metis prod.collapse)
  with assms show "snd (Event now i k p (es_runs e)) = es_runs e \<or>
      log_act (en_float E) n i (es_runs e) (snd (Event now i k p (es_runs e)))"
    unfolding log_act_def by blast
qed simp

text \<open>The end of a page renews once.\<close>

lemma page_done_acted:
  "acted E tok n i (if lk_Renew (en_Reg E) = None then [] else [es_ticks e]) e (page_done E tok i seen res e)"
proof -
  let ?ks = "if lk_Renew (en_Reg E) = None then [] else [es_ticks e]"
  define e1 where "e1 = (case lk_Renew (en_Reg E) of
      None \<Rightarrow> e
    | Some renew \<Rightarrow> set_lock (renew (en_clock E (es_ticks e)) tok (es_lock e)) (e\<lparr>es_ticks := es_ticks e + 1\<rparr>))"
  have 1: "acted E tok n i ?ks e e1"
  proof (cases "lk_Renew (en_Reg E)")
    case None
    then show ?thesis by (simp add: e1_def)
  next
    case (Some renew)
    then show ?thesis by (auto simp: acted_def e1_def renew_at_def)
  qed
  have "page_done E tok i seen res e = (if 0 < i then
      set_runs (snd (Event (en_clock E (es_ticks e1)) i ''progress''
        (PProgress seen (rr_OKRows res) (rr_FailRows res)) (es_runs e1))) (e1\<lparr>es_ticks := es_ticks e1 + 1\<rparr>) else e1)"
    by (simp add: page_done_def time_Now_def e1_def Let_def split: option.split)
  then show ?thesis using acted_trans [OF 1 acted_event [of i E tok n e1]] 1 by simp
qed

lemma prepare_query_acted:
  assumes "prepare_query (en_float E) t (es_runs e) = (q, S)"
  shows "acted E tok (tk_Name t) i [] e (set_runs S e)"
proof -
  have "S = es_runs e \<or> (\<exists>v. GetWatermark (en_float E) (tk_Name t) (es_runs e) = (v, S))"
    using assms by (auto simp: prepare_query_def Let_def split: option.splits if_splits prod.splits sum.splits)
  then have "S = es_runs e \<or> log_act (en_float E) (tk_Name t) i (es_runs e) S" by (auto simp: log_act_def)
  from acted_log [OF this, of "es_ticks e" tok] show ?thesis by simp
qed

lemma finalizeWatermark_acted: "acted E tok (tk_Name t) i [] e (finalizeWatermark E t i res wm e)"
proof (cases "0 < rr_FailRows res \<or> wt_max wm = VNil")
  case True
  then show ?thesis using acted_event [of i E tok "tk_Name t" e] by (auto simp: finalizeWatermark_def time_Now_def)
next
  case False
  obtain oe S where s: "SetWatermark (en_float E) (tk_Name t) (wt_max wm) (es_runs e) = (oe, S)"
    by (cases "SetWatermark (en_float E) (tk_Name t) (wt_max wm) (es_runs e)")
  let ?e = "set_runs S e"
  have "log_act (en_float E) (tk_Name t) i (es_runs e) S" using s by (auto simp: log_act_def)
  then have 1: "acted E tok (tk_Name t) i [] e ?e" using acted_log [of S e E "tk_Name t" i "es_ticks e" tok] by simp
  have "acted E tok (tk_Name t) i [] ?e (finalizeWatermark E t i res wm e)"
    using False s acted_event [of i E tok "tk_Name t" ?e] by (auto simp: finalizeWatermark_def time_Now_def Let_def split: option.split)
  with acted_trans [OF 1] show ?thesis by simp
qed

lemma conclude_acted:
  assumes "conclude E t i err p = (res, e')"
  shows "acted E tok (tk_Name t) i [] (ps_es p) e'" "rr_TotalRows res = ps_totalSeen p"
  using assms finalizeWatermark_acted [of E tok t i "ps_es p"]
  by (auto simp: conclude_def Let_def split: option.splits if_splits)

section \<open>Counting pages\<close>

text \<open>The pages a source cuts a number of rows into.\<close>

definition pages_of :: "int \<Rightarrow> int \<Rightarrow> nat" where
  "pages_of n seen = (nat seen + page_size n - 1) div page_size n"

lemma pages_of_0 [simp]: "pages_of n 0 = 0"
  using page_size_pos [of n] by (simp add: pages_of_def)

lemma full_page: "0 < n \<Longrightarrow> (n + c + n - 1) div n = Suc ((c + n - 1) div n)" for n c :: nat
proof -
  assume n: "0 < n"
  then have "n + c + n - 1 = (c + n - 1) + n" by simp
  with n show ?thesis by (simp only: div_add_self2)
qed

text \<open>Of pages of size \<open>n\<close>, the first \<open>m\<close> hold so many rows that \<open>m\<close> can be told from them.\<close>

lemma paged_count:
  "0 < n \<Longrightarrow> paged n pages \<Longrightarrow> m \<le> length pages \<Longrightarrow> (length (concat (take m pages)) + n - 1) div n = m"
proof (induction pages arbitrary: m)
  case (Cons p ps)
  have p: "0 < length p" "length p \<le> n" and ps: "paged n ps"
    using Cons.prems(2) by (auto simp: paged_def split: if_splits)
  show ?case
  proof (cases m)
    case (Suc k)
    show ?thesis
    proof (cases k)
      case 0
      have "(length p + n - 1) div n = 1"
        by (rule div_nat_eqI) (use p in \<open>simp_all del: length_greater_0_conv\<close>)
      then show ?thesis by (simp add: Suc 0)
    next
      case (Suc j)
      then have "ps \<noteq> []" using Cons.prems(3) \<open>m = Suc k\<close> by auto
      then have "length p = n" using Cons.prems(2) by (simp add: paged_def)
      moreover have "(length (concat (take k ps)) + n - 1) div n = k"
        using Cons.IH [OF Cons.prems(1) ps, of k] Cons.prems(3) \<open>m = Suc k\<close> by simp
      ultimately show ?thesis using full_page [OF Cons.prems(1)] by (simp only: \<open>m = Suc k\<close> take_Suc_Cons concat.simps length_append)
    qed
  qed (use Cons.prems(1) in simp)
qed simp

text \<open>What a stream keeps of the pages it accepted.\<close>

lemma feed_accepted:
  assumes acc: "\<And>dn p s s'. p \<in> set pages \<Longrightarrow> P dn s \<Longrightarrow> fn p s = Some (None, s') \<Longrightarrow> P (dn @ [p]) s'"
    and ref: "\<And>dn p s x s'. p \<in> set pages \<Longrightarrow> P dn s \<Longrightarrow> fn p s = Some (Some x, s') \<Longrightarrow> P dn s'"
    and "P dn s" "feed fn pages t s = Some (t', e, s')"
  shows "\<exists>m \<le> length pages. P (dn @ take m pages) s'"
  using assms
proof (induction pages arbitrary: dn t s)
  case (Cons p pages)
  from Cons.prems(4) obtain e1 s1 where 1: "fn p s = Some (e1, s1)" by (auto split: option.splits)
  show ?case
  proof (cases e1)
    case None
    have f: "feed fn pages (t + int (length p)) s1 = Some (t', e, s')" using Cons.prems(4) 1 None by simp
    have P1: "P (dn @ [p]) s1" using Cons.prems(1) [OF _ Cons.prems(3)] 1 None by simp
    have "\<exists>m \<le> length pages. P ((dn @ [p]) @ take m pages) s'"
      by (rule Cons.IH [OF Cons.prems(1) Cons.prems(2) P1 f]; simp)
    then obtain m where "m \<le> length pages" "P (dn @ take (Suc m) (p # pages)) s'" by auto
    then show ?thesis by (intro exI [of _ "Suc m"]) simp
  next
    case (Some x)
    then have "P dn s'" using Cons.prems(2) [OF _ Cons.prems(3)] Cons.prems(4) 1 by auto
    then show ?thesis by (intro exI [of _ 0]) simp
  qed
qed auto

section \<open>The stream and the body\<close>

text \<open>One renewal for each page of the rows seen, if the lock can be renewed.\<close>

definition renews_pages :: "('t, 'l, 'w) Engine \<Rightarrow> int \<Rightarrow> int \<Rightarrow> nat list \<Rightarrow> bool" where
  "renews_pages E n seen ks \<longleftrightarrow> lk_Renew (en_Reg E) = None \<or> length ks = pages_of n seen"

context counting_target
begin

lemma page_step_acted:
  assumes batch: "0 < tg_BatchSize (tk_Target t)" and page: "page \<noteq> []"
    and s: "page_step E tgt t tok i page s = Some (eo, s')"
  shows "case eo of
      Some x \<Rightarrow> acted E tok n i [] (ps_es (fst s)) (ps_es (fst s')) \<and> ps_totalSeen (fst s') = ps_totalSeen (fst s)
    | None \<Rightarrow> (\<exists>ks. acted E tok n i ks (ps_es (fst s)) (ps_es (fst s')) \<and> (lk_Renew (en_Reg E) = None \<or> length ks = 1)) \<and>
        ps_totalSeen (fst s') = ps_totalSeen (fst s) + int (length page)"
proof -
  obtain p w where pw: "s = (p, w)" by (cases s)
  from batch page show ?thesis
  proof (cases rule: page_step_cases [of t page E tok i p w])
    case (refused e p1)
    with s pw show ?thesis by auto
  next
    case (accepted p1 w1)
    have "acted E tok n i (if lk_Renew (en_Reg E) = None then [] else [es_ticks (ps_es p)]) (ps_es p) (ps_es p1)"
      unfolding accepted(4) by (rule page_done_acted)
    with s pw accepted show ?thesis by (auto split: if_splits)
  qed
qed

lemma run_stream_acted:
  assumes src: "paged_source src" and batch: "0 < tg_BatchSize (tk_Target t)" and res: "rr_TotalRows res = 0"
    and r: "run_stream E src tgt t tok i res (e, w) = Some (res', e', w')"
  shows "\<exists>ks. acted E tok (tk_Name t) i ks e e' \<and> renews_pages E (tk_PageSize t) (rr_TotalRows res') ks"
proof -
  obtain q S where q: "prepare_query (en_float E) t (es_runs e) = (q, S)"
    by (cases "prepare_query (en_float E) t (es_runs e)")
  let ?e = "set_runs S e"
  have 1: "acted E tok (tk_Name t) i [] e ?e" by (rule prepare_query_acted [OF q])
  show ?thesis
  proof (cases q)
    case (Inl err)
    with q r 1 res show ?thesis by (intro exI [of _ "[]"]) (auto simp: run_stream_def renews_pages_def)
  next
    case (Inr x)
    obtain query wm where x: "x = (query, wm)" by (cases x)
    let ?p = "\<lparr>ps_es = ?e, ps_res = res, ps_keysChecked = False, ps_totalSeen = 0, ps_wm = wm\<rparr>"
    from r q Inr x obtain n err p w1 where
      s: "src_Stream src query (tk_PageSize t) (page_step E tgt t tok i) (?p, w) = Some (n, err, p, w1)"
      and c: "conclude E t i err p = (res', e')"
      by (auto simp: run_stream_def split: option.splits prod.splits)
    obtain w2 pages err2 where pages: "paged (page_size (tk_PageSize t)) pages"
      and "\<forall>fn s. src_Stream src query (tk_PageSize t) fn (s, w) = end_with err2 (feed fn pages 0 (s, w2))"
      using paged_source.stream_pages [OF src, of "tk_PageSize t" query w] s by auto
    with s have "end_with err2 (feed (page_step E tgt t tok i) pages 0 (?p, w2)) = Some (n, err, p, w1)" by simp
    then obtain err3 where f: "feed (page_step E tgt t tok i) pages 0 (?p, w2) = Some (n, err3, p, w1)"
      by (rule end_with_Some)
    define P where "P = (\<lambda>(dn :: row list list) (s :: _ PageState \<times> 'w). ps_totalSeen (fst s) = int (length (concat dn)) \<and>
      (\<exists>ks. acted E tok (tk_Name t) i ks e (ps_es (fst s)) \<and> (lk_Renew (en_Reg E) = None \<or> length ks = length dn)))"
    have ne: "pg \<noteq> []" if "pg \<in> set pages" for pg using pages that by (auto simp: paged_def list_all_iff)
    have "\<exists>m \<le> length pages. P ([] @ take m pages) (p, w1)"
    proof (rule feed_accepted [OF _ _ _ f])
      show "P (dn @ [pg]) s'" if pg: "pg \<in> set pages" and P: "P dn s"
        and st: "page_step E tgt t tok i pg s = Some (None, s')" for dn pg s s'
      proof -
        from P obtain ks where ks: "acted E tok (tk_Name t) i ks e (ps_es (fst s))"
          "lk_Renew (en_Reg E) = None \<or> length ks = length dn" "ps_totalSeen (fst s) = int (length (concat dn))"
          by (auto simp: P_def)
        obtain ks' where ks': "acted E tok (tk_Name t) i ks' (ps_es (fst s)) (ps_es (fst s'))"
          "lk_Renew (en_Reg E) = None \<or> length ks' = 1" "ps_totalSeen (fst s') = ps_totalSeen (fst s) + int (length pg)"
          using page_step_acted [OF batch ne [OF pg] st, of "tk_Name t"] by auto
        have "acted E tok (tk_Name t) i (ks @ ks') e (ps_es (fst s'))" by (rule acted_trans [OF ks(1) ks'(1)])
        then show ?thesis unfolding P_def using ks(2,3) ks'(2,3) by (intro conjI exI [of _ "ks @ ks'"]) auto
      qed
      show "P dn s'" if pg: "pg \<in> set pages" and P: "P dn s"
        and st: "page_step E tgt t tok i pg s = Some (Some x, s')" for dn pg s x s'
      proof -
        have "acted E tok (tk_Name t) i [] (ps_es (fst s)) (ps_es (fst s'))" "ps_totalSeen (fst s') = ps_totalSeen (fst s)"
          using page_step_acted [OF batch ne [OF pg] st, of "tk_Name t"] by auto
        with P show ?thesis unfolding P_def using acted_trans [of E tok "tk_Name t" i _ e "ps_es (fst s)" "[]" "ps_es (fst s')"] by auto
      qed
      show "P [] (?p, w2)" unfolding P_def using 1 by (intro conjI exI [of _ "[]"]) simp_all
    qed
    then obtain m ks where m: "m \<le> length pages" "ps_totalSeen p = int (length (concat (take m pages)))"
      and ks: "acted E tok (tk_Name t) i ks e (ps_es p)" "lk_Renew (en_Reg E) = None \<or> length ks = length (take m pages)"
      by (auto simp: P_def)
    have "pages_of (tk_PageSize t) (ps_totalSeen p) = m"
      using paged_count [OF page_size_pos pages m(1)] by (simp add: pages_of_def m(2))
    with ks(2) m(1) have "renews_pages E (tk_PageSize t) (rr_TotalRows res') ks"
      by (auto simp: renews_pages_def conclude_acted(2) [OF c])
    moreover have "acted E tok (tk_Name t) i ks e e'" using acted_trans [OF ks(1) conclude_acted(1) [OF c]] by simp
    ultimately show ?thesis by blast
  qed
qed

end

context engine_contract
begin

lemma run_body_acted:
  assumes "0 < tg_BatchSize (tk_Target t)" and res: "rr_TotalRows res = 0"
    and r: "run_body E t tok i res (e, w) = Some (res', e', w')"
  shows "\<exists>ks. acted E tok (tk_Name t) i ks e e' \<and> renews_pages E (tk_PageSize t) (rr_TotalRows res') ks"
proof -
  have st: "run_stream E src tgt t tok i res (e, w2) = Some (r', e', w3) \<Longrightarrow>
      \<exists>ks. acted E tok (tk_Name t) i ks e e' \<and> renews_pages E (tk_PageSize t) (rr_TotalRows r') ks"
    if "en_OpenSource E st sd w = (Inr src, w1)" "en_OpenTarget E tt td w1 = (Inr tgt, w2)"
    for st sd tt td src tgt w w1 w2 w3 r'
    using counting_target.run_stream_acted [OF targets [OF that(2)] sources [OF that(1)] assms(1,2)] .
  have "\<exists>ks. acted E tok (tk_Name t) i ks e e \<and> renews_pages E (tk_PageSize t) 0 ks"
    by (intro exI [of _ "[]"]) (simp add: renews_pages_def)
  with r st res show ?thesis by (auto simp: run_body_def split: sum.splits prod.splits option.splits)
qed

end

section \<open>From operations to steps\<close>

text \<open>
  Steps that a history shows: each entry is the registry or the log after one step that left
  the other one alone; steps that change neither leave no entry, and a call that left the log
  as it was is no step.
\<close>

inductive goes :: "float_text \<Rightarrow> System \<Rightarrow> (Registry + Store) list \<Rightarrow> System \<Rightarrow> bool" for F where
  ended: "goes F S [] S"
| silent: "sys_step F S S1 \<Longrightarrow> sy_reg S1 = sy_reg S \<Longrightarrow> sy_log S1 = sy_log S \<Longrightarrow> goes F S1 ts S' \<Longrightarrow> goes F S ts S'"
| on_reg: "sys_step F S S1 \<Longrightarrow> sy_log S1 = sy_log S \<Longrightarrow> goes F S1 ts S' \<Longrightarrow> goes F S (Inl (sy_reg S1) # ts) S'"
| on_log: "sys_step F S S1 \<Longrightarrow> sy_reg S1 = sy_reg S \<Longrightarrow> goes F S1 ts S' \<Longrightarrow> goes F S (Inr (sy_log S1) # ts) S'"
| same_log: "goes F S ts S' \<Longrightarrow> goes F S (Inr (sy_log S) # ts) S'"

lemma goes_trans: "goes F S ts S1 \<Longrightarrow> goes F S1 ts' S' \<Longrightarrow> goes F S (ts @ ts') S'"
  by (induction rule: goes.induct) (auto intro: goes.intros)

lemma goes_reg: "sys_step F S S1 \<Longrightarrow> sy_log S1 = sy_log S \<Longrightarrow> sy_reg S1 = r \<Longrightarrow> goes F S [Inl r] S1"
  and goes_log: "sys_step F S S1 \<Longrightarrow> sy_reg S1 = sy_reg S \<Longrightarrow> sy_log S1 = L \<Longrightarrow> goes F S [Inr L] S1"
  and goes_silent: "sys_step F S S1 \<Longrightarrow> sy_reg S1 = sy_reg S \<Longrightarrow> sy_log S1 = sy_log S \<Longrightarrow> goes F S [] S1"
  using goes.on_reg [OF _ _ goes.ended] goes.on_log [OF _ _ goes.ended] goes.silent [OF _ _ _ goes.ended] by blast+

lemma goes_steps: "goes F S ts S' \<Longrightarrow> (sys_step F)\<^sup>*\<^sup>* S S'"
  by (induction rule: goes.induct) (auto intro: converse_rtranclp_into_rtranclp)

text \<open>The registry and the log as the last entries of a history left them.\<close>

fun after_entries :: "'l \<times> 's \<Rightarrow> ('l + 's) list \<Rightarrow> 'l \<times> 's" where
  "after_entries p [] = p"
| "after_entries p (Inl l # ts) = after_entries (l, snd p) ts"
| "after_entries p (Inr S # ts) = after_entries (fst p, S) ts"

text \<open>So after every part of the history the registry and the log are those of a state on the
  way.\<close>

lemma goes_midway:
  "goes F S ts S' \<Longrightarrow> ts = ts1 @ ts2 \<Longrightarrow>
    \<exists>S1. (sys_step F)\<^sup>*\<^sup>* S S1 \<and> (sys_step F)\<^sup>*\<^sup>* S1 S' \<and> (sy_reg S1, sy_log S1) = after_entries (sy_reg S, sy_log S) ts1"
proof (induction arbitrary: ts1 rule: goes.induct)
  case (ended S)
  then show ?case by (intro exI [of _ S]) simp
next
  case (silent S S1 ts S')
  from silent.IH [OF silent.prems] silent.hyps(1-3) show ?case by (metis converse_rtranclp_into_rtranclp)
next
  case (on_reg S S1 ts S')
  show ?case
  proof (cases ts1)
    case Nil
    have "goes F S (Inl (sy_reg S1) # ts) S'" by (rule goes.on_reg [OF on_reg.hyps])
    then show ?thesis using Nil by (intro exI [of _ S]) (simp add: goes_steps)
  next
    case (Cons x xs)
    with on_reg.prems have "ts = xs @ ts2" "x = Inl (sy_reg S1)" by simp_all
    with on_reg.IH [OF this(1)] on_reg.hyps(1,2) Cons show ?thesis by (metis after_entries.simps(2) converse_rtranclp_into_rtranclp snd_conv)
  qed
next
  case (on_log S S1 ts S')
  show ?case
  proof (cases ts1)
    case Nil
    have "goes F S (Inr (sy_log S1) # ts) S'" by (rule goes.on_log [OF on_log.hyps])
    then show ?thesis using Nil by (intro exI [of _ S]) (simp add: goes_steps)
  next
    case (Cons x xs)
    with on_log.prems have "ts = xs @ ts2" "x = Inr (sy_log S1)" by simp_all
    with on_log.IH [OF this(1)] on_log.hyps(1,2) Cons show ?thesis by (metis after_entries.simps(3) converse_rtranclp_into_rtranclp fst_conv)
  qed
next
  case (same_log S ts S')
  show ?case
  proof (cases ts1)
    case Nil
    then show ?thesis using same_log.hyps by (intro exI [of _ S]) (simp add: goes_steps)
  next
    case (Cons x xs)
    with same_log.prems have "ts = xs @ ts2" "x = Inr (sy_log S)" by simp_all
    with same_log.IH [OF this(1)] Cons show ?thesis by simp
  qed
qed

text \<open>The system whose registry and log are the engine's, with the runs \<open>ps\<close> in progress.\<close>

definition sys_of :: "Registry EngineState \<Rightarrow> progress list \<Rightarrow> System" where
  "sys_of e ps = \<lparr>sy_reg = es_lock e, sy_log = es_runs e, sy_runs = ps\<rparr>"

lemma sys_of_simps [simp]: "sy_reg (sys_of e ps) = es_lock e" "sy_log (sys_of e ps) = es_runs e" "sy_runs (sys_of e ps) = ps"
  by (simp_all add: sys_of_def)

text \<open>Between start and end: the row is open, or there is none.\<close>

definition in_body :: "Token \<Rightarrow> int \<Rightarrow> progress" where
  "in_body tok i = (if 0 < i then Started tok i else NoRow tok)"

lemma log_act_step:
  assumes "log_act F (tok_Name tok) i L L'" "sy_runs S = xs @ in_body tok i # ys" "sy_log S = L"
  shows "sys_step F S (S\<lparr>sy_log := L'\<rparr>)"
proof -
  have on: "Started tok i \<in> set (sy_runs S) \<or> NoRow tok \<in> set (sy_runs S)"
    using assms(2) by (simp add: in_body_def)
  consider (ev) now k p oe where "0 < i" "Event now i k p L = (oe, L')"
    | (get) v where "GetWatermark F (tok_Name tok) L = (v, L')"
    | (set) v oe where "SetWatermark F (tok_Name tok) v L = (oe, L')"
    using assms(1) by (auto simp: log_act_def)
  then show ?thesis
  proof cases
    case ev
    then show ?thesis using sys_step.event [of S xs tok i ys now k p oe L' F] assms(2,3) by (simp add: in_body_def)
  next
    case get
    then show ?thesis using sys_step.look [OF on, of F v L'] assms(3) by simp
  next
    case set
    then show ?thesis using sys_step.advance [OF on, of F v oe L'] assms(3) by simp
  qed
qed

lemma history_goes:
  assumes "history E tok (tok_Name tok) i l L ts l' L'" "lk_Renew (en_Reg E) = None"
  shows "goes (en_float E) \<lparr>sy_reg = l, sy_log = L, sy_runs = ps @ [in_body tok i]\<rparr> ts
    \<lparr>sy_reg = l', sy_log = L', sy_runs = ps @ [in_body tok i]\<rparr>"
  using assms
proof (induction E tok "tok_Name tok" i l L ts l' L' rule: history.induct)
  case (1 E tok i l L l' L')
  then show ?case by (auto intro: goes.ended)
next
  case (3 E tok i l L L1 ts l' L')
  let ?S = "\<lambda>L. \<lparr>sy_reg = l, sy_log = L, sy_runs = ps @ [in_body tok i]\<rparr>"
  have IH: "goes (en_float E) (?S L1) ts \<lparr>sy_reg = l', sy_log = L', sy_runs = ps @ [in_body tok i]\<rparr>" using 3 by simp
  show ?case
  proof (cases "L1 = L")
    case True
    then show ?thesis using goes.same_log [OF IH] by simp
  next
    case False
    with 3 have "sys_step (en_float E) (?S L) (?S L1)"
      using log_act_step [of "en_float E" tok i L L1 "?S L" ps "[]"] by simp
    then show ?thesis using goes.on_log [OF _ _ IH] by simp
  qed
qed simp

section \<open>Whole runs\<close>

lemma store_ok_next: "store_ok S \<Longrightarrow> 0 < st_run_seq S + 1"
  by (simp add: store_ok_def)

lemma StartRun_id: "StartRun now n trigger S = (Inr i, S') \<Longrightarrow> i = st_run_seq S + 1"
  by (auto elim!: StartRun_cases)

lemma run_skipped_goes:
  assumes "run_skipped E t trigger start res e = (res', e')"
  shows "\<exists>ts. es_trace e' = es_trace e @ ts \<and> goes (en_float E) (sys_of e (ps @ [Refused (tk_Name t)])) ts (sys_of e' ps)"
proof -
  define t0 where "t0 = en_clock E (es_ticks e + 1)"
  define t1 where "t1 = en_clock E (es_ticks e + 2)"
  obtain x S where s: "StartRun t0 (tk_Name t) trigger (es_runs e) = (x, S)"
    by (cases "StartRun t0 (tk_Name t) trigger (es_runs e)")
  have eqs: "rr_Status res' = Skipped" "es_lock e' = es_lock e"
    "es_runs e' = (case x of Inl _ \<Rightarrow> S | Inr i \<Rightarrow> snd (FinishRun (en_float E) t1 i res' S))"
    "es_trace e' = es_trace e @ (case x of Inl _ \<Rightarrow> [Inr S] | Inr i \<Rightarrow> [Inr S, Inr (es_runs e')])"
    using assms s unfolding t0_def t1_def
    by (auto simp: run_skipped_def time_Now_def Let_def ObserveRun_def numeral_2_eq_2 split: sum.splits prod.splits)
  let ?S = "sys_of e (ps @ [Refused (tk_Name t)])"
  have runs: "sy_runs ?S = ps @ Refused (tk_Name t) # []" by simp
  show ?thesis
  proof (cases x)
    case (Inl err)
    have "sys_step (en_float E) ?S (sys_of e' ps)"
      using sys_step.skip_lost [OF runs, of t0 trigger err S "en_float E"] s Inl eqs by (simp add: sys_of_def)
    from goes_log [OF this] Inl eqs show ?thesis by simp
  next
    case (Inr i)
    obtain oe L where f: "FinishRun (en_float E) t1 i res' S = (oe, L)" by (cases "FinishRun (en_float E) t1 i res' S")
    let ?S1 = "\<lparr>sy_reg = es_lock e, sy_log = S, sy_runs = ps @ [Skipping (tk_Name t) i]\<rparr>"
    have "sys_step (en_float E) ?S ?S1"
      using sys_step.skip_start [OF runs, of t0 trigger i S "en_float E"] s Inr by (simp add: sys_of_def)
    then have 1: "goes (en_float E) ?S [Inr S] ?S1" by (rule goes_log) simp_all
    have "sys_step (en_float E) ?S1 (sys_of e' ps)"
      using sys_step.skip_finish [of ?S1 ps "tk_Name t" i "[]" res' "en_float E" t1 oe L] f Inr eqs by (simp add: sys_of_def)
    then have "goes (en_float E) ?S1 [Inr (es_runs e')] (sys_of e' ps)" by (rule goes_log) (simp_all add: eqs(2))
    from goes_trans [OF 1 this] show ?thesis using eqs(4) Inr by auto
  qed
qed

text \<open>The end of a run: the row is finalized first, and the lock given back then.\<close>

lemma finish_entries:
  assumes "finish E t start tok i (res, e) = (res', e')"
  shows "rr_Status res' = rr_Status res" "rr_TotalRows res' = rr_TotalRows res" "es_lock e' = lk_Release (en_Reg E) tok (es_lock e)"
    "es_runs e' = (if 0 < i then snd (FinishRun (en_float E) (en_clock E (es_ticks e + 1)) i res' (es_runs e)) else es_runs e)"
    "es_trace e' = es_trace e @ (if 0 < i then [Inr (es_runs e')] else []) @ [Inl (es_lock e')]"
    "es_ticks e \<le> es_ticks e'"
  using assms by (auto simp: finish_def time_Now_def Let_def ObserveRun_def split: if_splits)

lemma finish_goes:
  assumes "finish E t start tok i (res, e) = (res', e')" "rr_Status res \<in> {Succeeded, Failed}"
    and "lk_Release (en_Reg E) tok = Release (Some tok)"
  shows "goes (en_float E) (sys_of e (ps @ [in_body tok i])) ((if 0 < i then [Inr (es_runs e')] else []) @ [Inl (es_lock e')]) (sys_of e' ps)"
proof -
  define now where "now = en_clock E (es_ticks e + 1)"
  obtain oe S where f: "FinishRun (en_float E) now i res' (es_runs e) = (oe, S)" by (cases "FinishRun (en_float E) now i res' (es_runs e)")
  note eqs = finish_entries [OF assms(1)]
  let ?S = "sys_of e (ps @ [in_body tok i])"
  let ?S1 = "\<lparr>sy_reg = es_lock e, sy_log = es_runs e', sy_runs = ps @ [Finished tok]\<rparr>"
  have "sys_step (en_float E) ?S1 (sys_of e' ps)"
    using sys_step.release [of ?S1 ps tok "[]" "en_float E"] eqs(3) assms(3) by (simp add: sys_of_def)
  then have rel: "goes (en_float E) ?S1 [Inl (es_lock e')] (sys_of e' ps)" by (rule goes_reg) simp_all
  have "goes (en_float E) ?S (if 0 < i then [Inr (es_runs e')] else []) ?S1"
  proof (cases "0 < i")
    case True
    then have "es_runs e' = S" using eqs(4) f by (simp add: now_def)
    then have "sys_step (en_float E) ?S ?S1"
      using sys_step.finish [of ?S ps tok i "[]" res' "en_float E" now oe S] f assms(2) eqs(1) True
      by (auto simp: sys_of_def in_body_def)
    then have "goes (en_float E) ?S [Inr (es_runs e')] ?S1" by (rule goes_log) simp_all
    with True show ?thesis by simp
  next
    case False
    then have "sys_step (en_float E) ?S ?S1"
      using sys_step.finish_lost [of ?S ps tok "[]" "en_float E"] eqs(4) by (simp add: sys_of_def in_body_def)
    then have "goes (en_float E) ?S [] ?S1" by (rule goes_silent) (use False eqs(4) in simp_all)
    with False show ?thesis by simp
  qed
  from goes_trans [OF this rel] show ?thesis .
qed

lemma Acquire_name: "Acquire n r = (Some tok, r') \<Longrightarrow> tok_Name tok = n"
  by (auto simp: Acquire_Some)

lemma start_goes:
  assumes a: "Acquire n (es_lock e) = (Some tok, l)" and s: "StartRun now n trigger (es_runs e) = (r, S)"
    and ok: "store_ok (es_runs e)"
  shows "goes F (sys_of e ps) [Inl l, Inr S]
    (sys_of (started_state l S e) (ps @ [in_body tok (case r of Inl _ \<Rightarrow> 0 | Inr i \<Rightarrow> i)]))" (is "goes F _ _ ?S2")
proof -
  let ?S1 = "\<lparr>sy_reg = l, sy_log = es_runs e, sy_runs = ps @ [Locked tok]\<rparr>"
  have "sys_step F (sys_of e ps) ?S1"
    using sys_step.lock [of n "sys_of e ps" tok l F] a by (simp add: sys_of_def)
  then have 1: "goes F (sys_of e ps) [Inl l] ?S1" by (rule goes_reg) simp_all
  have "sys_step F ?S1 ?S2"
  proof (cases r)
    case (Inl err)
    then show ?thesis using sys_step.start_lost [of ?S1 ps tok "[]" now trigger err S F] s Acquire_name [OF a]
      by (simp add: in_body_def sys_of_def)
  next
    case (Inr i)
    then have "0 < i" using StartRun_id s store_ok_next [OF ok] by simp
    then show ?thesis using sys_step.start [of ?S1 ps tok "[]" now trigger i S F] s Inr Acquire_name [OF a]
      by (simp add: in_body_def sys_of_def)
  qed
  then have "goes F ?S1 [Inr S] ?S2" by (rule goes_log) simp_all
  from goes_trans [OF 1 this] show ?thesis by simp
qed

lemma daemon_engine_parts:
  "lk_Acquire (en_Reg (NewEngine D registry_locker clk F)) = (\<lambda>_. Acquire)"
  "lk_Release (en_Reg (NewEngine D registry_locker clk F)) tok = Release (Some tok)"
  "lk_Renew (en_Reg (NewEngine D registry_locker clk F)) = None"
  "en_float (NewEngine D registry_locker clk F) = F" "en_clock (NewEngine D registry_locker clk F) = clk"
  by (simp_all add: NewEngine_def registry_locker_def)

lemma RunTask_refused_goes:
  assumes a: "Acquire (tk_Name t) (es_lock e) = (None, l)"
    and run: "RunTask (NewEngine D registry_locker clk F) t trigger (e, w) = Some (res, e', w')"
  shows "\<exists>ts. es_trace e' = es_trace e @ ts \<and> goes F (sys_of e ps) ts (sys_of e' ps)"
proof -
  let ?E = "NewEngine D registry_locker clk F"
  let ?e = "refused_state l e"
  have "run_skipped ?E t trigger (clk (es_ticks e)) (empty_result (tk_Name t) trigger) ?e = (res, e')"
    using run prog.RunTask_skipped [of D registry_locker clk F e t l trigger w] a
    by (auto simp: daemon_engine_parts split: prod.splits)
  from run_skipped_goes [OF this, unfolded daemon_engine_parts] obtain ts where
    ts: "es_trace e' = es_trace ?e @ ts" "goes F (sys_of ?e (ps @ [Refused (tk_Name t)])) ts (sys_of e' ps)" by blast
  have "sys_step F (sys_of e ps) (sys_of ?e (ps @ [Refused (tk_Name t)]))"
    using sys_step.refuse [of "tk_Name t" "sys_of e ps" l F] a by (simp add: sys_of_def)
  then have "goes F (sys_of e ps) [Inl l] (sys_of ?e (ps @ [Refused (tk_Name t)]))" by (rule goes_reg) simp_all
  from goes_trans [OF this ts(2)] ts(1) show ?thesis by auto
qed

lemma RunTask_locked_goes:
  assumes a: "Acquire (tk_Name t) (es_lock e) = (Some tok, l)"
    and run: "RunTask (NewEngine D registry_locker clk F) t trigger (e, w) = Some (res, e', w')"
    and batch: "0 < tg_BatchSize (tk_Target t)" and ok: "store_ok (es_runs e)"
  shows "\<exists>ts. es_trace e' = es_trace e @ ts \<and> goes F (sys_of e ps) ts (sys_of e' ps)"
proof -
  let ?E = "NewEngine D registry_locker clk F"
  obtain r S where s: "StartRun (clk (es_ticks e + 2)) (tk_Name t) trigger (es_runs e) = (r, S)"
    by (cases "StartRun (clk (es_ticks e + 2)) (tk_Name t) trigger (es_runs e)")
  define i where "i = (case r of Inl _ \<Rightarrow> 0 | Inr i \<Rightarrow> i)"
  let ?e = "started_state l S e"
  obtain res1 e1 w1 where
    b: "run_body ?E t tok i (empty_result (tk_Name t) trigger) (?e, w) = Some (res1, e1, w1)"
    and o: "outcome (empty_result (tk_Name t) trigger) res1"
    and c: "RunTask ?E t trigger (e, w) =
      (case finish ?E t (clk (es_ticks e)) tok i (res1, e1) of (res, e') \<Rightarrow> Some (res, e', w1))"
    using prog.RunTask_acquired [of D registry_locker clk F e t tok l trigger r S w, unfolded daemon_engine_parts]
      a s batch run unfolding i_def by auto
  from c run have f: "finish ?E t (clk (es_ticks e)) tok i (res1, e1) = (res, e')" by (simp split: prod.splits)
  have "goes F (sys_of e ps) [Inl l, Inr S] (sys_of ?e (ps @ [in_body tok i]))"
    unfolding i_def by (rule start_goes [OF a s ok])
  moreover obtain ts where ts: "es_trace e1 = es_trace ?e @ ts"
    "history ?E tok (tok_Name tok) i (es_lock ?e) (es_runs ?e) ts (es_lock e1) (es_runs e1)"
    using prog.run_body_acted [OF batch _ b] by (auto simp: acted_def Acquire_name [OF a] empty_result_def)
  moreover have "goes F (sys_of ?e (ps @ [in_body tok i])) ts (sys_of e1 (ps @ [in_body tok i]))"
    unfolding sys_of_def using history_goes [OF ts(2), of ps] by (simp add: daemon_engine_parts)
  moreover have "goes F (sys_of e1 (ps @ [in_body tok i])) ((if 0 < i then [Inr (es_runs e')] else []) @ [Inl (es_lock e')]) (sys_of e' ps)"
    by (rule finish_goes [OF f, unfolded daemon_engine_parts]) (use o in \<open>auto simp: outcome_def daemon_engine_parts\<close>)
  ultimately have "goes F (sys_of e ps) ([Inl l, Inr S] @ ts @ (if 0 < i then [Inr (es_runs e')] else []) @ [Inl (es_lock e')]) (sys_of e' ps)"
    by (blast intro: goes_trans)
  moreover have "es_trace e' = es_trace e @ ([Inl l, Inr S] @ ts @ (if 0 < i then [Inr (es_runs e')] else []) @ [Inl (es_lock e')])"
    using finish_entries(5) [OF f] ts(1) by simp
  ultimately show ?thesis by blast
qed

section \<open>Property\<close>

text \<open>
  C13: the code's runs are the runs of the step relation, call by call: one call of \<open>RunTask\<close>
  on the in-process locker returns, and the history it leaves (the registry and the log after
  each call on either, in the order of the calls) is step for step a path of the relation that
  starts a run, acts for it, finalizes its row and only then gives the lock back, beside any
  runs already in progress, whatever the databases do and whatever log statements fail. So
  after each of these calls the registry and the log are those of a state on that path, and
  what is invariant under the steps holds of them.
\<close>
theorem run_task_is_steps:
  assumes "0 < tg_BatchSize (tk_Target t)" "tk_PageSize t \<le> maxPageCap" and ok: "store_ok (es_runs e)"
  shows "\<exists>res e' w' ts. RunTask (NewEngine D registry_locker clk F) t trigger (e, w) = Some (res, e', w') \<and>
    es_trace e' = es_trace e @ ts \<and>
    goes F \<lparr>sy_reg = es_lock e, sy_log = es_runs e, sy_runs = ps\<rparr> ts
      \<lparr>sy_reg = es_lock e', sy_log = es_runs e', sy_runs = ps\<rparr> \<and>
    (\<forall>k. \<exists>S. (sys_step F)\<^sup>*\<^sup>* \<lparr>sy_reg = es_lock e, sy_log = es_runs e, sy_runs = ps\<rparr> S \<and>
      (sy_reg S, sy_log S) = after_entries (es_lock e, es_runs e) (take k ts))"
proof -
  have "sizes_ok t" using assms(1,2) by (simp add: sizes_ok_def)
  then obtain res e' w' where r: "RunTask (NewEngine D registry_locker clk F) t trigger (e, w) = Some (res, e', w')"
    by (rule prog.RunTask_returns)
  obtain x l where a: "Acquire (tk_Name t) (es_lock e) = (x, l)" by (cases "Acquire (tk_Name t) (es_lock e)")
  obtain ts where ts: "es_trace e' = es_trace e @ ts" "goes F (sys_of e ps) ts (sys_of e' ps)"
    using RunTask_refused_goes [OF _ r] RunTask_locked_goes [OF _ r assms(1) ok] a by (cases x) blast+
  have "\<exists>S. (sys_step F)\<^sup>*\<^sup>* (sys_of e ps) S \<and> (sy_reg S, sy_log S) = after_entries (es_lock e, es_runs e) (take k ts)" for k
    using goes_midway [OF ts(2), of "take k ts" "drop k ts"] by auto
  with r ts show ?thesis unfolding sys_of_def by blast
qed

text \<open>On a healthy log, at every point of the demonstration run the rows still running are the
  open rows of the runs in progress, and there is never more than one.\<close>

theorem run_task_is_steps_witness:
  "\<exists>res e' w'. RunTask (demo_engine never) demo_task ''manual'' (demo_state, []) = Some (res, e', w') \<and>
    (sys_step bits_text)\<^sup>*\<^sup>* (sys_init new_store) \<lparr>sy_reg = es_lock e', sy_log = es_runs e', sy_runs = []\<rparr> \<and>
    (\<forall>k. \<exists>S. log_inv S \<and> lock_inv S \<and>
      (sy_reg S, sy_log S) = after_entries (NewRegistry, new_store) (take k (es_trace e')))"
proof -
  have "0 < tg_BatchSize (tk_Target demo_task)" "tk_PageSize demo_task \<le> maxPageCap" "store_ok (es_runs demo_state)"
    by (simp_all add: demo_task_def demo_state_def store_ok_def new_store_def maxPageCap_def)
  from run_task_is_steps [OF this, of "demo_drivers never" demo_clock bits_text "''manual''" "[]" "[]"]
  obtain res e' w' where r: "RunTask (demo_engine never) demo_task ''manual'' (demo_state, []) = Some (res, e', w')"
    and g: "goes bits_text (sys_init new_store) (es_trace e') \<lparr>sy_reg = es_lock e', sy_log = es_runs e', sy_runs = []\<rparr>"
    and k: "\<forall>k. \<exists>S. (sys_step bits_text)\<^sup>*\<^sup>* (sys_init new_store) S \<and>
      (sy_reg S, sy_log S) = after_entries (NewRegistry, new_store) (take k (es_trace e'))"
    by (auto simp: demo_engine_def sys_init_def demo_state_def)
  have h: "healthy_log new_store" "running_ids new_store = []"
    by (simp_all add: healthy_log_def store_ok_def new_store_def running_ids_def)
  have "log_inv S \<and> lock_inv S" if "(sys_step bits_text)\<^sup>*\<^sup>* (sys_init new_store) S" for S
    using reachable_log_inv [OF _ h] reachable_lock_inv that by (auto simp: reachable_def)
  with r k goes_steps [OF g] show ?thesis by blast
qed

section \<open>Runs on a lease table\<close>

lemma lease_engine_parts:
  "lk_Acquire (en_Reg (NewEngine D (lease_locker l) clk F)) = LeaseAcquire l"
  "lk_Release (en_Reg (NewEngine D (lease_locker l) clk F)) tok = LeaseRelease l (Some tok)"
  "lk_Renew (en_Reg (NewEngine D (lease_locker l) clk F)) = Some (\<lambda>now tok. LeaseRenew l now (Some tok))"
  "en_clock (NewEngine D (lease_locker l) clk F) = clk"
  by (simp_all add: NewEngine_def lease_locker_def)

text \<open>The statements of a run after its acquire: the renewals at the readings \<open>ks\<close> and the release.\<close>

definition renew_release :: "Lease \<Rightarrow> (nat \<Rightarrow> gotime) \<Rightarrow> Token \<Rightarrow> nat list \<Rightarrow> lease_op list" where
  "renew_release l clk tok ks = map (\<lambda>k. LRenew l (clk k) tok) ks @ [LRelease l tok]"

lemma fold_renew: "fold (\<lambda>k. LeaseRenew l (clk k) (Some tok)) ks T = lease_run (map (\<lambda>k. LRenew l (clk k) tok) ks) T"
  by (induction ks arbitrary: T) (simp_all add: lease_run_def)

lemma scan_renew: "scan (\<lambda>k. LeaseRenew l (clk k) (Some tok)) ks T = scan lease_step (map (\<lambda>k. LRenew l (clk k) tok) ks) T"
  by (induction ks arbitrary: T) simp_all

lemma run_skipped_lock:
  "run_skipped E t trigger start res e = (res', e') \<Longrightarrow>
    es_lock e' = es_lock e \<and> rr_Status res' = Skipped \<and> (\<exists>ts. es_trace e' = es_trace e @ ts \<and> locks ts = [])"
  by (auto simp: run_skipped_def time_Now_def Let_def ObserveRun_def split: sum.splits prod.splits)

text \<open>A run on a lease table, by what its acquire says.\<close>

definition refused_run :: "Task \<Rightarrow> LeaseTable EngineState \<Rightarrow> LeaseTable \<Rightarrow> RunResult \<Rightarrow> LeaseTable EngineState \<Rightarrow> bool" where
  "refused_run t e T res e' \<longleftrightarrow> rr_Status res = Skipped \<and> es_lock e' = T \<and>
     (\<exists>ts. es_trace e' = es_trace e @ ts \<and> locks ts = [T])"

definition granted_run ::
  "Lease \<Rightarrow> (nat \<Rightarrow> gotime) \<Rightarrow> Task \<Rightarrow> LeaseTable EngineState \<Rightarrow> Token \<Rightarrow> LeaseTable \<Rightarrow> RunResult \<Rightarrow>
    LeaseTable EngineState \<Rightarrow> bool" where
  "granted_run l clk t e tok T res e' \<longleftrightarrow> rr_Status res \<noteq> Skipped \<and> tok_Name tok = tk_Name t \<and>
     (\<exists>ks ts. sorted_wrt (<) ks \<and> set ks \<subseteq> {es_ticks e + 3..<es_ticks e'} \<and>
        length ks = pages_of (tk_PageSize t) (rr_TotalRows res) \<and>
        es_lock e' = lease_run (renew_release l clk tok ks) T \<and>
        es_trace e' = es_trace e @ ts \<and> locks ts = T # scan lease_step (renew_release l clk tok ks) T \<and>
        last ts = Inl (es_lock e'))"

lemma RunTask_lease:
  assumes sizes: "sizes_ok t"
  obtains (refused) T res e' where
    "LeaseAcquire l (clk (es_ticks e + 1)) (tk_Name t) (es_lock e) = (None, T)"
    "RunTask (NewEngine D (lease_locker l) clk F) t trigger (e, w) = Some (res, e', w)"
    "refused_run t e T res e'"
  | (granted) tok T res e' w' where
    "LeaseAcquire l (clk (es_ticks e + 1)) (tk_Name t) (es_lock e) = (Some tok, T)"
    "RunTask (NewEngine D (lease_locker l) clk F) t trigger (e, w) = Some (res, e', w')"
    "granted_run l clk t e tok T res e'"
proof -
  let ?E = "NewEngine D (lease_locker l) clk F"
  obtain x T where a: "LeaseAcquire l (clk (es_ticks e + 1)) (tk_Name t) (es_lock e) = (x, T)"
    by (cases "LeaseAcquire l (clk (es_ticks e + 1)) (tk_Name t) (es_lock e)")
  show thesis
  proof (cases x)
    case None
    obtain res e' where r: "run_skipped ?E t trigger (clk (es_ticks e)) (empty_result (tk_Name t) trigger)
        (refused_state T e) = (res, e')"
      by (metis surj_pair)
    have "RunTask ?E t trigger (e, w) = Some (res, e', w)"
      using prog.RunTask_skipped [of D "lease_locker l" clk F e t T trigger w] a None r by (simp add: lease_engine_parts)
    moreover have "refused_run t e T res e'" using run_skipped_lock [OF r] by (auto simp: refused_run_def)
    ultimately show thesis using a None by (intro refused [of T res e']) simp_all
  next
    case (Some tok)
    obtain res e' w' where run: "RunTask ?E t trigger (e, w) = Some (res, e', w')"
      by (rule prog.RunTask_returns [OF sizes])
    have batch: "0 < tg_BatchSize (tk_Target t)" using sizes by (simp add: sizes_ok_def)
    obtain r S where s: "StartRun (clk (es_ticks e + 2)) (tk_Name t) trigger (es_runs e) = (r, S)"
      by (cases "StartRun (clk (es_ticks e + 2)) (tk_Name t) trigger (es_runs e)")
    define i where "i = (case r of Inl _ \<Rightarrow> 0 | Inr i \<Rightarrow> i)"
    let ?e = "started_state T S e"
    obtain res1 e1 w1 where
      b: "run_body ?E t tok i (empty_result (tk_Name t) trigger) (?e, w) = Some (res1, e1, w1)"
      and o: "outcome (empty_result (tk_Name t) trigger) res1"
      and c: "RunTask ?E t trigger (e, w) =
        (case finish ?E t (clk (es_ticks e)) tok i (res1, e1) of (res, e') \<Rightarrow> Some (res, e', w1))"
      using prog.RunTask_acquired [of D "lease_locker l" clk F e t tok T trigger r S w, unfolded lease_engine_parts]
        a s batch Some run unfolding i_def by auto
    from c run have f: "finish ?E t (clk (es_ticks e)) tok i (res1, e1) = (res, e')" by (simp split: prod.splits)
    note fin = finish_entries [OF f, unfolded lease_engine_parts]
    have ren: "renew_at ?E tok = (\<lambda>k. LeaseRenew l (clk k) (Some tok))"
      by (simp add: renew_at_def lease_engine_parts fun_eq_iff)
    obtain ks where ks: "acted ?E tok (tk_Name t) i ks ?e e1" "renews_pages ?E (tk_PageSize t) (rr_TotalRows res1) ks"
      using prog.run_body_acted [OF batch _ b] by (auto simp: empty_result_def)
    obtain ts where ts: "es_trace e1 = es_trace ?e @ ts" "locks ts = scan lease_step (map (\<lambda>k. LRenew l (clk k) tok) ks) T"
      using ks(1) by (auto simp: acted_def ren scan_renew)
    have lock1: "es_lock e1 = lease_run (map (\<lambda>k. LRenew l (clk k) tok) ks) T"
      using ks(1) by (simp add: acted_def ren fold_renew)
    then have lock: "es_lock e' = lease_run (renew_release l clk tok ks) T"
      using fin(3) by (simp add: renew_release_def lease_run_def)
    define ts' where "ts' = [Inl T, Inr S] @ ts @ (if 0 < i then [Inr (es_runs e')] else []) @ [Inl (es_lock e')]"
    have "es_trace e' = es_trace e @ ts'" using fin(5) ts(1) by (simp add: ts'_def)
    moreover have "locks ts' = T # scan lease_step (renew_release l clk tok ks) T" "last ts' = Inl (es_lock e')"
      using lock by (auto simp: ts'_def ts(2) renew_release_def scan_append lease_run_def)
    moreover have "length ks = pages_of (tk_PageSize t) (rr_TotalRows res)"
      using ks(2) fin(2) by (simp add: renews_pages_def lease_engine_parts)
    moreover have "sorted_wrt (<) ks" "set ks \<subseteq> {es_ticks e + 3..<es_ticks e'}"
      using ks(1) fin(6) by (fastforce simp: acted_def)+
    moreover have "rr_Status res \<noteq> Skipped" using o fin(1) by (auto simp: outcome_def)
    moreover have "tok_Name tok = tk_Name t" using LeaseAcquire_Some(1) a Some by blast
    ultimately have "granted_run l clk t e tok T res e'" using lock unfolding granted_run_def by blast
    then show thesis using a Some run by (intro granted [of tok T res e' w']) simp_all
  qed
qed

lemma lease_run_own:
  assumes "\<forall>r \<in> set rows. lr_name r \<noteq> tok_Name tok" "lt_faults T = []"
    and "lt_rows T = rows @ [r]" "lr_name r = tok_Name tok" "lr_owner r = ls_owner l"
  shows "lt_rows (lease_run (map (\<lambda>k. LRenew l (clk k) tok) ks @ [LRelease l tok]) T) = rows"
  using assms(2-)
proof (induction ks arbitrary: T r)
  case Nil
  have "filter (\<lambda>r. \<not> (lr_name r = tok_Name tok \<and> lr_owner r = ls_owner l)) rows = rows"
    using assms(1) by (simp add: filter_id_conv)
  with Nil show ?case by (simp add: lease_run_def LeaseRelease_def lease_fault_none)
next
  case (Cons k ks)
  let ?T = "LeaseRenew l (clk k) (Some tok) T"
  let ?r = "r\<lparr>lr_expires_at := fmt_lease (add_time (utc (clk k)) (ls_ttl l))\<rparr>"
  have "lt_rows ?T = rows @ [?r]"
  proof -
    have "map (\<lambda>r. if lr_name r = tok_Name tok \<and> lr_owner r = ls_owner l
        then r\<lparr>lr_expires_at := fmt_lease (add_time (utc (clk k)) (ls_ttl l))\<rparr> else r) rows = rows"
      using assms(1) by (intro map_idI) simp
    then show ?thesis using LeaseRenew_done [of T l "clk k" tok] Cons.prems by (simp add: lease_fault_none)
  qed
  moreover have "lt_faults ?T = []" using Cons.prems(1) by (simp add: LeaseRenew_def lease_fault_none)
  ultimately have "lt_rows (lease_run (map (\<lambda>k. LRenew l (clk k) tok) ks @ [LRelease l tok]) ?T) = rows"
    using Cons.prems(3,4) by (intro Cons.IH [of ?T ?r]) simp_all
  then show ?case by (simp add: lease_run_def)
qed

text \<open>
  C14: what a run does to a shared lease table is one acquire, one renewal for each page of the
  rows it accepted, at clock readings taken during the run, in order, and last of all its calls
  one release of the token it was given; the history of the run holds the table as each of
  these statements leaves it, and no other. A refused run leaves the table to the acquire
  alone.
\<close>
theorem run_task_lease_ops:
  assumes "0 < tg_BatchSize (tk_Target t)" "tk_PageSize t \<le> maxPageCap"
  shows "\<exists>res e' w'. RunTask (NewEngine D (lease_locker l) clk F) t trigger (e, w) = Some (res, e', w') \<and>
    (case LeaseAcquire l (clk (es_ticks e + 1)) (tk_Name t) (es_lock e) of
       (None, T) \<Rightarrow> rr_Status res = Skipped \<and> es_lock e' = T \<and>
         (\<exists>ts. es_trace e' = es_trace e @ ts \<and> locks ts = [T])
     | (Some tok, T) \<Rightarrow> rr_Status res \<noteq> Skipped \<and> tok_Name tok = tk_Name t \<and>
         (\<exists>ks ts. sorted_wrt (<) ks \<and> set ks \<subseteq> {es_ticks e + 3..<es_ticks e'} \<and>
            length ks = pages_of (tk_PageSize t) (rr_TotalRows res) \<and>
            es_lock e' = lease_run (renew_release l clk tok ks) T \<and>
            es_trace e' = es_trace e @ ts \<and> locks ts = T # scan lease_step (renew_release l clk tok ks) T \<and>
            last ts = Inl (es_lock e')))"
proof -
  have "sizes_ok t" using assms by (simp add: sizes_ok_def)
  then show ?thesis
  proof (cases rule: RunTask_lease [where l = l and clk = clk and e = e and D = D and F = F and trigger = trigger and w = w])
    case (refused T res e')
    then show ?thesis unfolding refused_run_def by (intro exI [of _ res] exI [of _ e'] exI [of _ w]) simp
  next
    case (granted tok T res e' w')
    then show ?thesis unfolding granted_run_def by (intro exI [of _ res] exI [of _ e'] exI [of _ w']) auto
  qed
qed

text \<open>
  C21: a run on a shared lease table whose statements go through leaves exactly the leases of
  others: those that had not expired when it acquired, unchanged, and none of its own,
  whether the run was skipped, succeeded or failed.
\<close>
theorem leases_as_before_after_run:
  assumes "0 < tg_BatchSize (tk_Target t)" "tk_PageSize t \<le> maxPageCap" "lt_faults (es_lock e) = []"
  shows "\<exists>res e' w'. RunTask (NewEngine D (lease_locker l) clk F) t trigger (e, w) = Some (res, e', w') \<and>
    lt_rows (es_lock e') = live_rows (clk (es_ticks e + 1)) (es_lock e)"
proof -
  have "sizes_ok t" using assms by (simp add: sizes_ok_def)
  then show ?thesis
  proof (cases rule: RunTask_lease [where l = l and clk = clk and e = e and D = D and F = F and trigger = trigger and w = w])
    case (refused T res e')
    then have "es_lock e' = (es_lock e)\<lparr>lt_rows := live_rows (clk (es_ticks e + 1)) (es_lock e)\<rparr>"
      by (simp add: LeaseAcquire_no_faults [OF assms(3)] refused_run_def split: if_splits)
    with refused(2) show ?thesis by simp
  next
    case (granted tok T res e' w')
    from granted(3) obtain ks where g: "tok_Name tok = tk_Name t" "es_lock e' = lease_run (renew_release l clk tok ks) T"
      by (auto simp: granted_run_def)
    have "\<forall>r \<in> set (live_rows (clk (es_ticks e + 1)) (es_lock e)). lr_name r \<noteq> tok_Name tok"
      using LeaseAcquire_Some(2) [OF granted(1)] g(1) by simp
    moreover have "lt_faults T = []"
      using granted(1) assms(3) by (auto simp: LeaseAcquire_no_faults [OF assms(3)] split: if_splits)
    ultimately have "lt_rows (es_lock e') = live_rows (clk (es_ticks e + 1)) (es_lock e)"
      unfolding g(2) renew_release_def
      by (rule lease_run_own [OF _ _ LeaseAcquire_Some(3) [OF granted(1)]]) (simp_all add: new_row_def g(1))
    with granted(2) show ?thesis by blast
  qed
qed

text \<open>The demonstration task on the lease table of another instance that holds another task.\<close>

definition leased_state :: "LeaseTable EngineState" where
  "leased_state = \<lparr>es_lock = \<lparr>lt_rows = [new_row inst_b (demo_clock 1) ''u''], lt_faults = []\<rparr>,
     es_runs = new_store, es_met = [], es_ticks = 0, es_trace = []\<rparr>"

lemma demo_sizes_plain: "0 < tg_BatchSize (tk_Target demo_task)" "tk_PageSize demo_task \<le> maxPageCap"
  by (simp_all add: demo_task_def maxPageCap_def)

lemma leased_acquire:
  obtains tok T where "LeaseAcquire inst_a (demo_clock (es_ticks leased_state + 1)) (tk_Name demo_task) (es_lock leased_state) = (Some tok, T)"
proof -
  have "lt_faults (es_lock leased_state) = []"
    "\<not> (\<exists>r \<in> set (live_rows (demo_clock 1) (es_lock leased_state)). lr_name r = ''t'')"
    "es_ticks leased_state = 0" "tk_Name demo_task = ''t''"
    by (auto simp: leased_state_def live_rows_def new_row_def demo_task_def)
  then show thesis using that by (simp add: LeaseAcquire_no_faults)
qed

lemma leased_demo_run:
  "\<exists>res e' w'. RunTask (NewEngine (demo_drivers is_null) (lease_locker inst_a) demo_clock bits_text) demo_task ''cron''
      (leased_state, []) = Some (res, e', w') \<and> rr_TotalRows res = 3"
proof -
  obtain tok T where a: "LeaseAcquire inst_a (demo_clock (es_ticks leased_state + 1)) (tk_Name demo_task) (es_lock leased_state) = (Some tok, T)"
    by (rule leased_acquire)
  have acq: "lk_Acquire (lease_locker inst_a) (demo_clock (es_ticks leased_state + 1)) (tk_Name demo_task) (es_lock leased_state) = (Some tok, T)"
    using a by (simp add: lease_locker_def)
  have t: "tg_Mode (tk_Target demo_task) = ''upsert''" "tg_Table (tk_Target demo_task) = ''users''"
    "tg_Keys (tk_Target demo_task) = [''id'']" "\<not> tg_Bulk (tk_Target demo_task)" "tk_Incremental demo_task = None"
    "st_faults (es_runs leased_state) = []"
    by (simp_all add: demo_task_def leased_state_def new_store_def)
  have y: "source_yields (demo_drivers is_null) demo_task (ep_Query (tk_Source demo_task)) [] demo_conn [''id'', ''v''] demo_rows []"
    by (rule demo_yields) (simp_all add: t, simp_all add: demo_task_def maxPageCap_def)
  have q: "fst (prepare_query bits_text demo_task (es_runs leased_state)) = Inr (ep_Query (tk_Source demo_task), None)"
    by (simp add: prepare_query_def t Let_def)
  have o: "observe_page None (rows_of [''id'', ''v''] demo_rows) = (None, None)" by (simp add: observe_page_def)
  have len: "length (rows_of [''id'', ''v''] demo_rows) = 3" by (simp add: demo_rows_of)
  show ?thesis
    using run_good [where reg = "lease_locker inst_a" and clk = demo_clock and e = leased_state and t = demo_task
      and trigger = "''cron''", OF acq t(6) q y demo_atomic [OF t(1-3)] t(4) demo_sizes_plain(1) o]
    by (auto simp: copied_def len)
qed

text \<open>Its three rows fit one page: one renewal.\<close>

theorem run_task_lease_ops_witness:
  "\<exists>res e' w' tok T k. RunTask (NewEngine (demo_drivers is_null) (lease_locker inst_a) demo_clock bits_text) demo_task ''cron''
      (leased_state, []) = Some (res, e', w') \<and> rr_TotalRows res = 3 \<and> tok_Name tok = ''t'' \<and> 3 \<le> k \<and>
    LeaseAcquire inst_a (demo_clock 1) ''t'' (es_lock leased_state) = (Some tok, T) \<and>
    es_lock e' = LeaseRelease inst_a (Some tok) (LeaseRenew inst_a (demo_clock k) (Some tok) T) \<and>
    locks (es_trace e') = [T, LeaseRenew inst_a (demo_clock k) (Some tok) T, es_lock e']"
proof -
  obtain tok T where a: "LeaseAcquire inst_a (demo_clock (es_ticks leased_state + 1)) (tk_Name demo_task) (es_lock leased_state) = (Some tok, T)"
    by (rule leased_acquire)
  obtain res e' w' where r: "RunTask (NewEngine (demo_drivers is_null) (lease_locker inst_a) demo_clock bits_text) demo_task ''cron''
      (leased_state, []) = Some (res, e', w')" "rr_TotalRows res = 3"
    using leased_demo_run by blast
  have n: "es_ticks leased_state = 0" "es_trace leased_state = []" "tk_Name demo_task = ''t''"
    by (simp_all add: leased_state_def demo_task_def)
  have one: "pages_of (tk_PageSize demo_task) 3 = 1"
    by (simp add: pages_of_def page_size_def demo_task_def)
  obtain ks where ks: "set ks \<subseteq> {es_ticks leased_state + 3..<es_ticks e'}" "length ks = 1" "tok_Name tok = ''t''"
    "es_lock e' = lease_run (renew_release inst_a demo_clock tok ks) T"
    "locks (es_trace e') = T # scan lease_step (renew_release inst_a demo_clock tok ks) T"
    using run_task_lease_ops [OF demo_sizes_plain, where D = "demo_drivers is_null" and l = inst_a and clk = demo_clock
      and F = bits_text and trigger = "''cron''" and e = leased_state and w = "[]"]
    unfolding a r(1) by (auto simp: r(2) one n)
  obtain k where k: "ks = [k]" using ks(2) by (auto simp: length_Suc_conv)
  show ?thesis using r a ks k n
    by (intro exI [of _ res] exI [of _ e'] exI [of _ w'] exI [of _ tok] exI [of _ T] exI [of _ k])
      (simp add: renew_release_def lease_run_def)
qed

theorem leases_as_before_after_run_witness:
  "\<exists>res e' w'. RunTask (NewEngine (demo_drivers never) (lease_locker inst_a) demo_clock bits_text) demo_task ''cron''
      (leased_state, []) = Some (res, e', w') \<and>
    lt_rows (es_lock e') = live_rows (demo_clock 1) (es_lock leased_state)"
proof -
  have "lt_faults (es_lock leased_state) = []" by (simp add: leased_state_def)
  from leases_as_before_after_run [OF demo_sizes_plain this, of "demo_drivers never" inst_a demo_clock bits_text "''cron''" "[]"]
  show ?thesis by (simp add: leased_state_def)
qed

end
