(* ===== verification/Cli.thy ===== *)
theory Cli
  imports Daemon
begin

text \<open>
  \<open>internal/cli\<close>: what each command does after its flags are read. Output lines are the
  argument lists of their \<open>Printf\<close> calls; the flag parser, the terminal and the alignment of
  columns are the library's. A command's result is the error it returns, which
  \<open>Execute\<close> turns into exit status 1.
\<close>

type_synonym line = "arg list"

definition exit_status :: "error option \<Rightarrow> int" where
  "exit_status err = (case err of None \<Rightarrow> 0 | Some _ \<Rightarrow> 1)"

section \<open>run\<close>

text \<open>\<open>res.Err\<close> of a run without an error is the empty string.\<close>

definition err_arg :: "error option \<Rightarrow> arg" where
  "err_arg e = (case e of None \<Rightarrow> AStr [] | Some e \<Rightarrow> AErr e)"

text \<open>The loop over the tasks: runs so far, failures so far, lines on standard error.\<close>

fun run_tasks ::
  "('t, 'l, 'w) Engine \<Rightarrow> string \<Rightarrow> Task list \<Rightarrow> int \<times> int \<times> line list \<Rightarrow> 'l EngineState \<times> 'w \<Rightarrow>
    ((int \<times> int \<times> line list) \<times> 'l EngineState \<times> 'w) option" where
  "run_tasks E taskName [] acc s = Some (acc, s)"
| "run_tasks E taskName (t # ts) (runs, failed, errs) s =
     (if \<not> tk_IsEnabled t then run_tasks E taskName ts (runs, failed, errs) s
      else if taskName \<noteq> [] \<and> tk_Name t \<noteq> taskName then run_tasks E taskName ts (runs, failed, errs) s
      else case RunTask E t ''manual'' s of
        None \<Rightarrow> None
      | Some (res, s) \<Rightarrow>
          if rr_Status res \<noteq> Succeeded
          then run_tasks E taskName ts
            (runs + 1, failed + 1, errs @ [[AStr (tk_Name t), AStr (status_text (rr_Status res)), err_arg (rr_Err res)]]) s
          else run_tasks E taskName ts (runs + 1, failed, errs) s)"

record run_output =
  ro_err :: "error option"
  ro_stdout :: "line list"
  ro_stderr :: "line list"

text \<open>\<open>engine.New\<close> gives the command a registry of its own; \<open>e\<close> holds the contents of the log's
  file. The store is closed by the deferred call on every return, which the model of the
  store has no state for.\<close>

definition run_cmd ::
  "(Token, Registry, 'w) Engine \<Rightarrow> error + Task list \<Rightarrow> string \<Rightarrow> string \<Rightarrow> error option \<Rightarrow> error option \<Rightarrow> gotime \<Rightarrow>
    Registry EngineState \<times> 'w \<Rightarrow> (run_output \<times> Registry EngineState \<times> 'w) option" where
  "run_cmd E loaded taskName dbPath mkdir_err open_err now s =
     (case loaded of
        Inl err \<Rightarrow> Some (\<lparr>ro_err = Some err, ro_stdout = [], ro_stderr = []\<rparr>, s)
      | Inr tasks \<Rightarrow>
          (case s of (e, w) \<Rightarrow>
             (case Open dbPath mkdir_err open_err now (es_runs e) of
                (Some err, S) \<Rightarrow> Some (\<lparr>ro_err = Some err, ro_stdout = [], ro_stderr = []\<rparr>, e\<lparr>es_runs := S\<rparr>, w)
              | (None, S) \<Rightarrow>
                  (case run_tasks E taskName tasks (0, 0, []) (e\<lparr>es_lock := NewRegistry, es_runs := S\<rparr>, w) of
                     None \<Rightarrow> None
                   | Some ((runs, failed, errs), s) \<Rightarrow>
                       Some (if runs = 0
                             then \<lparr>ro_err = Some (Errorf ''no enabled tasks matched'' []), ro_stdout = [], ro_stderr = errs\<rparr>
                             else \<lparr>ro_err = (if 0 < failed then Some (Errorf ''%d task(s) failed'' [AInt failed]) else None),
                               ro_stdout = [[AInt runs, AInt failed]], ro_stderr = errs\<rparr>, s)))))"

section \<open>schedule\<close>

text \<open>\<open>lease\<close> is the outcome of \<open>lease.New\<close>, which is called only for \<open>db\<close>. \<open>Inr None\<close> is the
  in-process registry.\<close>

definition schedule_lock :: "string \<Rightarrow> error + Lease \<Rightarrow> error + Lease option" where
  "schedule_lock locking lease =
     (if locking \<noteq> ''process'' \<and> locking \<noteq> ''db''
      then Inl (Errorf ''--locking must be process or db, got %q'' [AStr locking])
      else if locking = ''db''
      then (case lease of Inl e \<Rightarrow> Inl e | Inr l \<Rightarrow> Inr (Some l))
      else Inr None)"

text \<open>The command up to the daemon's wait: the lock it runs with and the registered tasks.\<close>

definition schedule_cmd ::
  "(string \<Rightarrow> error option) \<Rightarrow> error + Task list \<Rightarrow> string \<Rightarrow> error + Lease \<Rightarrow> string \<Rightarrow> int \<Rightarrow> bool \<Rightarrow>
    error option \<Rightarrow> error option \<Rightarrow> error option \<Rightarrow> gotime \<Rightarrow> Store \<Rightarrow> (error + Lease option \<times> Task list) \<times> Store" where
  "schedule_cmd add loaded locking lease dbPath keep ui mkdir_err open_err tmpl_err now S =
     (case loaded of
        Inl e \<Rightarrow> (Inl e, S)
      | Inr tasks \<Rightarrow>
          (case schedule_lock locking lease of
             Inl e \<Rightarrow> (Inl e, S)
           | Inr lock \<Rightarrow>
               (case daemon_start add \<lparr>op_Config = tasks, op_DBPath = dbPath, op_KeepRuns = keep, op_UI = ui\<rparr>
                   mkdir_err open_err tmpl_err now S of
                  (Inl e, S) \<Rightarrow> (Inl e, S)
                | (Inr reg, S) \<Rightarrow> (Inr (lock, reg), S))))"

section \<open>validate\<close>

definition schedule_label :: "Task \<Rightarrow> string" where
  "schedule_label t =
     (let sched = (if tk_Schedule t = [] then ''(manual)'' else tk_Schedule t)
      in if \<not> tk_IsEnabled t then sched @ '' [disabled]'' else sched)"

definition validate_line :: "Task \<Rightarrow> line" where
  "validate_line t =
     [AStr (tk_Name t), AStr (schedule_label t), AStr (ep_Type (tk_Source t)), AStr (tg_Table (tk_Target t)),
      AStr (tg_Mode (tk_Target t))]"

text \<open>The table, its heading line aside, and the count; \<open>flush_err\<close> is the writer's.\<close>

definition validate_cmd :: "error + Task list \<Rightarrow> error option \<Rightarrow> error + line list \<times> int" where
  "validate_cmd loaded flush_err =
     (case loaded of
        Inl e \<Rightarrow> Inl e
      | Inr tasks \<Rightarrow>
          (case flush_err of
             Some e \<Rightarrow> Inl e
           | None \<Rightarrow> Inr (map validate_line tasks, int (length tasks))))"

section \<open>runs\<close>

text \<open>A start time that does not parse is the zero time.\<close>

definition runs_line :: "Run \<Rightarrow> line" where
  "runs_line r =
     (let started = (case run_StartedAt r of None \<Rightarrow> [] | Some t \<Rightarrow> fmt_rfc3339 t);
          errMsg = (if run_Error r = [] \<and> run_Samples r \<noteq> []
                    then sprintf ''%d sample(s)'' [\<lambda>_. itoa (int (length (run_Samples r)))] []
                    else run_Error r)
      in [AInt (run_ID r), AStr (run_Task r), AStr (run_Trigger r), AStr (status_text (run_Status r)),
          AInt (run_TotalRows r), AInt (run_OKRows r), AInt (run_FailRows r), AStr started, AStr errMsg])"

definition runs_cmd ::
  "string \<Rightarrow> error option \<Rightarrow> error option \<Rightarrow> gotime \<Rightarrow> string \<Rightarrow> int \<Rightarrow> error option \<Rightarrow> Store \<Rightarrow> (error + line list) \<times> Store" where
  "runs_cmd dbPath mkdir_err open_err now taskName limit flush_err S =
     (case Open dbPath mkdir_err open_err now S of
        (Some e, S) \<Rightarrow> (Inl e, S)
      | (None, S) \<Rightarrow>
          (case List taskName limit S of
             ((listed, Some e), S) \<Rightarrow> (Inl e, S)
           | ((listed, None), S) \<Rightarrow>
               (case flush_err of Some e \<Rightarrow> (Inl e, S) | None \<Rightarrow> (Inr (map runs_line listed), S))))"

section \<open>Facts\<close>

definition selected :: "string \<Rightarrow> Task \<Rightarrow> bool" where
  "selected taskName t \<longleftrightarrow> tk_IsEnabled t \<and> (taskName = [] \<or> tk_Name t = taskName)"

text \<open>With a free registry a run is not skipped.\<close>

lemma not_skipped:
  assumes "RunTask (NewEngine D registry_locker clk F) t trigger (e, w) = Some (res, e', w')"
    and "0 < tg_BatchSize (tk_Target t)" "reg_running (es_lock e) = Map.empty"
  shows "rr_Status res \<in> {Succeeded, Failed} \<and> reg_running (es_lock e') = Map.empty"
proof -
  have "reg_running (es_lock e') = Map.empty" using registry_kept [OF assms(1,2)] assms(3) by simp
  moreover have "rr_Status res \<in> {Succeeded, Failed}"
    using assms(2)
  proof (cases rule: prog.RunTask_result [where D = D and reg = registry_locker and clk = clk and F = F and trigger = trigger and e = e and w = w])
    case panicked
    with assms(1) show ?thesis by simp
  next
    case skipped
    then show ?thesis using assms(3) by (simp add: NewEngine_def registry_locker_def lock_simps)
  next
    case ran
    then show ?thesis using assms(1) by (auto simp: final_def)
  qed
  ultimately show ?thesis by blast
qed

lemma run_tasks_result:
  assumes "\<forall>t \<in> set ts. sizes_ok t" "reg_running (es_lock e) = Map.empty" "healthy_log (es_runs e)"
  shows "\<exists>e' w' rows errs'. run_tasks (NewEngine D registry_locker clk F) taskName ts (n, f, errs) (e, w) =
      Some ((n + int (length rows), f + int (length (filter (\<lambda>r. rw_status r \<noteq> Succeeded) rows)), errs'), e', w') \<and>
    st_runs (es_runs e') = st_runs (es_runs e) @ rows \<and> map rw_task rows = map tk_Name (filter (selected taskName) ts) \<and>
    (\<forall>r \<in> set rows. rw_status r \<in> {Succeeded, Failed})"
  using assms
proof (induction ts arbitrary: n f errs e w)
  case (Cons t ts)
  let ?E = "NewEngine D registry_locker clk F"
  have rest: "\<forall>t \<in> set ts. sizes_ok t" and ok: "sizes_ok t" and b: "0 < tg_BatchSize (tk_Target t)"
    using Cons.prems(1) by (simp_all add: sizes_ok_def)
  show ?case
  proof (cases "selected taskName t")
    case False
    then have "run_tasks ?E taskName (t # ts) (n, f, errs) (e, w) = run_tasks ?E taskName ts (n, f, errs) (e, w)"
      by (auto simp: selected_def)
    with Cons.IH [OF rest Cons.prems(2,3), of n f errs w] False show ?thesis by simp
  next
    case True
    obtain res e1 w1 where r: "RunTask ?E t ''manual'' (e, w) = Some (res, e1, w1)"
      by (rule prog.RunTask_returns [OF ok, where D = D and reg = registry_locker and clk = clk and F = F
          and trigger = "''manual''" and e = e and w = w])
    have st: "rr_Status res \<in> {Succeeded, Failed}" "reg_running (es_lock e1) = Map.empty"
      using not_skipped [OF r b Cons.prems(2)] by auto
    have nf: "st_faults (es_runs e) = []" "store_ok (es_runs e)" using Cons.prems(3) by (simp_all add: healthy_log_def)
    have h: "healthy_log (es_runs e1)" by (rule prog.RunTask_healthy [OF b Cons.prems(3) r])
    obtain row where row: "st_runs (es_runs e1) = st_runs (es_runs e) @ [row]" "rw_task row = tk_Name t" "rw_status row = rr_Status res"
      using recorded_once [OF r b nf] by blast
    define f1 where "f1 = (if rr_Status res \<noteq> Succeeded then f + 1 else f)"
    define errs1 where "errs1 = (if rr_Status res \<noteq> Succeeded
      then errs @ [[AStr (tk_Name t), AStr (status_text (rr_Status res)), err_arg (rr_Err res)]] else errs)"
    have step: "run_tasks ?E taskName (t # ts) (n, f, errs) (e, w) = run_tasks ?E taskName ts (n + 1, f1, errs1) (e1, w1)"
      using True r by (auto simp: selected_def f1_def errs1_def)
    obtain e' w' rows errs' where IH: "run_tasks ?E taskName ts (n + 1, f1, errs1) (e1, w1) =
        Some ((n + 1 + int (length rows), f1 + int (length (filter (\<lambda>r. rw_status r \<noteq> Succeeded) rows)), errs'), e', w')"
      "st_runs (es_runs e') = st_runs (es_runs e1) @ rows" "map rw_task rows = map tk_Name (filter (selected taskName) ts)"
      "\<forall>r \<in> set rows. rw_status r \<in> {Succeeded, Failed}"
      using Cons.IH [OF rest st(2) h, of "n + 1" f1 errs1 w1] by blast
    have "st_runs (es_runs e') = st_runs (es_runs e) @ (row # rows)" using IH(2) row(1) by simp
    moreover have "map rw_task (row # rows) = map tk_Name (filter (selected taskName) (t # ts))"
      using IH(3) row(2) True by simp
    moreover have "\<forall>r \<in> set (row # rows). rw_status r \<in> {Succeeded, Failed}" using IH(4) row(3) st(1) by simp
    moreover have "run_tasks ?E taskName (t # ts) (n, f, errs) (e, w) =
        Some ((n + int (length (row # rows)), f + int (length (filter (\<lambda>r. rw_status r \<noteq> Succeeded) (row # rows))), errs'), e', w')"
      unfolding step IH(1) using row(3) by (simp add: f1_def)
    ultimately show ?thesis by blast
  qed
qed simp

lemma Open_healthy:
  assumes "healthy_log S" "path = '':memory:'' \<or> me = None"
  shows "Open path me None now S = (None, S\<lparr>st_runs := map (sweep_row now) (st_runs S)\<rparr>)"
    and "healthy_log (S\<lparr>st_runs := map (sweep_row now) (st_runs S)\<rparr>)"
proof -
  have nf: "st_faults S = []" using assms(1) by (simp add: healthy_log_def)
  have "migrate_stmts n S = (None, S)" for n by (induction n) (simp_all add: sql_none [OF nf])
  then have "migrate S = (None, S)" by (simp add: migrate_def)
  then show "Open path me None now S = (None, S\<lparr>st_runs := map (sweep_row now) (st_runs S)\<rparr>)"
    using assms(2) by (auto simp: Open_def sweepInterrupted_def sql_none [OF nf])
  show "healthy_log (S\<lparr>st_runs := map (sweep_row now) (st_runs S)\<rparr>)"
    using store_ok_map [of S "sweep_row now"] assms(1) by (simp add: healthy_log_def)
qed

lemma Open_no_running:
  assumes "Open path me oe now S = (None, S')"
  shows "\<forall>r \<in> set (st_runs S'). rw_status r \<noteq> Running"
proof -
  obtain fs where "S' = S\<lparr>st_faults := fs, st_runs := map (sweep_row now) (st_runs S)\<rparr>"
    using Open_tables [OF assms] by auto
  then show ?thesis by (auto simp: sweep_row_def)
qed

section \<open>Properties\<close>

text \<open>
  C26: \<open>replicron run\<close> does what it is told and its exit status is honest: for a valid
  configuration whose pages can be allocated, on a healthy log, it returns; it has run exactly the enabled tasks that match
  the filter, each once and in order, each with one row, none of them skipped; and it exits
  with 0 just when there was at least one and all of them succeeded.
\<close>
theorem run_command_outcome:
  assumes "Validate env c = (None, c')" "healthy_log (es_runs e)" "path = '':memory:'' \<or> me = None"
    and "\<forall>t \<in> set c'. tk_PageSize t \<le> maxPageCap"
  shows "\<exists>out e' w' rows. run_cmd (NewEngine D registry_locker clk F) (Inr c') taskName path me None now (e, w) = Some (out, e', w') \<and>
    st_runs (es_runs e') = map (sweep_row now) (st_runs (es_runs e)) @ rows \<and>
    map rw_task rows = map tk_Name (filter (selected taskName) c') \<and>
    (\<forall>r \<in> set rows. rw_status r \<in> {Succeeded, Failed}) \<and>
    (exit_status (ro_err out) = 0 \<longleftrightarrow> rows \<noteq> [] \<and> (\<forall>r \<in> set rows. rw_status r = Succeeded))"
proof -
  let ?E = "NewEngine D registry_locker clk F"
  let ?S = "(es_runs e)\<lparr>st_runs := map (sweep_row now) (st_runs (es_runs e))\<rparr>"
  let ?e = "e\<lparr>es_lock := NewRegistry, es_runs := ?S\<rparr>"
  have op: "Open path me None now (es_runs e) = (None, ?S)" "healthy_log ?S"
    using Open_healthy [OF assms(2,3)] by blast+
  have b: "\<forall>t \<in> set c'. sizes_ok t" using validated_batch [OF assms(1)] assms(4) by (simp add: sizes_ok_def)
  have h: "reg_running (es_lock ?e) = Map.empty" "healthy_log (es_runs ?e)"
    using op(2) by (simp_all add: NewRegistry_def)
  obtain e' w' rows errs where r: "run_tasks ?E taskName c' (0, 0, []) (?e, w) =
      Some ((0 + int (length rows), 0 + int (length (filter (\<lambda>r. rw_status r \<noteq> Succeeded) rows)), errs), e', w')"
    "st_runs (es_runs e') = st_runs (es_runs ?e) @ rows" "map rw_task rows = map tk_Name (filter (selected taskName) c')"
    "\<forall>r \<in> set rows. rw_status r \<in> {Succeeded, Failed}"
    using run_tasks_result [OF b h, of D clk F taskName 0 0 "[]" w] by blast
  define out where "out = (if int (length rows) = 0
      then \<lparr>ro_err = Some (Errorf ''no enabled tasks matched'' []), ro_stdout = [], ro_stderr = errs\<rparr>
      else \<lparr>ro_err = (if 0 < int (length (filter (\<lambda>r. rw_status r \<noteq> Succeeded) rows))
          then Some (Errorf ''%d task(s) failed'' [AInt (int (length (filter (\<lambda>r. rw_status r \<noteq> Succeeded) rows)))]) else None),
        ro_stdout = [[AInt (int (length rows)), AInt (int (length (filter (\<lambda>r. rw_status r \<noteq> Succeeded) rows)))]], ro_stderr = errs\<rparr>)"
  have "run_cmd ?E (Inr c') taskName path me None now (e, w) = Some (out, e', w')"
    unfolding run_cmd_def sum.case prod.case op(1) option.case r(1) by (simp add: out_def)
  moreover have "exit_status (ro_err out) = 0 \<longleftrightarrow> rows \<noteq> [] \<and> (\<forall>r \<in> set rows. rw_status r = Succeeded)"
    by (auto simp: out_def exit_status_def filter_empty_conv)
  moreover have "st_runs (es_runs e') = map (sweep_row now) (st_runs (es_runs e)) @ rows" using r(2) by simp
  ultimately show ?thesis using r(3,4) by blast
qed

theorem run_command_outcome_witness:
  "\<exists>out e' w'. run_cmd (demo_engine never) (Inr [validated no_env sample_task]) ''other'' '':memory:'' None None (GoTime 0 0)
      (demo_state, []) = Some (out, e', w') \<and> st_runs (es_runs e') = [] \<and> exit_status (ro_err out) \<noteq> 0"
proof -
  have h: "healthy_log (es_runs demo_state)" "st_runs (es_runs demo_state) = []"
    by (simp_all add: demo_state_def healthy_log_def store_ok_def new_store_def)
  have s: "filter (selected ''other'') [validated no_env sample_task] = []"
    by (simp add: selected_def sample_task_def)
  from run_command_outcome [OF sample_validates h(1), of "'':memory:''" None "demo_drivers never" demo_clock bits_text "''other''"
      "GoTime 0 0" "[]", folded demo_engine_def, unfolded s h(2)]
  show ?thesis by (auto simp: sample_task_def validated_def maxPageCap_def)
qed

text \<open>
  C27: \<open>replicron runs\<close> cannot show a run in progress: it opens the log like the daemon does,
  which interrupts whatever is running, also in another process; so no line it prints has the
  status \<open>running\<close>, and afterwards no row has it either.
\<close>
theorem runs_command_shows_no_running:
  assumes "runs_cmd path me oe now taskName limit fe S = (Inr lines, S')"
  shows "(\<forall>line \<in> set lines. line ! 3 \<noteq> AStr ''running'') \<and> (\<forall>r \<in> set (st_runs S'). rw_status r \<noteq> Running)"
proof -
  obtain S1 runs where o: "Open path me oe now S = (None, S1)" "List taskName limit S1 = ((runs, None), S')"
    "lines = map runs_line runs"
    using assms by (auto simp: runs_cmd_def split: prod.splits option.splits)
  have no: "\<forall>r \<in> set (st_runs S1). rw_status r \<noteq> Running" by (rule Open_no_running [OF o(1)])
  obtain f S2 where f: "sql S1 = (f, S2)" by (cases "sql S1")
  then obtain fs where S2: "S2 = S1\<lparr>st_faults := fs\<rparr>" by (rule sql_cases)
  have "f = None" using o(2) f by (auto simp: List_def Let_def split: option.splits)
  obtain f3 S3 where f3: "sql S2 = (f3, S3)" by (cases "sql S2")
  then obtain fs3 where S3: "S3 = S2\<lparr>st_faults := fs3\<rparr>" by (rule sql_cases)
  define rows where "rows = take (if limit \<le> 0 then 20 else nat limit)
      (newest_first (filter (\<lambda>r. taskName = '''' \<or> rw_task r = taskName) (st_runs S2)))"
  have l: "runs = map scanRun rows" "S' = S3"
    using o(2) f f3 \<open>f = None\<close> by (simp_all add: List_def Let_def rows_def)
  have rows: "\<forall>r \<in> set rows. rw_status r \<noteq> Running"
    using no by (auto simp: rows_def newest_first_def S2 dest: in_set_takeD)
  have "line ! 3 \<noteq> AStr ''running''" if "line \<in> set lines" for line
  proof -
    from that obtain r where r: "r \<in> set rows" "line = runs_line (scanRun r)" by (auto simp: o(3) l(1))
    have "line ! 3 = AStr (status_text (rw_status r))" by (simp add: r(2) runs_line_def scanRun_def Let_def)
    moreover have "status_text (rw_status r) \<noteq> ''running''" using rows r(1) by (cases "rw_status r") auto
    ultimately show ?thesis by simp
  qed
  with no show ?thesis by (simp add: l(2) S3 S2)
qed

theorem runs_command_shows_no_running_witness:
  "\<exists>lines S'. runs_cmd '':memory:'' None None (GoTime 0 0) '''' 20 None (snd (StartRun (GoTime 0 0) ''t'' ''cron'' new_store)) =
      (Inr lines, S') \<and> length lines = 1 \<and> (\<forall>line \<in> set lines. line ! 3 \<noteq> AStr ''running'')"
proof -
  let ?S = "snd (StartRun (GoTime 0 0) ''t'' ''cron'' new_store)"
  have S: "st_runs ?S = [started_row (GoTime 0 0) ''t'' ''cron'' 1]" "st_faults ?S = []" "healthy_log ?S"
    by (simp_all add: StartRun_def new_store_def sql_def Let_def healthy_log_def store_ok_def started_row_def)
  obtain lines S' where r: "runs_cmd '':memory:'' None None (GoTime 0 0) '''' 20 None ?S = (Inr lines, S')" "length lines = 1"
    using Open_healthy(1) [OF S(3), of "'':memory:''" None "GoTime 0 0"]
    by (auto simp: runs_cmd_def List_def Let_def sql_none S newest_first_def)
  with runs_command_shows_no_running [OF r(1)] show ?thesis by blast
qed

end
