(* ===== verification/Ui.thy ===== *)
theory Ui
  imports Runlog Config Goduration
begin

text \<open>
  \<open>internal/ui/ui.go\<close>: the two handlers, from the request's parameters to the status code and
  the data given to the template. HTML templating, the HTTP server and the multiplexer are
  the library's.
\<close>

section \<open>Durations\<close>

definition clamp64 :: "int \<Rightarrow> int" where
  "clamp64 x = max (- (2 ^ 63)) (min x (2 ^ 63 - 1))"

text \<open>\<open>t.Sub(u)\<close> saturates.\<close>

definition time_Sub :: "gotime \<Rightarrow> gotime \<Rightarrow> int" where
  "time_Sub t u = clamp64 (inst t - inst u)"

text \<open>\<open>d.Round(m)\<close> for a positive \<open>m\<close>: halves away from zero, saturating.\<close>

definition dur_Round :: "int \<Rightarrow> int \<Rightarrow> int" where
  "dur_Round d m =
     (let r = \<bar>d\<bar> mod m
      in clamp64 (if r + r < m then (if d < 0 then d + r else d - r)
                  else (if d < 0 then d - m + r else d + m - r)))"

text \<open>\<open>fmtFrac\<close>: the fraction of \<open>v / 10^w\<close> without trailing zeros, or nothing.\<close>

definition fmt_frac :: "nat \<Rightarrow> nat \<Rightarrow> string" where
  "fmt_frac w v = (let ds = trim_zeros (zero_pad w (v mod 10 ^ w)) in if ds = [] then [] else CHR ''.'' # ds)"

text \<open>\<open>d.String()\<close>.\<close>

definition dur_String :: "int \<Rightarrow> string" where
  "dur_String d =
     (let u = nat \<bar>d\<bar>;
          sign = (if d < 0 then ''-'' else []);
          secs = u div 10 ^ 9;
          small = (if u < 10 ^ 3 then nat_str u @ ''ns''
                   else if u < 10 ^ 6 then nat_str (u div 10 ^ 3) @ fmt_frac 3 u @ [CHR 0xC2, CHR 0xB5] @ ''s''
                   else nat_str (u div 10 ^ 6) @ fmt_frac 6 u @ ''ms'');
          sec = nat_str (secs mod 60) @ fmt_frac 9 u @ ''s'';
          mins = (if secs div 60 = 0 then sec
                  else if secs div 3600 = 0 then nat_str (secs div 60) @ ''m'' @ sec
                  else nat_str (secs div 3600) @ ''h'' @ nat_str (secs div 60 mod 60) @ ''m'' @ sec)
      in if u = 0 then ''0s'' else if u < 10 ^ 9 then sign @ small else sign @ mins)"

lemma digit_chars:
  "digit 0 = CHR ''0''" "digit (Suc 0) = CHR ''1''" "digit 2 = CHR ''2''" "digit 3 = CHR ''3''" "digit 5 = CHR ''5''"
  by code_simp+

lemma nat_str_steps:
  "n < 10 \<Longrightarrow> nat_str n = [digit n]"
  "\<not> n < 10 \<Longrightarrow> nat_str n = nat_str (n div 10) @ [digit (n mod 10)]"
  by (subst nat_str.simps, simp)+

lemma dur_String_examples:
  "dur_String 0 = ''0s''" "dur_String 1500000 = ''1.5ms''" "dur_String 90000000000 = ''1m30s''"
  "dur_String 3600000000000 = ''1h0m0s''" "dur_String (- 2050000000) = ''-2.05s''"
  by (simp_all add: dur_String_def Let_def fmt_frac_def zero_pad_def trim_zeros_def nat_str_steps digit_chars)

lemma dur_Round_examples:
  "dur_Round 1499999 1000000 = 1000000" "dur_Round 1500000 1000000 = 2000000" "dur_Round (- 1500000) 1000000 = - 2000000"
  by code_simp+

section \<open>The index\<close>

record taskView =
  tv_Name :: string
  tv_Schedule :: string
  tv_Enabled :: bool

record runView =
  rv_ID :: int
  rv_Task :: string
  rv_Trigger :: string
  rv_Status :: string
  rv_OK :: int
  rv_Fail :: int
  rv_Started :: string
  rv_Duration :: string
  rv_Err :: string

record indexData =
  id_Tasks :: "taskView list"
  id_Statuses :: "string list"
  id_FilterTask :: string
  id_FilterStatus :: string
  id_Runs :: "runView list"

text \<open>A response: the template's data with status 200, or \<open>http.Error\<close>.\<close>

datatype 'd response = Page 'd | HttpError nat error

text \<open>The zero \<open>time.Time\<close>, which an unparsable start time is: the first of January of year 1.\<close>

definition zero_time :: gotime where
  "zero_time = GoTime (- 62135596800 * second_ns) 0"

definition started_at :: "Run \<Rightarrow> gotime" where
  "started_at r = (case run_StartedAt r of None \<Rightarrow> zero_time | Some t \<Rightarrow> t)"

text \<open>The layout \<open>01-02 15:04:05\<close>.\<close>

definition fmt_short :: "gotime \<Rightarrow> string" where
  "fmt_short t = (let (y, m, d) = t_date t in pad_int 2 m @ ''-'' @ pad_int 2 d @ '' '' @ fmt_hms t)"

definition task_view :: "Task \<Rightarrow> taskView" where
  "task_view t = \<lparr>tv_Name = tk_Name t,
     tv_Schedule = (if tk_Schedule t = [] then ''manual'' else tk_Schedule t), tv_Enabled = tk_IsEnabled t\<rparr>"

definition run_view :: "Run \<Rightarrow> runView" where
  "run_view r =
     (let took = (case run_FinishedAt r of
                    None \<Rightarrow> [CHR 0xE2, CHR 0x80, CHR 0x94]
                  | Some f \<Rightarrow> dur_String (dur_Round (time_Sub f (started_at r)) 1000000));
          msg = (if 120 < length (run_Error r) then take 120 (run_Error r) @ [CHR 0xE2, CHR 0x80, CHR 0xA6] else run_Error r)
      in \<lparr>rv_ID = run_ID r, rv_Task = run_Task r, rv_Trigger = run_Trigger r, rv_Status = status_text (run_Status r),
          rv_OK = run_OKRows r, rv_Fail = run_FailRows r, rv_Started = fmt_short (utc (started_at r)),
          rv_Duration = took, rv_Err = msg\<rparr>)"

definition ui_index :: "Task list \<Rightarrow> string \<Rightarrow> string \<Rightarrow> Store \<Rightarrow> indexData response \<times> Store" where
  "ui_index tasks filterTask filterStatus S =
     (case List filterTask 100 S of
        ((runs, Some e), S) \<Rightarrow> (HttpError 500 e, S)
      | ((runs, None), S) \<Rightarrow>
          (Page \<lparr>id_Tasks = map task_view tasks,
             id_Statuses = map status_text [Running, Succeeded, Failed, Skipped, Interrupted],
             id_FilterTask = filterTask, id_FilterStatus = filterStatus,
             id_Runs = map (run_view)
               (filter (\<lambda>r. \<not> (filterStatus \<noteq> [] \<and> status_text (run_Status r) \<noteq> filterStatus)) runs)\<rparr>, S))"

section \<open>The detail page\<close>

definition ui_detail :: "string \<Rightarrow> Store \<Rightarrow> (Run \<times> RunEvent list) response \<times> Store" where
  "ui_detail idText S =
     (case (case parse_int idText of None \<Rightarrow> None | Some i \<Rightarrow> if i \<le> 0 then None else Some i) of
        None \<Rightarrow> (HttpError 400 (Errorf ''invalid run id'' []), S)
      | Some i \<Rightarrow>
          (case GetRun i S of
             (Inl e, S) \<Rightarrow> (HttpError 500 e, S)
           | (Inr None, S) \<Rightarrow> (HttpError 404 (Errorf ''run not found'' []), S)
           | (Inr (Some run), S) \<Rightarrow>
               (case ListEvents i 500 S of
                  ((events, Some e), S) \<Rightarrow> (HttpError 500 e, S)
                | ((events, None), S) \<Rightarrow> (Page (run, events), S))))"

section \<open>Reading only\<close>

definition same_tables :: "Store \<Rightarrow> Store \<Rightarrow> bool" where
  "same_tables S S' \<longleftrightarrow> (\<exists>fs. S' = S\<lparr>st_faults := fs\<rparr>)"

lemma same_tables_refl [simp]: "same_tables S S"
  unfolding same_tables_def by (rule exI [of _ "st_faults S"]) simp

lemma same_tables_trans: "same_tables S S' \<Longrightarrow> same_tables S' S'' \<Longrightarrow> same_tables S S''"
  by (auto simp: same_tables_def)

lemma sql_tables: "sql S = (f, S') \<Longrightarrow> same_tables S S'"
  by (erule sql_cases) (auto simp: same_tables_def)

lemma List_tables: "List task n S = (r, S') \<Longrightarrow> same_tables S S'"
  by (auto simp: List_def Let_def split: prod.splits option.splits dest!: sql_tables intro: same_tables_trans)

lemma GetRun_tables: "GetRun i S = (r, S') \<Longrightarrow> same_tables S S'"
  by (auto simp: GetRun_def split: prod.splits option.splits dest!: sql_tables)

lemma ListEvents_tables: "ListEvents i n S = (r, S') \<Longrightarrow> same_tables S S'"
  by (auto simp: ListEvents_def Let_def split: prod.splits option.splits dest!: sql_tables intro: same_tables_trans)

section \<open>Properties\<close>

text \<open>
  The dashboard exposes no mutation: whatever the request and whatever the database
  answers, a page leaves every run, event, id counter and watermark of the log as it was.
\<close>
theorem ui_changes_nothing:
  "same_tables S (snd (ui_index tasks filterTask filterStatus S)) \<and> same_tables S (snd (ui_detail idText S))"
proof
  show "same_tables S (snd (ui_index tasks filterTask filterStatus S))"
    by (auto simp: ui_index_def split: prod.splits option.splits dest: List_tables)
  show "same_tables S (snd (ui_detail idText S))"
    by (auto simp: ui_detail_def split: prod.splits option.splits sum.splits
        dest: GetRun_tables ListEvents_tables intro: same_tables_trans)
qed

text \<open>
  The pages show what the log holds: on a database that answers, the index lists, newest
  first, those of the newest hundred runs (of the task, when one is given) that have the
  chosen status, and no older one; the detail page answers 400 to anything but the decimal
  text of a positive 64-bit number, 404 when no run has that id, and otherwise shows that
  run with its first 500 events in order.
\<close>
theorem ui_shows_log:
  assumes "st_faults S = []"
  shows "(\<exists>d. fst (ui_index tasks filterTask filterStatus S) = Page d \<and>
      id_Runs d = map (run_view) (filter (\<lambda>r. filterStatus = [] \<or> status_text (run_Status r) = filterStatus)
        (map scanRun (take 100 (newest_first (filter (\<lambda>r. filterTask = [] \<or> rw_task r = filterTask) (st_runs S))))))) \<and>
    fst (ui_detail idText S) =
      (case parse_int idText of
         None \<Rightarrow> HttpError 400 (Errorf ''invalid run id'' [])
       | Some i \<Rightarrow>
           if i \<le> 0 then HttpError 400 (Errorf ''invalid run id'' [])
           else case find (\<lambda>r. rw_id r = i) (st_runs S) of
             None \<Rightarrow> HttpError 404 (Errorf ''run not found'' [])
           | Some row \<Rightarrow> Page (scanRun row, map (\<lambda>e. \<lparr>re_ID = ev_id e, re_Kind = ev_kind e, re_Payload = ev_payload e,
                re_TS = parse_rfc3339 (ev_ts e)\<rparr>) (take 500 (sort_key ev_id (filter (\<lambda>e. ev_run_id e = i) (st_events S))))))"
proof
  show "\<exists>d. fst (ui_index tasks filterTask filterStatus S) = Page d \<and>
      id_Runs d = map (run_view) (filter (\<lambda>r. filterStatus = [] \<or> status_text (run_Status r) = filterStatus)
        (map scanRun (take 100 (newest_first (filter (\<lambda>r. filterTask = [] \<or> rw_task r = filterTask) (st_runs S))))))"
    by (simp add: ui_index_def List_def Let_def sql_none assms)
qed (simp add: ui_detail_def GetRun_def ListEvents_def Let_def sql_none assms split: option.split)

theorem ui_shows_log_witness:
  "fst (ui_detail ''7'' new_store) = HttpError 404 (Errorf ''run not found'' []) \<and>
   fst (ui_detail ''0'' new_store) = HttpError 400 (Errorf ''invalid run id'' [])"
proof -
  have p: "parse_int ''7'' = Some 7" "parse_int ''0'' = Some 0" by code_simp+
  have nf: "st_faults new_store = []" "st_runs new_store = []" by (simp_all add: new_store_def)
  from ui_shows_log [OF nf(1), of "[]" "[]" "[]" "''7''"] ui_shows_log [OF nf(1), of "[]" "[]" "[]" "''0''"]
  show ?thesis by (simp add: p nf(2))
qed

end
